(* ===== verification/Flow_Prelude.thy ===== *)
theory Flow_Prelude
  imports Main "HOL-Library.Word" "HOL-Library.Monad_Syntax"
begin

text \<open>
  Shared vocabulary of the FlowOS development: the fixed-width integer types of
  \<^verbatim>\<open>src/src/types.h\<close>, the outcome types of partial operations, the generic lemmas on
  32-bit words (page alignment, absence of wrap-around, single bits) that the components
  use, and the collections that carry them to the simplifier.
\<close>

unbundle bit_operations_syntax

subsection \<open>Integer types\<close>

type_synonym u8 = "8 word"
type_synonym u16 = "16 word"
type_synonym u32 = "32 word"
type_synonym u64 = "64 word"

text \<open>Undefined behaviour of the C source that the model makes visible.\<close>

datatype c_fault = OutOfBounds | DivByZero | NullDeref

text \<open>
  How a handler ends: it returns a result and a state, it stops the processor for good, it
  leaves the kernel for user mode with an instruction and a stack pointer, or it runs into
  undefined behaviour.
\<close>

datatype ('r, 's) outcome =
  Returned 'r 's | Halted 's | Entered_User u32 u32 's | Faulted c_fault

text \<open>
  \<open>c_consts\<close> collects the definitions of the source's numeric macros, \<open>no_wrap\<close> the
  lemmas that turn word arithmetic into natural-number arithmetic.
\<close>

named_theorems c_consts
named_theorems no_wrap

subsection \<open>Bounded quantifiers\<close>

lemma all_from_Suc:
  fixes j m :: nat
  assumes "P j"
  shows "(\<forall>n. j \<le> n \<and> n < m \<longrightarrow> P n) \<longleftrightarrow> (\<forall>n. Suc j \<le> n \<and> n < m \<longrightarrow> P n)"
  using assms by (metis Suc_leD Suc_leI le_neq_implies_less)

subsection \<open>Positions inside a 32-bit row\<close>

lemma row_of:
  fixes i q j :: nat
  assumes "i * 32 \<le> q" "q < i * 32 + j" "j \<le> 32"
  shows "q div 32 = i" and "q mod 32 < j"
proof -
  show row: "q div 32 = i" using assms by (intro div_nat_eqI) auto
  show "q mod 32 < j" using row assms div_mult_mod_eq [of q 32] by simp
qed

subsection \<open>Words without wrap-around\<close>

lemma unat_lt_u32: "unat (a :: u32) < 4294967296"
  using unsigned_less [where 'a = nat and w = a] by simp

lemma unat_add_no_wrap [no_wrap]:
  fixes a b :: u32
  assumes "unat a + unat b < 2 ^ 32"
  shows "unat (a + b) = unat a + unat b"
  using assms by (simp add: unat_word_ariths)

lemma unat_sub_no_wrap [no_wrap]:
  fixes a b :: u32
  assumes "b \<le> a"
  shows "unat (a - b) = unat a - unat b"
  using assms by (simp add: unat_sub)

lemma unat_mult_no_wrap [no_wrap]:
  fixes a b :: u32
  assumes "unat a * unat b < 2 ^ 32"
  shows "unat (a * b) = unat a * unat b"
  using assms by (simp add: unat_word_ariths)

lemma unat_Suc_no_wrap [no_wrap]:
  fixes a b :: u32
  assumes "a < b"
  shows "unat (a + 1) = Suc (unat a)"
proof -
  have "unat a < unat b" using assms by (simp add: word_less_nat_alt)
  moreover have "unat b < 2 ^ 32" using unat_lt_u32 [of b] by simp
  ultimately show ?thesis by (simp add: unat_word_ariths)
qed

lemma unat_of_nat_u32 [no_wrap]:
  "n < 2 ^ 32 \<Longrightarrow> unat (of_nat n :: u32) = n"
  by (simp add: unat_of_nat)

lemma unat_div_u32: "unat ((a :: u32) div b) = unat a div unat b"
  by (rule unat_div)

lemma unat_mod_u32: "unat ((a :: u32) mod b) = unat a mod unat b"
  by (rule unat_mod)

lemma word_eq_iff_unat_u32: "(a :: u32) = b \<longleftrightarrow> unat a = unat b"
  by (rule word_unat_eq_iff)

subsection \<open>Single bits of a 32-bit word\<close>

text \<open>
  The simplifier turns \<open>push_bit n 1\<close>, the model of \<open>1 << n\<close>, into \<open>2 ^ n\<close>: the lemmas
  are stated in that form.
\<close>

lemma and_single_bit: "w AND 2 ^ n = 0 \<longleftrightarrow> \<not> bit (w :: u32) n"
  by (simp add: bit_iff_and_push_bit_not_eq_0)

lemma bit_or_single: "bit (w OR 2 ^ n) m \<longleftrightarrow> bit w m \<or> (m = n \<and> n < 32)" for w :: u32
  by (auto simp: bit_simps)

lemma bit_and_not_single: "bit (w AND NOT (2 ^ n)) m \<longleftrightarrow> bit w m \<and> m \<noteq> n" for w :: u32
  by (auto simp: bit_simps dest: bit_imp_le_length)

lemma all_ones_u32: "w = (0xFFFFFFFF :: u32) \<longleftrightarrow> (\<forall>n < 32. bit w n)"
proof -
  have "(0xFFFFFFFF :: u32) = - 1" by simp
  then show ?thesis by (auto simp: bit_eq_iff)
qed

end
