(* ===== verification/Port_IO.thy ===== *)
theory Port_IO
  imports Flow_Prelude
begin

text \<open>
  Port input and output (\<^verbatim>\<open>src/src/types.h\<close>). The hardware behind the ports is not part of
  the program: it is a parameter \<open>dev\<close> that gives the value of the next read of a port as a
  function of everything that happened on the ports before. The state keeps that history,
  newest event first, and the processor's interrupt flag.
\<close>

datatype io_event = Outb u16 u8 | Inb u16 u8 | Outw u16 u16 | Inw u16 u16

type_synonym device = "io_event list \<Rightarrow> u16 \<Rightarrow> u16"

record io_state =
  io_log :: "io_event list"
  if_flag :: bool

definition outb :: "u16 \<Rightarrow> u8 \<Rightarrow> 'a io_state_scheme \<Rightarrow> 'a io_state_scheme" where
  "outb port val s = s\<lparr>io_log := Outb port val # io_log s\<rparr>"

definition inb :: "device \<Rightarrow> u16 \<Rightarrow> 'a io_state_scheme \<Rightarrow> u8 \<times> 'a io_state_scheme" where
  "inb dev port s =
     (let v = ucast (dev (io_log s) port) in (v, s\<lparr>io_log := Inb port v # io_log s\<rparr>))"

definition io_wait :: "'a io_state_scheme \<Rightarrow> 'a io_state_scheme" where
  "io_wait s = outb 0x80 0 s"

definition inw :: "device \<Rightarrow> u16 \<Rightarrow> 'a io_state_scheme \<Rightarrow> u16 \<times> 'a io_state_scheme" where
  "inw dev port s =
     (let v = dev (io_log s) port in (v, s\<lparr>io_log := Inw port v # io_log s\<rparr>))"

definition outw :: "u16 \<Rightarrow> u16 \<Rightarrow> 'a io_state_scheme \<Rightarrow> 'a io_state_scheme" where
  "outw port val s = s\<lparr>io_log := Outw port val # io_log s\<rparr>"

definition cli :: "'a io_state_scheme \<Rightarrow> 'a io_state_scheme" where
  "cli s = s\<lparr>if_flag := False\<rparr>"

definition sti :: "'a io_state_scheme \<Rightarrow> 'a io_state_scheme" where
  "sti s = s\<lparr>if_flag := True\<rparr>"

lemmas port_io_defs = outb_def inb_def io_wait_def inw_def outw_def cli_def sti_def

end
