(* ===== verification/Console.thy ===== *)
theory Console
  imports Port_IO
begin

text \<open>
  Text console and serial log (the drivers at the top of \<^verbatim>\<open>src/src/kernel.c\<close>). The VGA text
  memory at 0xB8000 is a function from byte offset to byte; every character cell is a
  character byte followed by an attribute byte. A C string is the list of its characters; the
  loops stop at a NUL character or, for a literal, whose final NUL is left implicit, at the
  end of the list.
\<close>

subsection \<open>State\<close>

definition VGA_COLS :: int where
  [c_consts]: "VGA_COLS = 80"

definition VGA_ROWS :: int where
  [c_consts]: "VGA_ROWS = 25"

record console_state = io_state +
  vga_mem :: "int \<Rightarrow> u8"
  vga_row :: int
  vga_col :: int
  vga_color :: u8

abbreviation NUL :: char where "NUL \<equiv> CHR 0x00"
abbreviation NEWLINE :: char where "NEWLINE \<equiv> CHR 0x0A"
abbreviation BACKSPACE :: char where "BACKSPACE \<equiv> CHR 0x08"

text \<open>The loop \<open>for (i = a; i < b; ++i)\<close>.\<close>

definition for_loop :: "int \<Rightarrow> int \<Rightarrow> (int \<Rightarrow> 's \<Rightarrow> 's) \<Rightarrow> 's \<Rightarrow> 's" where
  "for_loop a b body s = fold body [a..b - 1] s"

fun kstrlen :: "string \<Rightarrow> int" where
  "kstrlen [] = 0"
| "kstrlen (c # cs) = (if c \<noteq> NUL then 1 + kstrlen cs else 0)"

subsection \<open>VGA text driver\<close>

definition set_cell :: "int \<Rightarrow> char \<Rightarrow> u8 \<Rightarrow> 'a console_state_scheme \<Rightarrow> 'a console_state_scheme" where
  "set_cell idx c attr s = s\<lparr>vga_mem := (vga_mem s)(idx := of_char c, idx + 1 := attr)\<rparr>"

text \<open>The offset of a character cell, as the code computes it everywhere.\<close>

definition cell_idx :: "int \<Rightarrow> int \<Rightarrow> int" where
  "cell_idx row col = (row * VGA_COLS + col) * 2"

definition vga_clear :: "'a console_state_scheme \<Rightarrow> 'a console_state_scheme" where
  "vga_clear s =
     (for_loop 0 VGA_ROWS (\<lambda>row. for_loop 0 VGA_COLS (\<lambda>col s.
        set_cell (cell_idx row col) CHR '' '' (vga_color s) s)) s)
     \<lparr>vga_row := 0, vga_col := 0\<rparr>"

definition vga_set_cursor :: "int \<Rightarrow> int \<Rightarrow> 'a console_state_scheme \<Rightarrow> 'a console_state_scheme" where
  "vga_set_cursor row col s =
     (let row = (if row < 0 then 0 else row);
          row = (if row \<ge> VGA_ROWS then VGA_ROWS - 1 else row);
          col = (if col < 0 then 0 else col);
          col = (if col \<ge> VGA_COLS then VGA_COLS - 1 else col)
      in s\<lparr>vga_row := row, vga_col := col\<rparr>)"

definition vga_put_char :: "char \<Rightarrow> 'a console_state_scheme \<Rightarrow> 'a console_state_scheme" where
  "vga_put_char c s =
     (if c = NEWLINE then
        let row = vga_row s + 1
        in s\<lparr>vga_col := 0, vga_row := (if row \<ge> VGA_ROWS then 0 else row)\<rparr>
      else if c = BACKSPACE then
        if vga_col s > 0 then
          let col = vga_col s - 1
          in set_cell (cell_idx (vga_row s) col) CHR '' '' (vga_color s) (s\<lparr>vga_col := col\<rparr>)
        else s
      else
        let s1 = set_cell (cell_idx (vga_row s) (vga_col s)) c (vga_color s) s;
            col = vga_col s1 + 1
        in if col \<ge> VGA_COLS then
             let row = vga_row s1 + 1
             in s1\<lparr>vga_col := 0, vga_row := (if row \<ge> VGA_ROWS then 0 else row)\<rparr>
           else s1\<lparr>vga_col := col\<rparr>)"

fun print_vga :: "string \<Rightarrow> 'a console_state_scheme \<Rightarrow> 'a console_state_scheme" where
  "print_vga [] s = s"
| "print_vga (c # cs) s = (if c \<noteq> NUL then print_vga cs (vga_put_char c s) else s)"

definition vga_write_at ::
  "int \<Rightarrow> int \<Rightarrow> string \<Rightarrow> 'a console_state_scheme \<Rightarrow> 'a console_state_scheme" where
  "vga_write_at row col str s = print_vga str (vga_set_cursor row col s)"

text \<open>C division truncates towards zero.\<close>

definition c_half :: "int \<Rightarrow> int" where
  "c_half n = (if n < 0 then - ((- n) div 2) else n div 2)"

definition vga_write_centered ::
  "int \<Rightarrow> string \<Rightarrow> 'a console_state_scheme \<Rightarrow> 'a console_state_scheme" where
  "vga_write_centered row str s =
     (let len = kstrlen str;
          col = c_half (VGA_COLS - len);
          col = (if col < 0 then 0 else col)
      in vga_write_at row col str s)"

subsection \<open>Decimal conversion\<close>

text \<open>The digits in the order the loop stores them in \<open>tmp\<close>, least significant first.\<close>

function uitoa_tmp :: "u32 \<Rightarrow> char list" where
  "uitoa_tmp value =
     (if value > 0 then char_of (unat (48 + value mod 10)) # uitoa_tmp (value div 10) else [])"
  by pat_completeness auto
termination
  by (relation "measure unat")
    (auto simp: word_less_nat_alt unat_div_u32 div_less_dividend)

declare uitoa_tmp.simps [simp del]

definition uitoa :: "u32 \<Rightarrow> string" where
  "uitoa value = (if value = 0 then ''0'' else rev (uitoa_tmp value))"

subsection \<open>Boxes, fields and the loading bar\<close>

definition draw_loading_bar :: "int \<Rightarrow> 'a console_state_scheme \<Rightarrow> 'a console_state_scheme" where
  "draw_loading_bar percent s =
     (let row = 13; width = 40;
          col = c_half (VGA_COLS - width);
          inner_width = width - 2;
          filled = (if percent * inner_width < 0 then - ((- (percent * inner_width)) div 100)
                    else percent * inner_width div 100);
          s1 = vga_write_at row (col + width - 1) '']'' (vga_write_at row col ''['' s);
          s2 = for_loop 0 inner_width (\<lambda>i s.
                 set_cell (cell_idx row (col + 1 + i))
                   (if i < filled then CHR ''#'' else CHR '' '') (vga_color s) s) s1
      in vga_write_centered (row + 1) (uitoa (word_of_int percent) @ ''%'') s2)"

definition set_char :: "int \<Rightarrow> char \<Rightarrow> 'a console_state_scheme \<Rightarrow> 'a console_state_scheme" where
  "set_char idx c s = s\<lparr>vga_mem := (vga_mem s)(idx := of_char c)\<rparr>"

definition draw_box ::
  "int \<Rightarrow> int \<Rightarrow> int \<Rightarrow> int \<Rightarrow> 'a console_state_scheme \<Rightarrow> 'a console_state_scheme" where
  "draw_box ytop left height width s =
     (let s1 = for_loop left (left + width) (\<lambda>col s.
                 set_cell (cell_idx (ytop + height - 1) col) CHR ''-'' (vga_color s)
                   (set_cell (cell_idx ytop col) CHR ''-'' (vga_color s) s)) s;
          s2 = for_loop ytop (ytop + height) (\<lambda>row s.
                 set_cell (cell_idx row (left + width - 1)) CHR ''|'' (vga_color s)
                   (set_cell (cell_idx row left) CHR ''|'' (vga_color s) s)) s1;
          s3 = set_char (cell_idx ytop left) CHR ''+'' s2;
          s4 = set_char (cell_idx ytop (left + width - 1)) CHR ''+'' s3;
          s5 = set_char (cell_idx (ytop + height - 1) left) CHR ''+'' s4
      in set_char (cell_idx (ytop + height - 1) (left + width - 1)) CHR ''+'' s5)"

definition draw_input_field ::
  "int \<Rightarrow> int \<Rightarrow> int \<Rightarrow> 'a console_state_scheme \<Rightarrow> 'a console_state_scheme" where
  "draw_input_field row col width s =
     for_loop 0 width (\<lambda>i s.
       set_cell (cell_idx row (col + i)) CHR ''_'' (vga_color s) s) s"

subsection \<open>Serial port and log\<close>

definition serial_init :: "'a io_state_scheme \<Rightarrow> 'a io_state_scheme" where
  "serial_init s =
     outb (0x3F8 + 4) 0x0B (outb (0x3F8 + 2) 0xC7 (outb (0x3F8 + 3) 0x03
       (outb (0x3F8 + 1) 0x00 (outb (0x3F8 + 0) 0x01 (outb (0x3F8 + 3) 0x80
         (outb (0x3F8 + 1) 0x00 s))))))"

text \<open>Waiting for the transmitter may never end; then the result is \<^const>\<open>None\<close>.\<close>

partial_function (option) serial_wait ::
  "device \<Rightarrow> 'a io_state_scheme \<Rightarrow> 'a io_state_scheme option" where
  "serial_wait dev s =
     (let r = inb dev 0x3FD s
      in if fst r AND 0x20 = 0 then serial_wait dev (snd r) else Some (snd r))"

definition serial_write :: "device \<Rightarrow> char \<Rightarrow> 'a io_state_scheme \<Rightarrow> 'a io_state_scheme option" where
  "serial_write dev c s = do {
     s1 \<leftarrow> serial_wait dev s;
     Some (outb 0x3F8 (of_char c) s1)
   }"

fun print_serial :: "device \<Rightarrow> string \<Rightarrow> 'a io_state_scheme \<Rightarrow> 'a io_state_scheme option" where
  "print_serial dev [] s = Some s"
| "print_serial dev (c # cs) s =
     (if c \<noteq> NUL then Option.bind (serial_write dev c s) (print_serial dev cs) else Some s)"

text \<open>The part of \<open>log_info\<close> that writes the bottom row of the screen.\<close>

definition log_screen :: "string \<Rightarrow> 'a console_state_scheme \<Rightarrow> 'a console_state_scheme" where
  "log_screen msg s =
     (let row = VGA_ROWS - 1;
          s1 = for_loop 0 VGA_COLS (\<lambda>col. set_cell (cell_idx row col) CHR '' '' 0x07) s;
          s2 = vga_write_at row 0 ''[INFO] '' s1
      in vga_write_at row 7 msg s2)"

definition log_info ::
  "device \<Rightarrow> string \<Rightarrow> 'a console_state_scheme \<Rightarrow> 'a console_state_scheme option" where
  "log_info dev msg s = do {
     s1 \<leftarrow> print_serial dev ''[INFO] '' s;
     s2 \<leftarrow> print_serial dev msg s1;
     s3 \<leftarrow> print_serial dev [NEWLINE] s2;
     Some (log_screen msg s3)
   }"

subsection \<open>Loops and the screen\<close>

lemma for_loop_step:
  "for_loop a b f s = (if a < b then for_loop (a + 1) b f (f a s) else s)"
  by (simp add: for_loop_def upto.simps [of a])

lemma for_loop_inv:
  assumes "\<And>i s. a \<le> i \<Longrightarrow> i < b \<Longrightarrow> P s \<Longrightarrow> P (f i s)" and "P s"
  shows "P (for_loop a b f s)"
proof -
  have "P (fold f xs s)" if "set xs \<subseteq> {a..b - 1}" for xs
    using that assms(2) by (induction xs arbitrary: s) (auto intro: assms(1))
  then show ?thesis by (simp add: for_loop_def)
qed

text \<open>
  \<open>screen_only s s'\<close>: only the cursor and the 4000 bytes of the visible screen differ.
\<close>

definition screen_only :: "'a console_state_scheme \<Rightarrow> 'a console_state_scheme \<Rightarrow> bool" where
  "screen_only s s' \<longleftrightarrow>
     (\<exists>m r c. s' = s\<lparr>vga_mem := m, vga_row := r, vga_col := c\<rparr> \<and>
        (\<forall>i. i < 0 \<or> 4000 \<le> i \<longrightarrow> m i = vga_mem s i))"

definition cursor_ok :: "'a console_state_scheme \<Rightarrow> bool" where
  "cursor_ok s \<longleftrightarrow> 0 \<le> vga_row s \<and> vga_row s < VGA_ROWS \<and> 0 \<le> vga_col s \<and> vga_col s < VGA_COLS"

lemma screen_onlyI [intro]:
  "s' = s\<lparr>vga_mem := m, vga_row := r, vga_col := c\<rparr> \<Longrightarrow>
   (\<And>i. i < 0 \<or> 4000 \<le> i \<Longrightarrow> m i = vga_mem s i) \<Longrightarrow> screen_only s s'"
  unfolding screen_only_def by blast

lemma screen_only_refl [simp, intro]: "screen_only s s"
  by (rule screen_onlyI [where m = "vga_mem s" and r = "vga_row s" and c = "vga_col s"]) simp_all

lemma screen_only_trans [trans]:
  "screen_only s s' \<Longrightarrow> screen_only s' s'' \<Longrightarrow> screen_only s s''"
  by (fastforce simp: screen_only_def)

lemma screen_only_cursor [simp, intro]:
  "screen_only s (s\<lparr>vga_row := r, vga_col := c\<rparr>)" "screen_only s (s\<lparr>vga_col := c\<rparr>)"
  by (rule screen_onlyI [where m = "vga_mem s" and r = r and c = c], simp_all)
    (rule screen_onlyI [where m = "vga_mem s" and r = "vga_row s" and c = c], simp_all)

lemma screen_only_set_cell:
  "0 \<le> idx \<Longrightarrow> idx + 1 < 4000 \<Longrightarrow> screen_only s (set_cell idx c attr s)"
  by (rule screen_onlyI [where m = "(vga_mem s)(idx := of_char c, idx + 1 := attr)"
        and r = "vga_row s" and c = "vga_col s"]) (auto simp: set_cell_def)

lemma screen_only_set_char:
  "0 \<le> idx \<Longrightarrow> idx < 4000 \<Longrightarrow> screen_only s (set_char idx c s)"
  by (rule screen_onlyI [where m = "(vga_mem s)(idx := of_char c)"
        and r = "vga_row s" and c = "vga_col s"]) (auto simp: set_char_def)

lemma set_cell_frame [simp]:
  "vga_row (set_cell i c a s) = vga_row s" "vga_col (set_cell i c a s) = vga_col s"
  "vga_color (set_cell i c a s) = vga_color s" "cursor_ok (set_cell i c a s) = cursor_ok s"
  by (simp_all add: set_cell_def cursor_ok_def)

lemma cell_offset_bounds:
  assumes "0 \<le> row" "row < VGA_ROWS" "0 \<le> col" "col < VGA_COLS"
  shows "0 \<le> cell_idx row col" "cell_idx row col + 1 < 4000"
  using assms by (simp_all add: cell_idx_def c_consts)

lemma vga_put_char_ok:
  assumes "cursor_ok s"
  shows "cursor_ok (vga_put_char c s) \<and> screen_only s (vga_put_char c s)"
proof -
  have cell: "screen_only s (set_cell (cell_idx (vga_row s) (vga_col s)) d a s)" for d a
    using assms by (intro screen_only_set_cell cell_offset_bounds) (auto simp: cursor_ok_def)
  have prev: "screen_only s (set_cell (cell_idx (vga_row s) (vga_col s - 1)) d a
      (s\<lparr>vga_col := vga_col s - 1\<rparr>))" if "vga_col s > 0" for d a
  proof (rule screen_only_trans)
    show "screen_only s (s\<lparr>vga_col := vga_col s - 1\<rparr>)" by simp
    show "screen_only (s\<lparr>vga_col := vga_col s - 1\<rparr>)
        (set_cell (cell_idx (vga_row s) (vga_col s - 1)) d a (s\<lparr>vga_col := vga_col s - 1\<rparr>))"
      using assms that
      by (intro screen_only_set_cell cell_offset_bounds) (auto simp: cursor_ok_def)
  qed
  have rowcol: "screen_only t (t\<lparr>vga_col := x, vga_row := y\<rparr>)" for t :: "'a console_state_scheme" and x y
    by (rule screen_onlyI [where m = "vga_mem t" and r = y and c = x]) simp_all
  have "screen_only s (vga_put_char c s)"
    unfolding vga_put_char_def Let_def
    by (auto intro: prev rowcol screen_only_trans [OF cell screen_only_cursor(2)]
        screen_only_trans [OF cell rowcol])
  moreover have "cursor_ok (vga_put_char c s)"
    using assms by (auto simp: vga_put_char_def Let_def cursor_ok_def c_consts)
  ultimately show ?thesis by simp
qed

lemma print_vga_ok:
  "cursor_ok s \<Longrightarrow> cursor_ok (print_vga cs s) \<and> screen_only s (print_vga cs s)"
proof (induction cs arbitrary: s)
  case Nil
  then show ?case by simp
next
  case (Cons c cs)
  then show ?case using vga_put_char_ok [of s c] Cons.IH [of "vga_put_char c s"]
    by (auto intro: screen_only_trans)
qed

lemma vga_set_cursor_ok: "cursor_ok (vga_set_cursor row col s)" "screen_only s (vga_set_cursor row col s)"
  by (auto simp: vga_set_cursor_def Let_def cursor_ok_def c_consts)

lemma vga_write_at_ok:
  "cursor_ok (vga_write_at row col cs s) \<and> screen_only s (vga_write_at row col cs s)"
  using print_vga_ok [OF vga_set_cursor_ok(1) [of row col s], of cs] vga_set_cursor_ok(2) [of s row col]
  by (auto simp: vga_write_at_def intro: screen_only_trans)

lemma vga_write_centered_ok:
  "cursor_ok (vga_write_centered row cs s) \<and> screen_only s (vga_write_centered row cs s)"
  by (auto simp: vga_write_centered_def Let_def vga_write_at_ok)

subsection \<open>Plain text\<close>

text \<open>Characters that are shown as they are: not NUL, newline or backspace.\<close>

definition plain :: "char \<Rightarrow> bool" where
  "plain c \<longleftrightarrow> c \<noteq> NUL \<and> c \<noteq> NEWLINE \<and> c \<noteq> BACKSPACE"

text \<open>
  \<open>shows_at m pos cs attr\<close>: the text \<open>cs\<close> stands in consecutive cells from cell \<open>pos\<close> on.
\<close>

definition shows_at :: "(int \<Rightarrow> u8) \<Rightarrow> int \<Rightarrow> string \<Rightarrow> u8 \<Rightarrow> bool" where
  "shows_at m pos cs attr \<longleftrightarrow>
     (\<forall>i < length cs. m ((pos + int i) * 2) = of_char (cs ! i) \<and> m ((pos + int i) * 2 + 1) = attr)"

lemma shows_at_Nil [simp]: "shows_at m pos [] attr"
  by (simp add: shows_at_def)

lemma shows_at_Cons:
  "shows_at m pos (c # cs) attr \<longleftrightarrow>
     m (pos * 2) = of_char c \<and> m (pos * 2 + 1) = attr \<and> shows_at m (pos + 1) cs attr"
  by (auto simp: shows_at_def less_Suc_eq_0_disj add.assoc)

lemma shows_at_append:
  "shows_at m pos (xs @ ys) attr \<longleftrightarrow>
     shows_at m pos xs attr \<and> shows_at m (pos + int (length xs)) ys attr"
  by (induction xs arbitrary: pos) (auto simp: shows_at_Cons add.assoc)

lemma shows_at_cong:
  "shows_at m pos cs attr \<Longrightarrow>
   (\<And>j. pos * 2 \<le> j \<Longrightarrow> j < (pos + int (length cs)) * 2 \<Longrightarrow> m' j = m j) \<Longrightarrow>
   shows_at m' pos cs attr"
  by (auto simp: shows_at_def)

lemma vga_put_char_plain:
  assumes "plain c" and "vga_col s < VGA_COLS"
  shows "vga_mem (vga_put_char c s) =
           (vga_mem s)(cell_idx (vga_row s) (vga_col s) := of_char c,
                       cell_idx (vga_row s) (vga_col s) + 1 := vga_color s)"
    and "vga_color (vga_put_char c s) = vga_color s"
    and "vga_col s + 1 < VGA_COLS \<Longrightarrow> vga_row (vga_put_char c s) = vga_row s \<and>
           vga_col (vga_put_char c s) = vga_col s + 1"
  using assms by (auto simp: vga_put_char_def plain_def Let_def set_cell_def)

lemma print_vga_plain:
  assumes "\<forall>c \<in> set cs. plain c" and "0 \<le> vga_col s" and "vga_col s + int (length cs) \<le> VGA_COLS"
    and "p = vga_row s * VGA_COLS + vga_col s"
  shows "shows_at (vga_mem (print_vga cs s)) p cs (vga_color s) \<and>
         (\<forall>j. \<not> (p * 2 \<le> j \<and> j < (p + int (length cs)) * 2) \<longrightarrow>
              vga_mem (print_vga cs s) j = vga_mem s j)"
  using assms
proof (induction cs arbitrary: s p)
  case Nil
  then show ?case by simp
next
  case (Cons c cs)
  let ?t = "vga_put_char c s"
  from Cons.prems have c: "plain c" "vga_col s < VGA_COLS" by auto
  note put = vga_put_char_plain [OF c]
  have mem: "vga_mem ?t = (vga_mem s)(p * 2 := of_char c, p * 2 + 1 := vga_color s)"
    using put(1) Cons.prems(4) by (simp add: cell_idx_def)
  have pr: "print_vga (c # cs) s = print_vga cs ?t" using c by (simp add: plain_def)
  show ?case
  proof (cases cs)
    case Nil
    then show ?thesis unfolding pr by (auto simp: mem shows_at_Cons)
  next
    case (Cons d ds)
    with Cons.prems have "vga_col s + 1 < VGA_COLS" by simp
    note pos = put(3) [OF this]
    have "shows_at (vga_mem (print_vga cs ?t)) (p + 1) cs (vga_color ?t) \<and>
        (\<forall>j. \<not> ((p + 1) * 2 \<le> j \<and> j < (p + 1 + int (length cs)) * 2) \<longrightarrow>
           vga_mem (print_vga cs ?t) j = vga_mem ?t j)"
      using Cons.prems pos by (intro Cons.IH) auto
    then show ?thesis unfolding pr put(2) by (auto simp: shows_at_Cons mem)
  qed
qed

lemma vga_write_at_plain:
  assumes "\<forall>c \<in> set cs. plain c" and "0 \<le> row" "row < VGA_ROWS"
    and "0 \<le> col" "col < VGA_COLS" "col + int (length cs) \<le> VGA_COLS"
  shows "shows_at (vga_mem (vga_write_at row col cs s)) (row * VGA_COLS + col) cs (vga_color s) \<and>
         (\<forall>j. \<not> ((row * VGA_COLS + col) * 2 \<le> j \<and> j < (row * VGA_COLS + col + int (length cs)) * 2) \<longrightarrow>
            vga_mem (vga_write_at row col cs s) j = vga_mem s j)"
proof -
  have cur: "vga_set_cursor row col s = s\<lparr>vga_row := row, vga_col := col\<rparr>"
    using assms by (auto simp: vga_set_cursor_def Let_def)
  from print_vga_plain [OF assms(1), of "s\<lparr>vga_row := row, vga_col := col\<rparr>" "row * VGA_COLS + col"] assms
  show ?thesis unfolding vga_write_at_def cur by simp
qed

lemma screen_only_color: "screen_only s s' \<Longrightarrow> vga_color s' = vga_color s"
  by (auto simp: screen_only_def)

subsection \<open>Decimal digits\<close>

definition decimal_digits :: "char set" where
  "decimal_digits = set ''0123456789''"

definition decimal_value :: "string \<Rightarrow> nat" where
  "decimal_value cs = foldl (\<lambda>n c. n * 10 + (of_char c - 48)) 0 cs"

lemma digit_code: "unat (48 + (v :: u32) mod 10) = 48 + unat v mod 10"
  by (subst unat_add_no_wrap) (simp_all add: unat_mod_u32)

lemma of_char_digit: "(of_char (char_of (48 + unat v mod 10 :: nat)) :: nat) = 48 + unat (v :: u32) mod 10"
proof -
  have "(48 + unat v mod 10) mod 256 = 48 + unat v mod 10" by (rule mod_less) simp
  then show ?thesis by (simp add: of_char_of)
qed

lemma digit_char: "d < 10 \<Longrightarrow> char_of (48 + d :: nat) \<in> decimal_digits"
proof -
  have "\<forall>d \<in> {0..<10::nat}. char_of (48 + d) \<in> set ''0123456789''" by code_simp
  moreover assume "d < 10"
  ultimately show ?thesis unfolding decimal_digits_def by auto
qed

lemma uitoa_tmp_length: "10 ^ length (uitoa_tmp v) \<le> max 1 (10 * unat v)"
proof (induction v rule: uitoa_tmp.induct)
  case (1 v)
  show ?case
  proof (cases "v > 0")
    case False
    then have "v = 0" by (simp add: word_gt_0)
    then show ?thesis by (simp add: uitoa_tmp.simps [of 0])
  next
    case True
    then have pos: "0 < unat v" by (simp add: unat_gt_0)
    have len: "length (uitoa_tmp v) = Suc (length (uitoa_tmp (v div 10)))"
      using True by (subst uitoa_tmp.simps) simp
    show ?thesis
    proof (cases "unat v < 10")
      case small: True
      then have "unat (v div 10) = 0" by (simp add: unat_div_u32)
      then have "v div 10 = 0" by (simp add: unat_eq_zero)
      with len pos show ?thesis by (simp add: uitoa_tmp.simps [of 0])
    next
      case False
      then have "1 \<le> 10 * (unat v div 10)" "10 * (unat v div 10) \<le> unat v" by linarith+
      with "1.IH" [OF True] show ?thesis unfolding len by (simp add: unat_div_u32)
    qed
  qed
qed

lemma uitoa_tmp_value:
  "decimal_value (rev (uitoa_tmp v)) = unat v \<and> set (uitoa_tmp v) \<subseteq> decimal_digits"
proof (induction v rule: uitoa_tmp.induct)
  case (1 v)
  show ?case
  proof (cases "v > 0")
    case False
    then have "v = 0" by (simp add: word_gt_0)
    then show ?thesis by (simp add: uitoa_tmp.simps [of 0] decimal_value_def)
  next
    case True
    have step: "uitoa_tmp v = char_of (48 + unat v mod 10) # uitoa_tmp (v div 10)"
      using True by (subst uitoa_tmp.simps) (simp add: digit_code)
    have "char_of (48 + unat v mod 10) \<in> decimal_digits" by (rule digit_char) simp
    then show ?thesis
      using "1.IH" [OF True] unfolding step decimal_value_def
      by (simp add: of_char_digit unat_div_u32)
  qed
qed

lemma digits_plain: "c \<in> decimal_digits \<Longrightarrow> plain c"
  by (auto simp: plain_def decimal_digits_def)

subsection \<open>The serial line\<close>

text \<open>
  A UART whose transmit register is always ready again: documented behaviour of the 16550,
  whose line status bit 5 is set when the holding register is empty. \<open>serial_sent\<close> are the
  bytes written to the data port, oldest first.
\<close>

definition uart_ready :: "device \<Rightarrow> bool" where
  "uart_ready dev \<longleftrightarrow> (\<forall>h. (ucast (dev h 0x3FD) :: u8) AND 0x20 \<noteq> 0)"

fun serial_sent :: "io_event list \<Rightarrow> u8 list" where
  "serial_sent [] = []"
| "serial_sent (e # es) = serial_sent es @ (case e of Outb p v \<Rightarrow> if p = 0x3F8 then [v] else [] | _ \<Rightarrow> [])"

text \<open>Only the port history differs.\<close>

definition io_only :: "'a io_state_scheme \<Rightarrow> 'a io_state_scheme \<Rightarrow> bool" where
  "io_only s s' \<longleftrightarrow> (\<exists>h. s' = s\<lparr>io_log := h\<rparr>)"

lemma io_only_refl [simp, intro]: "io_only s s"
  unfolding io_only_def by (rule exI [of _ "io_log s"]) simp

lemma io_only_trans [trans]: "io_only s s' \<Longrightarrow> io_only s' s'' \<Longrightarrow> io_only s s''"
  by (auto simp: io_only_def)

lemma serial_write_ready:
  assumes "uart_ready dev"
  shows "\<exists>s'. serial_write dev c s = Some s' \<and> io_only s s' \<and>
           serial_sent (io_log s') = serial_sent (io_log s) @ [of_char c]"
proof -
  have "serial_wait dev s = Some (snd (inb dev 0x3FD s))"
    using assms by (subst serial_wait.simps) (simp add: inb_def Let_def uart_ready_def)
  then show ?thesis
    by (auto simp: serial_write_def outb_def inb_def Let_def io_only_def)
qed

lemma print_serial_ready:
  assumes "uart_ready dev"
  shows "\<exists>s'. print_serial dev cs s = Some s' \<and> io_only s s' \<and>
           serial_sent (io_log s') = serial_sent (io_log s) @ map of_char (takeWhile (\<lambda>c. c \<noteq> NUL) cs)"
proof (induction cs arbitrary: s)
  case Nil
  then show ?case by simp
next
  case (Cons c cs)
  obtain s1 where "serial_write dev c s = Some s1" "io_only s s1"
    "serial_sent (io_log s1) = serial_sent (io_log s) @ [of_char c]"
    using serial_write_ready [OF assms] by blast
  with Cons [of s1] show ?case by (auto intro: io_only_trans)
qed

lemma kstrlen_length: "kstrlen cs = int (length (takeWhile (\<lambda>c. c \<noteq> NUL) cs))"
  by (induction cs) auto

lemma takeWhile_plain: "\<forall>c \<in> set cs. plain c \<Longrightarrow> takeWhile (\<lambda>c. c \<noteq> NUL) cs = cs"
  by (induction cs) (auto simp: plain_def)

lemma log_info_serial:
  assumes "uart_ready dev"
  shows "\<exists>s3. log_info dev msg s = Some (log_screen msg s3) \<and> io_only s s3 \<and>
           serial_sent (io_log s3) = serial_sent (io_log s) @
             map of_char (''[INFO] '' @ takeWhile (\<lambda>c. c \<noteq> NUL) msg @ [NEWLINE])"
proof -
  obtain s1 where s1: "print_serial dev ''[INFO] '' s = Some s1" "io_only s s1"
    "serial_sent (io_log s1) = serial_sent (io_log s) @ map of_char ''[INFO] ''"
    using print_serial_ready [OF assms, of "''[INFO] ''" s] by auto
  obtain s2 where s2: "print_serial dev msg s1 = Some s2" "io_only s1 s2"
    "serial_sent (io_log s2) = serial_sent (io_log s1) @ map of_char (takeWhile (\<lambda>c. c \<noteq> NUL) msg)"
    using print_serial_ready [OF assms] by blast
  obtain s3 where s3: "print_serial dev [NEWLINE] s2 = Some s3" "io_only s2 s3"
    "serial_sent (io_log s3) = serial_sent (io_log s2) @ map of_char [NEWLINE]"
    using print_serial_ready [OF assms, of "[NEWLINE]" s2] by auto
  have "log_info dev msg s = Some (log_screen msg s3)"
    using s1(1) s2(1) s3(1) by (simp add: log_info_def del: print_serial.simps)
  moreover have "io_only s s3" using s1(2) s2(2) s3(2) by (blast intro: io_only_trans)
  ultimately show ?thesis using s1(3) s2(3) s3(3) by auto
qed

lemma log_screen_ok: "cursor_ok (log_screen msg s) \<and> screen_only s (log_screen msg s)"
proof -
  let ?c = "for_loop 0 VGA_COLS (\<lambda>col. set_cell (cell_idx (VGA_ROWS - 1) col) CHR '' '' 0x07) s"
  have "screen_only s ?c"
    by (rule for_loop_inv [where P = "screen_only s"])
      (auto intro!: screen_only_trans [OF _ screen_only_set_cell] cell_offset_bounds simp: c_consts)
  then show ?thesis
    unfolding log_screen_def Let_def using vga_write_at_ok by (blast intro: screen_only_trans)
qed

lemma for_loop_color:
  "vga_color (for_loop a b (\<lambda>col. set_cell (f col) c d) s) = vga_color s"
  by (rule for_loop_inv [where P = "\<lambda>t. vga_color t = vga_color s"]) simp_all

lemma log_screen_shows:
  assumes "\<forall>c \<in> set msg. plain c" "length msg \<le> 73"
  shows "shows_at (vga_mem (log_screen msg s)) (24 * 80) (''[INFO] '' @ msg) (vga_color s)"
proof -
  define s1 where "s1 = for_loop 0 VGA_COLS (\<lambda>col. set_cell (cell_idx (VGA_ROWS - 1) col) CHR '' '' 0x07) s"
  define s2 where "s2 = vga_write_at (VGA_ROWS - 1) 0 ''[INFO] '' s1"
  have out: "log_screen msg s = vga_write_at (VGA_ROWS - 1) 7 msg s2"
    by (simp add: log_screen_def Let_def s1_def s2_def)
  have col: "vga_color s1 = vga_color s" "vga_color s2 = vga_color s"
    using vga_write_at_ok [of "VGA_ROWS - 1" 0 "''[INFO] ''" s1]
    by (auto simp: s1_def s2_def for_loop_color dest!: screen_only_color)
  have "\<forall>c \<in> set ''[INFO] ''. plain c" by (simp add: plain_def)
  from vga_write_at_plain [OF this, of 24 0 s1] col
  have "shows_at (vga_mem s2) (24 * 80) ''[INFO] '' (vga_color s)"
    by (simp add: s2_def c_consts)
  moreover have "shows_at (vga_mem (log_screen msg s)) (24 * 80 + 7) msg (vga_color s)"
    "\<And>j. j < (24 * 80 + 7) * 2 \<Longrightarrow> vga_mem (log_screen msg s) j = vga_mem s2 j"
    using vga_write_at_plain [OF assms(1), of 24 7 s2] assms(2) col by (simp_all add: out c_consts)
  ultimately show ?thesis
    unfolding shows_at_append by (auto intro: shows_at_cong)
qed

text \<open>\<open>log_only s s'\<close>: only the device history, the cursor and the visible screen differ.\<close>

definition log_only :: "'a console_state_scheme \<Rightarrow> 'a console_state_scheme \<Rightarrow> bool" where
  "log_only s s' \<longleftrightarrow> (\<exists>h. screen_only (s\<lparr>io_log := h\<rparr>) s')"

lemma log_only_refl [simp, intro]: "log_only s s"
  unfolding log_only_def by (rule exI [of _ "io_log s"]) simp

lemma log_only_trans [trans]: "log_only s s' \<Longrightarrow> log_only s' s'' \<Longrightarrow> log_only s s''"
  by (fastforce simp: log_only_def screen_only_def)

lemma log_info_done:
  assumes "uart_ready dev"
  shows "\<exists>s'. log_info dev msg s = Some s' \<and>
     serial_sent (io_log s') = serial_sent (io_log s) @
       map of_char (''[INFO] '' @ takeWhile (\<lambda>c. c \<noteq> NUL) msg @ [NEWLINE]) \<and>
     cursor_ok s' \<and> screen_only (s\<lparr>io_log := io_log s'\<rparr>) s' \<and>
     ((\<forall>c \<in> set msg. plain c) \<and> length msg \<le> 73 \<longrightarrow>
        shows_at (vga_mem s') (24 * 80) (''[INFO] '' @ msg) (vga_color s))"
proof -
  obtain s3 where s3: "log_info dev msg s = Some (log_screen msg s3)" "io_only s s3"
    "serial_sent (io_log s3) = serial_sent (io_log s) @
       map of_char (''[INFO] '' @ takeWhile (\<lambda>c. c \<noteq> NUL) msg @ [NEWLINE])"
    using log_info_serial [OF assms] by blast
  note scr = log_screen_ok [of msg s3]
  have log: "io_log (log_screen msg s3) = io_log s3" using scr by (auto simp: screen_only_def)
  have "s3 = s\<lparr>io_log := io_log s3\<rparr>" "vga_color s3 = vga_color s"
    using s3(2) by (auto simp: io_only_def)
  then show ?thesis using s3 scr log log_screen_shows [of msg s3] by auto
qed

subsection \<open>Properties of the console\<close>

definition demo_console :: console_state where
  "demo_console = \<lparr>io_log = [], if_flag = False, vga_mem = \<lambda>_. 0, vga_row = 0, vga_col = 0,
     vga_color = 0x0F\<rparr>"



text \<open>
  C24: \<open>vga_write_centered\<close> shows a text of at most 80 plain characters in the middle of its
  row, in the current colour, and changes no other cell of the screen.
\<close>

theorem vga_write_centered_shows:
  assumes "\<forall>c \<in> set str. plain c" and "0 \<le> row" "row < VGA_ROWS" and "length str \<le> 80" "str \<noteq> []"
  defines "p \<equiv> row * VGA_COLS + (80 - int (length str)) div 2"
  shows "shows_at (vga_mem (vga_write_centered row str s)) p str (vga_color s) \<and>
         (\<forall>j. \<not> (p * 2 \<le> j \<and> j < (p + int (length str)) * 2) \<longrightarrow>
            vga_mem (vga_write_centered row str s) j = vga_mem s j)"
proof -
  have len: "kstrlen str = int (length str)"
    by (simp add: kstrlen_length takeWhile_plain [OF assms(1)])
  have col: "0 \<le> (80 - int (length str)) div 2" "(80 - int (length str)) div 2 < VGA_COLS"
      "(80 - int (length str)) div 2 + int (length str) \<le> VGA_COLS"
    using assms(4,5) by (auto simp: c_consts)
  have "vga_write_centered row str s = vga_write_at row ((80 - int (length str)) div 2) str s"
    using assms(4) col(1) by (simp add: vga_write_centered_def Let_def len c_half_def c_consts)
  with vga_write_at_plain [OF assms(1-3) col, of s] show ?thesis by (simp add: p_def)
qed

theorem vga_write_centered_shows_witness:
  "shows_at (vga_mem (vga_write_centered 8 ''FlowOS'' demo_console)) 677 ''FlowOS'' 0x0F"
proof -
  have "\<forall>c \<in> set ''FlowOS''. plain c" by (simp add: plain_def)
  from vga_write_centered_shows [OF this, of 8 demo_console] show ?thesis
    by (simp add: c_consts demo_console_def)
qed

text \<open>
  C39: \<open>uitoa\<close> writes the decimal representation of its argument: only digits, whose value is
  the argument, no leading zero, and at most ten of them, so that the array \<open>tmp\<close> of ten
  characters is large enough.
\<close>

theorem uitoa_decimal:
  "set (uitoa v) \<subseteq> set ''0123456789'' \<and> decimal_value (uitoa v) = unat v \<and>
   1 \<le> length (uitoa v) \<and> length (uitoa v) \<le> 10 \<and>
   10 ^ (length (uitoa v) - 1) \<le> max 1 (unat v)"
proof (cases "v = 0")
  case True
  then show ?thesis by (simp add: uitoa_def decimal_value_def)
next
  case False
  then have pos: "0 < unat v" by (simp add: unat_gt_0)
  have ne: "uitoa_tmp v \<noteq> []" using False by (subst uitoa_tmp.simps) (simp add: word_gt_0)
  from uitoa_tmp_length [of v] pos have pow: "10 ^ length (uitoa_tmp v) \<le> 10 * unat v" by simp
  also have "\<dots> < 10 ^ 11" using unat_lt_u32 [of v] by simp
  finally have "length (uitoa_tmp v) < 11" by (rule power_less_imp_less_exp [rotated]) simp
  moreover have "10 ^ (length (uitoa_tmp v) - 1) \<le> unat v"
    using pow ne by (cases "length (uitoa_tmp v)") auto
  ultimately show ?thesis
    using False ne uitoa_tmp_value [of v] by (simp add: uitoa_def decimal_digits_def Suc_le_eq)
qed

text \<open>
  C38: \<open>log_info\<close> returns when the serial transmitter is ready, sends \<open>[INFO] \<close>, the message
  and a newline over the serial line in that order, keeps the cursor and all writes on the
  screen, and shows a plain message of at most 73 characters on the bottom row after the tag.
\<close>

theorem log_info_effect:
  assumes "uart_ready dev"
  shows "\<exists>s'. log_info dev msg s = Some s' \<and>
     serial_sent (io_log s') = serial_sent (io_log s) @
       map of_char (''[INFO] '' @ takeWhile (\<lambda>c. c \<noteq> NUL) msg @ [NEWLINE]) \<and>
     cursor_ok s' \<and> screen_only (s\<lparr>io_log := io_log s'\<rparr>) s' \<and>
     ((\<forall>c \<in> set msg. plain c) \<and> length msg \<le> 73 \<longrightarrow>
        shows_at (vga_mem s') (24 * 80) (''[INFO] '' @ msg) (vga_color s))"
  by (rule log_info_done [OF assms])

theorem log_info_effect_witness:
  "uart_ready (\<lambda>_ _. 0x20) \<and>
   (\<exists>s'. log_info (\<lambda>_ _. 0x20) ''Heap OOM'' demo_console = Some s' \<and>
      shows_at (vga_mem s') (24 * 80) ''[INFO] Heap OOM'' 0x0F)"
proof -
  have u: "uart_ready (\<lambda>_ _. 0x20)" by (simp add: uart_ready_def)
  from log_info_effect [OF u, of "''Heap OOM''" demo_console] u show ?thesis
    by (auto simp: plain_def demo_console_def)
qed

end
