(* ===== verification/Pic.thy ===== *)
theory Pic
  imports Console
begin

text \<open>
  Programmable interrupt controllers (\<^verbatim>\<open>src/src/pic.c\<close>, \<^verbatim>\<open>src/src/pic.h\<close>). The driver only
  talks to the two chips through ports. What the chips make of the port writes is the
  initialisation protocol of the 8259A data sheet, stated below as a function of the history.
\<close>

subsection \<open>The driver\<close>

definition PIC1_COMMAND :: u16 where [c_consts]: "PIC1_COMMAND = 0x20"
definition PIC1_DATA :: u16 where [c_consts]: "PIC1_DATA = 0x21"
definition PIC2_COMMAND :: u16 where [c_consts]: "PIC2_COMMAND = 0xA0"
definition PIC2_DATA :: u16 where [c_consts]: "PIC2_DATA = 0xA1"
definition PIC_EOI :: u8 where [c_consts]: "PIC_EOI = 0x20"
definition ICW1_ICW4 :: u8 where [c_consts]: "ICW1_ICW4 = 0x01"
definition ICW1_INIT :: u8 where [c_consts]: "ICW1_INIT = 0x10"
definition ICW4_8086 :: u8 where [c_consts]: "ICW4_8086 = 0x01"
definition IRQ_TIMER :: u8 where [c_consts]: "IRQ_TIMER = 0"
definition IRQ_KEYBOARD :: u8 where [c_consts]: "IRQ_KEYBOARD = 1"

definition pic_remap :: "device \<Rightarrow> int \<Rightarrow> int \<Rightarrow> 'a io_state_scheme \<Rightarrow> 'a io_state_scheme" where
  "pic_remap dev offset1 offset2 s =
     (let (a1, s) = inb dev PIC1_DATA s;
          (a2, s) = inb dev PIC2_DATA s;
          s = io_wait (outb PIC1_COMMAND (ICW1_INIT OR ICW1_ICW4) s);
          s = io_wait (outb PIC2_COMMAND (ICW1_INIT OR ICW1_ICW4) s);
          s = io_wait (outb PIC1_DATA (word_of_int offset1) s);
          s = io_wait (outb PIC2_DATA (word_of_int offset2) s);
          s = io_wait (outb PIC1_DATA 4 s);
          s = io_wait (outb PIC2_DATA 2 s);
          s = io_wait (outb PIC1_DATA ICW4_8086 s);
          s = io_wait (outb PIC2_DATA ICW4_8086 s);
          s = outb PIC1_DATA a1 s
      in outb PIC2_DATA a2 s)"

definition pic_send_eoi :: "u8 \<Rightarrow> 'a io_state_scheme \<Rightarrow> 'a io_state_scheme" where
  "pic_send_eoi irq s =
     (let s = (if irq \<ge> 8 then outb PIC2_COMMAND PIC_EOI s else s)
      in outb PIC1_COMMAND PIC_EOI s)"

definition pic_set_mask :: "device \<Rightarrow> u8 \<Rightarrow> 'a io_state_scheme \<Rightarrow> 'a io_state_scheme" where
  "pic_set_mask dev irq s =
     (let (port, irq) = (if irq < 8 then (PIC1_DATA, irq) else (PIC2_DATA, irq - 8));
          (v, s) = inb dev port s
      in outb port (v OR push_bit (unat irq) 1) s)"

definition pic_clear_mask :: "device \<Rightarrow> u8 \<Rightarrow> 'a io_state_scheme \<Rightarrow> 'a io_state_scheme" where
  "pic_clear_mask dev irq s =
     (let (port, irq) = (if irq < 8 then (PIC1_DATA, irq) else (PIC2_DATA, irq - 8));
          (v, s) = inb dev port s
      in outb port (v AND NOT (push_bit (unat irq) 1)) s)"

subsection \<open>The chips\<close>

text \<open>
  One 8259A: a write to the command port with bit 4 set starts initialisation; the following
  three writes to the data port are the vector offset, the cascade wiring and the mode; every
  other write to the data port is the interrupt mask. \<open>eois\<close> counts end-of-interrupt commands.
\<close>

record pic_chip =
  icw_next :: nat
  vector :: u8
  cascade :: u8
  mode :: u8
  imr :: u8
  eois :: nat

definition chip_reset :: pic_chip where
  "chip_reset = \<lparr>icw_next = 0, vector = 0, cascade = 0, mode = 0, imr = 0xFF, eois = 0\<rparr>"

definition chip_command :: "u8 \<Rightarrow> pic_chip \<Rightarrow> pic_chip" where
  "chip_command v c =
     (if bit v 4 then c\<lparr>icw_next := 2, imr := 0\<rparr>
      else if bit v 5 then c\<lparr>eois := eois c + 1\<rparr> else c)"

definition chip_data :: "u8 \<Rightarrow> pic_chip \<Rightarrow> pic_chip" where
  "chip_data v c =
     (if icw_next c = 2 then c\<lparr>icw_next := 3, vector := v\<rparr>
      else if icw_next c = 3 then c\<lparr>icw_next := 4, cascade := v\<rparr>
      else if icw_next c = 4 then c\<lparr>icw_next := 0, mode := v\<rparr>
      else c\<lparr>imr := v\<rparr>)"

fun chip_of :: "u16 \<Rightarrow> u16 \<Rightarrow> io_event list \<Rightarrow> pic_chip" where
  "chip_of cmd dat [] = chip_reset"
| "chip_of cmd dat (e # es) =
     (case e of
        Outb p v \<Rightarrow>
          if p = cmd then chip_command v (chip_of cmd dat es)
          else if p = dat then chip_data v (chip_of cmd dat es)
          else chip_of cmd dat es
      | _ \<Rightarrow> chip_of cmd dat es)"

definition master :: "io_event list \<Rightarrow> pic_chip" where
  "master h = chip_of PIC1_COMMAND PIC1_DATA h"

definition slave :: "io_event list \<Rightarrow> pic_chip" where
  "slave h = chip_of PIC2_COMMAND PIC2_DATA h"

text \<open>Reading the data port of a chip gives its mask.\<close>

definition pic_reads_mask :: "device \<Rightarrow> bool" where
  "pic_reads_mask dev \<longleftrightarrow>
     (\<forall>h. dev h PIC1_DATA = ucast (imr (master h)) \<and> dev h PIC2_DATA = ucast (imr (slave h)))"

lemmas pic_defs = master_def slave_def chip_command_def chip_data_def port_io_defs c_consts

lemma io_only_outb [simp]: "io_only s (outb p v s)"
  by (auto simp: io_only_def outb_def)

lemma io_only_inb [simp]: "io_only s (snd (inb dev p s))"
  by (auto simp: io_only_def inb_def Let_def)

lemma mask_bit_small: "irq < (8 :: u8) \<Longrightarrow> unat irq < 8"
  by (simp add: word_less_nat_alt)

lemma ucast_mask [simp]: "(ucast (ucast (v :: u8) :: u16) :: u8) = v"
  by (rule bit_word_eqI) (simp add: bit_simps)

lemma io_only_pic:
  "io_only s (pic_send_eoi irq s)" "io_only s (pic_set_mask dev irq s)"
  "io_only s (pic_clear_mask dev irq s)" "io_only s (pic_remap dev o1 o2 s)"
  by (auto simp: pic_send_eoi_def pic_set_mask_def pic_clear_mask_def pic_remap_def
      inb_def outb_def io_wait_def io_only_def Let_def split: prod.splits if_splits)

subsection \<open>Properties of the interrupt controller driver\<close>

text \<open>
  C36: after \<open>pic_remap\<close> both chips have finished their initialisation sequence with the
  requested vector offsets, the cascade on line 2 and 8086 mode, and the interrupt masks are
  what they were before.
\<close>

theorem pic_remap_programs_chips:
  assumes "pic_reads_mask dev"
  shows "let h = io_log (pic_remap dev o1 o2 s)
     in icw_next (master h) = 0 \<and> icw_next (slave h) = 0 \<and>
        vector (master h) = word_of_int o1 \<and> vector (slave h) = word_of_int o2 \<and>
        cascade (master h) = 4 \<and> cascade (slave h) = 2 \<and> mode (master h) = 1 \<and> mode (slave h) = 1 \<and>
        imr (master h) = imr (master (io_log s)) \<and> imr (slave h) = imr (slave (io_log s))"
  using assms by (simp add: pic_remap_def pic_reads_mask_def Let_def pic_defs)

definition demo_pic_dev :: device where
  "demo_pic_dev h p = (if p = PIC1_DATA then ucast (imr (master h)) else ucast (imr (slave h)))"

lemma demo_pic_dev_reads: "pic_reads_mask demo_pic_dev"
  by (simp add: pic_reads_mask_def demo_pic_dev_def c_consts)

theorem pic_remap_programs_chips_witness:
  "pic_reads_mask demo_pic_dev \<and>
   vector (master (io_log (pic_remap demo_pic_dev 0x20 0x28 demo_console))) = 0x20"
  using pic_remap_programs_chips [OF demo_pic_dev_reads, of "0x20" "0x28" demo_console]
    demo_pic_dev_reads by (simp add: Let_def)

text \<open>
  C20: for a line below 16, \<open>pic_set_mask\<close> sets and \<open>pic_clear_mask\<close> clears exactly the bit
  of that line in the mask of the chip it belongs to and leaves the other chip alone, once
  the chips are initialised.
\<close>

theorem pic_mask_one_line:
  assumes "pic_reads_mask dev" and "irq < 16"
    and "icw_next (master (io_log s)) = 0" "icw_next (slave (io_log s)) = 0"
  shows "let m = (\<lambda>t i. if i < 8 then bit (imr (master (io_log t))) i
                       else bit (imr (slave (io_log t))) (i - 8))
     in \<forall>i < 16. (m (pic_set_mask dev irq s) i \<longleftrightarrow> m s i \<or> i = unat irq) \<and>
                 (m (pic_clear_mask dev irq s) i \<longleftrightarrow> m s i \<and> i \<noteq> unat irq)"
proof -
  have "unat irq < 16" using assms(2) by (simp add: word_less_nat_alt)
  moreover have "irq < 8 \<longleftrightarrow> unat irq < 8" by (simp add: word_less_nat_alt)
  moreover have "\<not> irq < 8 \<Longrightarrow> unat (irq - 8) = unat irq - 8"
    by (subst unat_sub) (simp_all add: word_le_nat_alt word_less_nat_alt)
  ultimately show ?thesis
    using assms(1,3,4)
    by (auto simp: pic_set_mask_def pic_clear_mask_def pic_reads_mask_def Let_def pic_defs
        bit_simps split: if_splits)
qed

theorem pic_mask_one_line_witness:
  "\<not> bit (imr (master (io_log (pic_clear_mask demo_pic_dev IRQ_KEYBOARD demo_console)))) 1"
proof -
  have "icw_next (master (io_log demo_console)) = 0" "icw_next (slave (io_log demo_console)) = 0"
    by (simp_all add: demo_console_def pic_defs chip_reset_def)
  from pic_mask_one_line [OF demo_pic_dev_reads _ this, of IRQ_KEYBOARD, unfolded Let_def,
      THEN spec, of 1] show ?thesis
    by (simp add: c_consts)
qed

text \<open>
  C21: \<open>pic_send_eoi\<close> acknowledges the interrupt at the master always and at the slave exactly
  for lines 8 and above, and changes neither mask nor vectors.
\<close>

theorem pic_send_eoi_acknowledges:
  "let h = io_log (pic_send_eoi irq s)
   in master h = (master (io_log s))\<lparr>eois := eois (master (io_log s)) + 1\<rparr> \<and>
      slave h = (if irq \<ge> 8 then (slave (io_log s))\<lparr>eois := eois (slave (io_log s)) + 1\<rparr>
                 else slave (io_log s))"
  by (simp add: pic_send_eoi_def Let_def pic_defs)

end
