(* ===== verification/Gdt.thy ===== *)
theory Gdt
  imports Pic
begin

text \<open>
  Segment descriptors and the task state segment (\<^verbatim>\<open>src/src/gdt.c\<close>, \<^verbatim>\<open>src/src/gdt.h\<close>). The
  addresses of the static tables are chosen by the linker and are parameters. The assembly
  routine \<open>gdt_flush\<close> and the \<open>ltr\<close> instruction load two processor registers.
\<close>

subsection \<open>Data\<close>

record gdt_entry =
  limit_low :: u16
  base_low :: u16
  base_middle :: u8
  access :: u8
  granularity :: u8
  base_high :: u8

record tss_entry_struct =
  prev_tss :: u32
  esp0 :: u32
  ss0 :: u32
  esp1 :: u32
  ss1 :: u32
  esp2 :: u32
  ss2 :: u32
  tss_cr3 :: u32
  tss_eip :: u32
  tss_eflags :: u32
  tss_eax :: u32
  tss_ecx :: u32
  tss_edx :: u32
  tss_ebx :: u32
  tss_esp :: u32
  tss_ebp :: u32
  tss_esi :: u32
  tss_edi :: u32
  tss_es :: u32
  tss_cs :: u32
  tss_ss :: u32
  tss_ds :: u32
  tss_fs :: u32
  tss_gs :: u32
  tss_ldt :: u32
  tss_trap :: u16
  iomap_base :: u16

record gdt_ptr =
  gp_limit :: u16
  gp_base :: u32

record gdt_state = console_state +
  gdt :: "nat \<Rightarrow> gdt_entry"
  gp :: gdt_ptr
  tss_entry :: tss_entry_struct
  gdtr :: u32
  task_register :: u16

definition GDT_ENTRIES :: nat where
  [c_consts]: "GDT_ENTRIES = 6"

text \<open>Sizes of the packed structures.\<close>

definition sizeof_gdt_entry :: nat where [c_consts]: "sizeof_gdt_entry = 8"
definition sizeof_tss :: u32 where [c_consts]: "sizeof_tss = 104"

subsection \<open>Operations\<close>

definition gdt_set_gate ::
  "nat \<Rightarrow> u32 \<Rightarrow> u32 \<Rightarrow> u8 \<Rightarrow> u8 \<Rightarrow> 'a gdt_state_scheme \<Rightarrow> 'a gdt_state_scheme" where
  "gdt_set_gate num base limit acc gran s =
     s\<lparr>gdt := (gdt s)(num :=
        \<lparr>limit_low = ucast (limit AND 0xFFFF),
         base_low = ucast (base AND 0xFFFF),
         base_middle = ucast (drop_bit 16 base AND 0xFF),
         access = acc,
         granularity = ucast (drop_bit 16 limit AND 0x0F) OR (gran AND 0xF0),
         base_high = ucast (drop_bit 24 base AND 0xFF)\<rparr>)\<rparr>"

definition zero_tss :: tss_entry_struct where
  "zero_tss =
     \<lparr>prev_tss = 0, esp0 = 0, ss0 = 0, esp1 = 0, ss1 = 0, esp2 = 0, ss2 = 0, tss_cr3 = 0,
      tss_eip = 0, tss_eflags = 0, tss_eax = 0, tss_ecx = 0, tss_edx = 0, tss_ebx = 0,
      tss_esp = 0, tss_ebp = 0, tss_esi = 0, tss_edi = 0, tss_es = 0, tss_cs = 0, tss_ss = 0,
      tss_ds = 0, tss_fs = 0, tss_gs = 0, tss_ldt = 0, tss_trap = 0, iomap_base = 0\<rparr>"

definition write_tss ::
  "u32 \<Rightarrow> nat \<Rightarrow> u16 \<Rightarrow> u32 \<Rightarrow> 'a gdt_state_scheme \<Rightarrow> 'a gdt_state_scheme" where
  "write_tss tss_addr num ss0_val esp0_val s =
     (let base = tss_addr;
          limit = base + sizeof_tss;
          s1 = gdt_set_gate num base limit 0xE9 0x00 s
      in s1\<lparr>tss_entry := zero_tss
           \<lparr>ss0 := ucast ss0_val, esp0 := esp0_val, tss_cs := 0x0b, tss_ss := 0x13,
            tss_ds := 0x13, tss_es := 0x13, tss_fs := 0x13, tss_gs := 0x13\<rparr>\<rparr>)"

definition gdt_init :: "u32 \<Rightarrow> u32 \<Rightarrow> u32 \<Rightarrow> 'a gdt_state_scheme \<Rightarrow> 'a gdt_state_scheme" where
  "gdt_init gdt_addr gp_addr tss_addr s =
     (let s = s\<lparr>gp := \<lparr>gp_limit = of_nat (sizeof_gdt_entry * GDT_ENTRIES - 1), gp_base = gdt_addr\<rparr>\<rparr>;
          s = gdt_set_gate 0 0 0 0 0 s;
          s = gdt_set_gate 1 0 0xFFFFFFFF 0x9A 0xCF s;
          s = gdt_set_gate 2 0 0xFFFFFFFF 0x92 0xCF s;
          s = gdt_set_gate 3 0 0xFFFFFFFF 0xFA 0xCF s;
          s = gdt_set_gate 4 0 0xFFFFFFFF 0xF2 0xCF s;
          s = write_tss tss_addr 5 0x10 0x0 s
      in s\<lparr>gdtr := gp_addr, task_register := 0x2B\<rparr>)"

subsection \<open>What the processor reads out of a descriptor\<close>

definition seg_base :: "gdt_entry \<Rightarrow> u32" where
  "seg_base e = ucast (base_low e) OR push_bit 16 (ucast (base_middle e)) OR
     push_bit 24 (ucast (base_high e))"

definition seg_limit :: "gdt_entry \<Rightarrow> u32" where
  "seg_limit e = ucast (limit_low e) OR push_bit 16 (ucast (granularity e AND 0x0F))"

text \<open>With the granularity flag (bit 7) the limit counts 4 KiB units.\<close>

definition seg_bytes :: "gdt_entry \<Rightarrow> nat" where
  "seg_bytes e = (if bit (granularity e) 7 then (unat (seg_limit e) + 1) * 4096
                  else unat (seg_limit e) + 1)"

definition flat_segment :: "gdt_entry \<Rightarrow> bool" where
  "flat_segment e \<longleftrightarrow> seg_base e = 0 \<and> seg_bytes e = 2 ^ 32"

definition seg_dpl :: "gdt_entry \<Rightarrow> u8" where
  "seg_dpl e = drop_bit 5 (access e) AND 3"

lemma mask_lt: "n < 32 \<Longrightarrow> (mask n :: u32) = 2 ^ n - 1"
  by (simp add: mask_eq_exp_minus_1)

lemma numeral_masks:
  "(0xFF :: u32) = mask 8" "(0xFFFF :: u32) = mask 16" "(0xFFFFF :: u32) = mask 20"
  "(0x0F :: u32) = mask 4" "(0x0F :: u8) = mask 4" "(0x3FF :: u32) = mask 10" "(0xFFF :: u32) = mask 12"
  "(0xF :: u32) = mask 4"
  by (simp_all add: mask_eq_exp_minus_1)

lemma high_nibble: "(0xF0 :: u8) = NOT (mask 4)"
  by (simp add: mask_eq_exp_minus_1)

lemma split_word_base:
  fixes base :: u32
  shows "ucast (ucast (base AND mask 16) :: u16) OR
     push_bit 16 (ucast (ucast (drop_bit 16 base AND mask 8) :: u8)) OR
     push_bit 24 (ucast (ucast (drop_bit 24 base AND mask 8) :: u8)) = base"
proof (rule bit_word_eqI)
  fix n
  assume "n < LENGTH(32)"
  then consider "n < 16" | "16 \<le> n" "n < 24" | "24 \<le> n" "n < 32" by fastforce
  then show "bit (ucast (ucast (base AND mask 16) :: u16) OR
     push_bit 16 (ucast (ucast (drop_bit 16 base AND mask 8) :: u8)) OR
     push_bit 24 (ucast (ucast (drop_bit 24 base AND mask 8) :: u8)) :: u32) n = bit base n"
    by cases (auto simp: bit_simps)
qed

lemma seg_base_set_gate:
  "seg_base (gdt (gdt_set_gate num base limit acc gran s) num) = base"
  using split_word_base [of base] by (simp add: seg_base_def gdt_set_gate_def numeral_masks)

lemma seg_limit_set_gate:
  "seg_limit (gdt (gdt_set_gate num base limit acc gran s) num) = limit AND 0xFFFFF"
  unfolding seg_limit_def gdt_set_gate_def numeral_masks high_nibble
  by (rule bit_word_eqI) (auto simp: bit_simps)

lemma gate_fields:
  "access (gdt (gdt_set_gate num base limit acc gran s) num) = acc"
  "m \<noteq> num \<Longrightarrow> gdt (gdt_set_gate num base limit acc gran s) m = gdt s m"
  by (simp_all add: gdt_set_gate_def)

lemma gate_flags:
  "drop_bit 4 (granularity (gdt (gdt_set_gate num base limit acc gran s) num)) = drop_bit 4 gran"
proof -
  have "drop_bit 4 (ucast (drop_bit 16 limit AND mask 4) OR (gran AND NOT (mask 4))) = drop_bit 4 gran"
    for gran :: u8
    by (rule bit_word_eqI) (auto simp: bit_simps dest: bit_imp_le_length)
  then show ?thesis by (simp add: gdt_set_gate_def numeral_masks high_nibble)
qed

subsection \<open>Properties of the descriptor tables\<close>

definition demo_gdt :: gdt_state where
  "demo_gdt = console_state.extend demo_console
     \<lparr>gdt = \<lambda>_. \<lparr>limit_low = 0, base_low = 0, base_middle = 0, access = 0, granularity = 0,
                base_high = 0\<rparr>,
      gp = \<lparr>gp_limit = 0, gp_base = 0\<rparr>, tss_entry = zero_tss, gdtr = 0, task_register = 0\<rparr>"

text \<open>
  C27: \<open>gdt_set_gate\<close> encodes a descriptor that the processor decodes to the given base, the
  low 20 bits of the limit, the access byte and the upper four flags, and touches no other
  entry.
\<close>

theorem gdt_gate_roundtrip:
  "let e = gdt (gdt_set_gate num base limit acc gran s) num
   in seg_base e = base \<and> seg_limit e = limit AND 0xFFFFF \<and> access e = acc \<and>
      drop_bit 4 (granularity e) = drop_bit 4 gran \<and>
      (\<forall>m. m \<noteq> num \<longrightarrow> gdt (gdt_set_gate num base limit acc gran s) m = gdt s m)"
  by (simp add: seg_base_set_gate seg_limit_set_gate gate_fields gate_flags)

theorem gdt_gate_roundtrip_witness:
  "seg_base (gdt (gdt_set_gate 3 0x12345678 0xFFFFFFFF 0xFA 0xCF demo_gdt) 3) = 0x12345678 \<and>
   gdt (gdt_set_gate 3 0x12345678 0xFFFFFFFF 0xFA 0xCF demo_gdt) 2 = gdt demo_gdt 2"
  using gdt_gate_roundtrip [of 3 "0x12345678" "0xFFFFFFFF" "0xFA" "0xCF" demo_gdt]
  by (simp add: Let_def)

text \<open>
  C35: after \<open>gdt_init\<close> the kernel and user code and data segments all start at 0 and span
  4 GiB, with privilege level 0 for the kernel's and 3 for the user's; entry 0 is null; the
  task segment descriptor points at the task state segment, whose kernel stack segment is the
  kernel data selector. The limit of that descriptor is the low 20 bits of the \<^emph>\<open>end address\<close>
  of the structure, not its size.
\<close>

theorem gdt_init_segments:
  "let t = gdt_init gdt_addr gp_addr tss_addr s
   in flat_segment (gdt t 1) \<and> flat_segment (gdt t 2) \<and> flat_segment (gdt t 3) \<and>
      flat_segment (gdt t 4) \<and>
      seg_dpl (gdt t 1) = 0 \<and> seg_dpl (gdt t 2) = 0 \<and> seg_dpl (gdt t 3) = 3 \<and>
      seg_dpl (gdt t 4) = 3 \<and> access (gdt t 0) = 0 \<and>
      seg_base (gdt t 5) = tss_addr \<and> seg_limit (gdt t 5) = (tss_addr + 104) AND 0xFFFFF \<and>
      ss0 (tss_entry t) = 0x10 \<and> esp0 (tss_entry t) = 0 \<and>
      gp_limit (gp t) = 47 \<and> gp_base (gp t) = gdt_addr"
proof -
  have code: "seg_bytes \<lparr>limit_low = 0xFFFF, base_low = 0, base_middle = 0, access = a,
      granularity = 0xCF, base_high = 0\<rparr> = 2 ^ 32" for a
    by (simp add: seg_bytes_def seg_limit_def)
  show ?thesis
    unfolding gdt_init_def write_tss_def Let_def
    by (simp add: seg_base_set_gate seg_limit_set_gate gate_fields c_consts)
      (simp add: gdt_set_gate_def code seg_base_def seg_dpl_def flat_segment_def)
qed

end
