(* ===== verification/Idt.thy ===== *)
theory Idt
  imports Gdt
begin

text \<open>
  Interrupt descriptors and dispatch (\<^verbatim>\<open>src/src/idt.c\<close>, \<^verbatim>\<open>src/src/idt.h\<close>). The table of C
  handlers holds function pointers; the four functions the kernel registers are the datatype
  \<open>handler\<close>, and what they do is a parameter of the dispatcher, filled in when all components
  are known. The addresses of the assembly stubs \<open>isr0 \<dots> isr31\<close> and \<open>irq0 \<dots> irq15\<close> and of
  the table are chosen by the linker and are parameters.
\<close>

subsection \<open>Data\<close>

record idt_entry =
  idt_base_low :: u16
  idt_sel :: u16
  idt_always0 :: u8
  idt_flags :: u8
  idt_base_high :: u16

record idt_ptr =
  idtp_limit :: u16
  idtp_base :: u32

record registers =
  r_ds :: u32
  r_edi :: u32
  r_esi :: u32
  r_ebp :: u32
  r_esp :: u32
  r_ebx :: u32
  r_edx :: u32
  r_ecx :: u32
  r_eax :: u32
  int_no :: u32
  err_code :: u32
  r_eip :: u32
  r_cs :: u32
  r_eflags :: u32
  r_useresp :: u32
  r_ss :: u32

datatype handler = Timer_Callback | Keyboard_Callback | Page_Fault_Handler | Syscall_Handler

record idt_state = gdt_state +
  idt :: "u8 \<Rightarrow> idt_entry"
  idtp :: idt_ptr
  interrupt_handlers :: "nat \<Rightarrow> handler option"
  idtr :: u32

definition IDT_ENTRIES :: nat where
  [c_consts]: "IDT_ENTRIES = 256"

subsection \<open>Operations\<close>

definition idt_set_gate ::
  "u8 \<Rightarrow> u32 \<Rightarrow> u16 \<Rightarrow> u8 \<Rightarrow> 'a idt_state_scheme \<Rightarrow> 'a idt_state_scheme" where
  "idt_set_gate num base sel flags s =
     s\<lparr>idt := (idt s)(num :=
        \<lparr>idt_base_low = ucast (base AND 0xFFFF), idt_sel = sel, idt_always0 = 0,
         idt_flags = flags, idt_base_high = ucast (drop_bit 16 base AND 0xFFFF)\<rparr>)\<rparr>"

definition idt_clear :: "nat \<Rightarrow> 'a idt_state_scheme \<Rightarrow> 'a idt_state_scheme" where
  "idt_clear i s =
     (let s1 = idt_set_gate (of_nat i) 0 0 0 s
      in s1\<lparr>interrupt_handlers := (interrupt_handlers s1)(i := None)\<rparr>)"

definition idt_init ::
  "device \<Rightarrow> (nat \<Rightarrow> u32) \<Rightarrow> (nat \<Rightarrow> u32) \<Rightarrow> u32 \<Rightarrow> u32 \<Rightarrow> 'a idt_state_scheme \<Rightarrow>
   'a idt_state_scheme" where
  "idt_init dev isr irq idt_addr idtp_addr s =
     (let s = s\<lparr>idtp := \<lparr>idtp_limit = of_nat (8 * IDT_ENTRIES - 1), idtp_base = idt_addr\<rparr>\<rparr>;
          s = fold idt_clear [0..<IDT_ENTRIES] s;
          s = pic_remap dev 0x20 0x28 s;
          s = fold (\<lambda>i. idt_set_gate (of_nat i) (isr i) 0x08 0x8E) [0..<32] s;
          s = fold (\<lambda>i. idt_set_gate (of_nat (32 + i)) (irq i) 0x08 0x8E) [0..<16] s
      in s\<lparr>idtr := idtp_addr\<rparr>)"

definition register_interrupt_handler ::
  "u8 \<Rightarrow> handler \<Rightarrow> 'a idt_state_scheme \<Rightarrow> 'a idt_state_scheme" where
  "register_interrupt_handler n h s =
     s\<lparr>interrupt_handlers := (interrupt_handlers s)(unat n := Some h)\<rparr>"

subsection \<open>The crash screen\<close>

text \<open>The digits the handler writes into \<open>num\<close> for an exception number below 32.\<close>

definition crash_number :: "nat \<Rightarrow> string" where
  "crash_number n =
     (if n \<ge> 10 then [char_of (48 + n div 10), char_of (48 + n mod 10)] else [char_of (48 + n)])"

fun put_text :: "int \<Rightarrow> string \<Rightarrow> u8 \<Rightarrow> 'a console_state_scheme \<Rightarrow> 'a console_state_scheme" where
  "put_text i [] attr s = s"
| "put_text i (c # cs) attr s = put_text (i + 1) cs attr (set_cell (i * 2) c attr s)"

definition crash_screen :: "u32 \<Rightarrow> 'a console_state_scheme \<Rightarrow> 'a console_state_scheme" where
  "crash_screen n s =
     (let s1 = for_loop 0 (80 * 25) (\<lambda>i. set_cell (i * 2) CHR '' '' 0x4F) s;
          msg = ''CRITICAL EXCEPTION: '';
          s2 = put_text 0 msg 0x4F s1
      in put_text (int (length msg)) (crash_number (unat n)) 0x4F s2)"

subsection \<open>Dispatch\<close>

type_synonym 's run_handler = "handler \<Rightarrow> registers \<Rightarrow> 's \<Rightarrow> (registers, 's) outcome option"

definition isr_handler ::
  "'a idt_state_scheme run_handler \<Rightarrow> registers \<Rightarrow> 'a idt_state_scheme \<Rightarrow>
   (registers, 'a idt_state_scheme) outcome option" where
  "isr_handler run regs s =
     (if unat (int_no regs) \<ge> IDT_ENTRIES then Some (Faulted OutOfBounds)
      else case interrupt_handlers s (unat (int_no regs)) of
             Some h \<Rightarrow> run h regs s
           | None \<Rightarrow>
               if int_no regs < 32 then Some (Halted (cli (crash_screen (int_no regs) s)))
               else Some (Returned regs s))"

definition irq_handler ::
  "'a idt_state_scheme run_handler \<Rightarrow> registers \<Rightarrow> 'a idt_state_scheme \<Rightarrow>
   (registers, 'a idt_state_scheme) outcome option" where
  "irq_handler run regs s =
     (let s1 = (if int_no regs \<ge> 40 then pic_send_eoi (ucast (int_no regs - 32)) s
                else pic_send_eoi (ucast (int_no regs - 32)) s)
      in if unat (int_no regs) \<ge> IDT_ENTRIES then Some (Faulted OutOfBounds)
         else case interrupt_handlers s1 (unat (int_no regs)) of
                Some h \<Rightarrow> run h regs s1
              | None \<Rightarrow> Some (Returned regs s1))"

subsection \<open>What the processor reads out of a gate\<close>

definition gate_offset :: "idt_entry \<Rightarrow> u32" where
  "gate_offset e = ucast (idt_base_low e) OR push_bit 16 (ucast (idt_base_high e))"

definition gate_dpl :: "idt_entry \<Rightarrow> u8" where
  "gate_dpl e = drop_bit 5 (idt_flags e) AND 3"

lemma split_word_halves:
  fixes base :: u32
  shows "ucast (ucast (base AND mask 16) :: u16) OR
     push_bit 16 (ucast (ucast (drop_bit 16 base AND mask 16) :: u16)) = base"
proof (rule bit_word_eqI)
  fix n
  assume "n < LENGTH(32)"
  then consider "n < 16" | "16 \<le> n" "n < 32" by fastforce
  then show "bit (ucast (ucast (base AND mask 16) :: u16) OR
     push_bit 16 (ucast (ucast (drop_bit 16 base AND mask 16) :: u16)) :: u32) n = bit base n"
    by cases (auto simp: bit_simps)
qed

lemma idt_set_gate_lookup:
  "idt (idt_set_gate num base sel flags s) m =
     (if m = num
      then \<lparr>idt_base_low = ucast (base AND 0xFFFF), idt_sel = sel, idt_always0 = 0,
            idt_flags = flags, idt_base_high = ucast (drop_bit 16 base AND 0xFFFF)\<rparr>
      else idt s m)"
  by (simp add: idt_set_gate_def)

lemma gate_offset_set:
  "gate_offset (idt (idt_set_gate num base sel flags s) num) = base"
  using split_word_halves [of base] by (simp add: gate_offset_def idt_set_gate_def numeral_masks)

lemma idt_set_gate_frame [simp]:
  "interrupt_handlers (idt_set_gate num base sel flags s) = interrupt_handlers s"
  "idtp (idt_set_gate num base sel flags s) = idtp s"
  "io_log (idt_set_gate num base sel flags s) = io_log s"
  by (simp_all add: idt_set_gate_def)

definition gate_entry :: "u32 \<Rightarrow> u16 \<Rightarrow> u8 \<Rightarrow> idt_entry" where
  "gate_entry base sel flags =
     \<lparr>idt_base_low = ucast (base AND 0xFFFF), idt_sel = sel, idt_always0 = 0,
      idt_flags = flags, idt_base_high = ucast (drop_bit 16 base AND 0xFFFF)\<rparr>"

lemma gate_offset_entry: "gate_offset (gate_entry base sel flags) = base"
  using split_word_halves [of base] by (simp add: gate_offset_def gate_entry_def numeral_masks)

lemma u8_index: "n < 256 \<Longrightarrow> (m = (of_nat n :: u8)) \<longleftrightarrow> unat m = n"
  by (auto simp: unat_of_nat word_unat_eq_iff)

lemma fold_idt_set_gate:
  assumes "k + n \<le> 256"
  shows "idt (fold (\<lambda>i. idt_set_gate (of_nat (k + i)) (f i) sel fl) [0..<n] s) m =
           (if k \<le> unat m \<and> unat m < k + n then gate_entry (f (unat m - k)) sel fl else idt s m)"
    and "interrupt_handlers (fold (\<lambda>i. idt_set_gate (of_nat (k + i)) (f i) sel fl) [0..<n] s) =
           interrupt_handlers s"
    and "io_log (fold (\<lambda>i. idt_set_gate (of_nat (k + i)) (f i) sel fl) [0..<n] s) = io_log s"
  using assms
  by (induction n)
    (auto simp: idt_set_gate_lookup gate_entry_def u8_index less_Suc_eq simp del: of_nat_add)

lemma fold_idt_clear:
  assumes "n \<le> 256"
  shows "idt (fold idt_clear [0..<n] s) m = (if unat m < n then gate_entry 0 0 0 else idt s m)"
    and "interrupt_handlers (fold idt_clear [0..<n] s) j =
           (if j < n then None else interrupt_handlers s j)"
    and "io_log (fold idt_clear [0..<n] s) = io_log s"
  using assms
  by (induction n) (auto simp: idt_clear_def Let_def idt_set_gate_lookup gate_entry_def u8_index less_Suc_eq)

lemma pic_remap_frame [simp]:
  "idt (pic_remap dev a b s) = idt s" "interrupt_handlers (pic_remap dev a b s) = interrupt_handlers s"
  using io_only_pic(4) [of s dev a b] by (auto simp: io_only_def)

subsection \<open>The crash screen, cell by cell\<close>

lemma put_text_shows:
  "shows_at (vga_mem (put_text i cs attr s)) i cs attr \<and>
   (\<forall>j. \<not> (i * 2 \<le> j \<and> j < (i + int (length cs)) * 2) \<longrightarrow>
      vga_mem (put_text i cs attr s) j = vga_mem s j)"
proof (induction cs arbitrary: i s)
  case Nil
  then show ?case by simp
next
  case (Cons c cs)
  have "vga_mem (set_cell (i * 2) c attr s) = (vga_mem s)(i * 2 := of_char c, i * 2 + 1 := attr)"
    by (simp add: set_cell_def)
  with Cons [of "i + 1" "set_cell (i * 2) c attr s"] show ?case
    by (auto simp: shows_at_Cons)
qed

lemma put_text_screen:
  "0 \<le> i \<Longrightarrow> i + int (length cs) \<le> 2000 \<Longrightarrow> screen_only s (put_text i cs attr s)"
proof (induction cs arbitrary: i s)
  case Nil
  then show ?case by simp
next
  case (Cons c cs)
  have "screen_only s (set_cell (i * 2) c attr s)"
    using Cons.prems by (intro screen_only_set_cell) auto
  moreover have "screen_only (set_cell (i * 2) c attr s)
      (put_text (i + 1) cs attr (set_cell (i * 2) c attr s))"
    using Cons.prems by (intro Cons.IH) auto
  ultimately show ?case by (simp add: screen_only_trans)
qed

lemma fill_cells:
  "0 \<le> a \<Longrightarrow> a \<le> j \<Longrightarrow> j < b \<Longrightarrow>
   vga_mem (for_loop a b (\<lambda>i. set_cell (i * 2) c attr) s) (j * 2) = of_char c \<and>
   vga_mem (for_loop a b (\<lambda>i. set_cell (i * 2) c attr) s) (j * 2 + 1) = attr"
proof (induction "nat (b - a)" arbitrary: b)
  case 0
  then show ?case by simp
next
  case (Suc k)
  have step: "for_loop a b (\<lambda>i. set_cell (i * 2) c attr) s =
      set_cell ((b - 1) * 2) c attr (for_loop a (b - 1) (\<lambda>i. set_cell (i * 2) c attr) s)"
    using Suc.prems by (simp add: for_loop_def upto_rec2)
  show ?case
  proof (cases "j = b - 1")
    case True
    then show ?thesis unfolding step by (simp add: set_cell_def)
  next
    case False
    with Suc.prems Suc.hyps(1) [of "b - 1"] Suc.hyps(2) show ?thesis
      unfolding step by (simp add: set_cell_def)
  qed
qed

lemma screen_only_cli: "screen_only s t \<Longrightarrow> screen_only (s\<lparr>if_flag := False\<rparr>) (cli t)"
proof -
  assume "screen_only s t"
  then obtain m r c where t: "t = s\<lparr>vga_mem := m, vga_row := r, vga_col := c\<rparr>"
    and out: "\<forall>i. i < 0 \<or> 4000 \<le> i \<longrightarrow> m i = vga_mem s i"
    by (auto simp: screen_only_def)
  show ?thesis
    by (rule screen_onlyI [where m = m and r = r and c = c]) (use t out in \<open>auto simp: cli_def\<close>)
qed

lemma crash_number_decimal:
  assumes "n < 32"
  shows "decimal_value (crash_number n) = n" and "length (crash_number n) \<le> 2"
  using assms by (auto simp: crash_number_def decimal_value_def of_char_of)

subsection \<open>Properties of interrupt set-up and dispatch\<close>

definition demo_idt :: idt_state where
  "demo_idt = gdt_state.extend demo_gdt
     \<lparr>idt = \<lambda>_. gate_entry 0 0 0, idtp = \<lparr>idtp_limit = 0, idtp_base = 0\<rparr>,
      interrupt_handlers = \<lambda>_. None, idtr = 0\<rparr>"

definition demo_regs :: registers where
  "demo_regs = \<lparr>r_ds = 0x10, r_edi = 0, r_esi = 0, r_ebp = 0, r_esp = 0, r_ebx = 0, r_edx = 0,
     r_ecx = 0, r_eax = 0, int_no = 13, err_code = 0, r_eip = 0, r_cs = 0x08, r_eflags = 0,
     r_useresp = 0, r_ss = 0x10\<rparr>"

text \<open>
  C37: after \<open>idt_init\<close> the gates 0 to 31 lead to the exception stubs and 32 to 47 to the
  interrupt request stubs, all through the kernel code segment at privilege level 0; every
  other gate is absent; no C handler is registered; and the interrupt controllers have been
  programmed as by \<open>pic_remap\<close> with offsets 0x20 and 0x28.
\<close>

theorem idt_init_gates:
  "let t = idt_init dev isr irq idt_addr idtp_addr s
   in idt t n = (if unat n < 32 then gate_entry (isr (unat n)) 0x08 0x8E
                 else if unat n < 48 then gate_entry (irq (unat n - 32)) 0x08 0x8E
                 else gate_entry 0 0 0) \<and>
      (unat n < 32 \<longrightarrow> gate_offset (idt t n) = isr (unat n) \<and> gate_dpl (idt t n) = 0) \<and>
      (32 \<le> unat n \<and> unat n < 48 \<longrightarrow> gate_offset (idt t n) = irq (unat n - 32)) \<and>
      (i < 256 \<longrightarrow> interrupt_handlers t i = None) \<and>
      io_log t = io_log (pic_remap dev 0x20 0x28 s)"
proof -
  define s1 where "s1 = fold idt_clear [0..<256]
      (s\<lparr>idtp := \<lparr>idtp_limit = of_nat (8 * IDT_ENTRIES - 1), idtp_base = idt_addr\<rparr>\<rparr>)"
  define s2 where "s2 = fold (\<lambda>i. idt_set_gate (of_nat (0 + i)) (isr i) 0x08 0x8E) [0..<32]
      (pic_remap dev 0x20 0x28 s1)"
  define s3 where "s3 = fold (\<lambda>i. idt_set_gate (of_nat (32 + i)) (irq i) 0x08 0x8E) [0..<16] s2"
  have t: "idt_init dev isr irq idt_addr idtp_addr s = s3\<lparr>idtr := idtp_addr\<rparr>"
    by (simp add: idt_init_def Let_def s1_def s2_def s3_def IDT_ENTRIES_def)
  have "unat n < 256" using unsigned_less [where 'a = nat and w = n] by simp
  then have "idt s1 n = gate_entry 0 0 0" by (simp add: s1_def fold_idt_clear)
  then have "idt s3 n = (if unat n < 32 then gate_entry (isr (unat n)) 0x08 0x8E
                 else if unat n < 48 then gate_entry (irq (unat n - 32)) 0x08 0x8E
                 else gate_entry 0 0 0)"
    unfolding s3_def s2_def by (subst fold_idt_set_gate, simp, subst fold_idt_set_gate) simp_all
  moreover have "interrupt_handlers s3 i = None" if "i < 256"
    unfolding s3_def s2_def using that
    by (subst fold_idt_set_gate, simp, subst fold_idt_set_gate) (simp_all add: s1_def fold_idt_clear)
  moreover have "io_log s3 = io_log (pic_remap dev 0x20 0x28 s)"
  proof -
    have "io_log s3 = io_log (pic_remap dev 0x20 0x28 s1)"
      unfolding s3_def s2_def by (subst fold_idt_set_gate, simp, subst fold_idt_set_gate) simp_all
    moreover have "io_log s1 = io_log s" by (simp add: s1_def fold_idt_clear)
    then have "io_log (pic_remap dev 0x20 0x28 s1) = io_log (pic_remap dev 0x20 0x28 s)"
      by (simp add: pic_remap_def port_io_defs Let_def)
    ultimately show ?thesis by simp
  qed
  ultimately show ?thesis
    unfolding t Let_def by (auto simp: gate_offset_entry gate_dpl_def) (simp_all add: gate_entry_def)
qed

theorem idt_init_gates_witness:
  "gate_offset (idt (idt_init (\<lambda>_ _. 0) (\<lambda>i. 0x1000 + of_nat i) (\<lambda>i. 0x2000 + of_nat i) 0 0 demo_idt) 14) =
     0x100E"
  using idt_init_gates [of "\<lambda>_ _. 0" "\<lambda>i. 0x1000 + of_nat i" "\<lambda>i. 0x2000 + of_nat i" 0 0 demo_idt 14 0]
  by (simp add: Let_def gate_offset_entry)

text \<open>
  C37: a processor exception for which no handler is registered stops the machine with
  interrupts off and shows the text CRITICAL EXCEPTION and the exception number in decimal at
  the top of a red screen; nothing outside the screen is written.
\<close>

theorem unhandled_exception_halts:
  assumes "int_no regs < 32" and "interrupt_handlers s (unat (int_no regs)) = None"
  shows "\<exists>t num. isr_handler run regs s = Some (Halted t) \<and> \<not> if_flag t \<and>
     decimal_value num = unat (int_no regs) \<and>
     shows_at (vga_mem t) 0 (''CRITICAL EXCEPTION: '' @ num) 0x4F \<and>
     screen_only (s\<lparr>if_flag := False\<rparr>) t"
proof -
  define n where "n = int_no regs"
  define s1 where "s1 = for_loop 0 (80 * 25) (\<lambda>i. set_cell (i * 2) CHR '' '' 0x4F) s"
  define s2 where "s2 = put_text 0 ''CRITICAL EXCEPTION: '' 0x4F s1"
  define s3 where "s3 = put_text 20 (crash_number (unat n)) 0x4F s2"
  have n: "unat n < 32" using assms(1) by (simp add: n_def word_less_nat_alt)
  have res: "isr_handler run regs s = Some (Halted (cli s3))"
    using assms n by (simp add: isr_handler_def c_consts crash_screen_def Let_def n_def s1_def s2_def s3_def)
  have "shows_at (vga_mem s2) 0 ''CRITICAL EXCEPTION: '' 0x4F"
    using put_text_shows [of 0 "''CRITICAL EXCEPTION: ''" "0x4F" s1] by (simp add: s2_def)
  then have shown: "shows_at (vga_mem s3) 0 (''CRITICAL EXCEPTION: '' @ crash_number (unat n)) 0x4F"
    using put_text_shows [of 20 "crash_number (unat n)" "0x4F" s2] unfolding shows_at_append
    by (auto simp: s3_def intro: shows_at_cong)
  have "screen_only s s1" unfolding s1_def
    by (rule for_loop_inv [where P = "screen_only s"])
      (auto intro: screen_only_trans [OF _ screen_only_set_cell])
  then have "screen_only s s3"
    using put_text_screen [of 0 "''CRITICAL EXCEPTION: ''" s1 "0x4F"]
      put_text_screen [of 20 "crash_number (unat n)" s2 "0x4F"] crash_number_decimal(2) [OF n]
    by (auto simp: s2_def s3_def intro: screen_only_trans)
  then have "screen_only (s\<lparr>if_flag := False\<rparr>) (cli s3)" by (rule screen_only_cli)
  with res shown crash_number_decimal(1) [OF n] show ?thesis
    by (auto simp: n_def cli_def)
qed

theorem unhandled_exception_halts_witness:
  "\<exists>t num. isr_handler (\<lambda>_ _ _. None) demo_regs demo_idt = Some (Halted t) \<and>
     decimal_value num = 13 \<and> shows_at (vga_mem t) 0 (''CRITICAL EXCEPTION: '' @ num) 0x4F"
  using unhandled_exception_halts [of demo_regs demo_idt "\<lambda>_ _ _. None"]
  by (auto simp: demo_idt_def demo_regs_def gdt_state.extend_def)

end
