(* ===== verification/Pmm.thy ===== *)
theory Pmm
  imports Idt
begin

text \<open>
  Physical memory manager (\<^verbatim>\<open>src/src/pmm.c\<close>, \<^verbatim>\<open>src/src/pmm.h\<close>). One bit per 4 KiB frame, set
  when the frame is in use. The C array \<open>bitmap\<close> of \<open>BITMAP_SIZE\<close> words is a function on
  its index. The addresses the code takes from outside, the multiboot structures and the
  linker symbol \<open>_end\<close>, are parameters.
\<close>

subsection \<open>Data\<close>

definition PAGE_SIZE :: u32 where
  [c_consts]: "PAGE_SIZE = 4096"

definition BITMAP_SIZE :: nat where
  [c_consts]: "BITMAP_SIZE = 32768"

record multiboot_mmap_entry =
  e_size :: u32
  e_addr :: u64
  e_len :: u64
  e_type :: u32

record multiboot_info =
  mb_flags :: u32
  mem_lower :: u32
  mem_upper :: u32
  boot_device :: u32
  cmdline :: u32
  mods_count :: u32
  mods_addr :: u32
  syms :: "u32 list"
  mmap_length :: u32
  mmap_addr :: u32

record pmm_state = idt_state +
  bitmap :: "nat \<Rightarrow> u32"
  total_pages :: u32
  used_pages :: u32

subsection \<open>Operations on one bit\<close>

definition bitmap_set :: "u32 \<Rightarrow> 'a pmm_state_scheme \<Rightarrow> 'a pmm_state_scheme" where
  "bitmap_set page s =
     (let i = unat (page div 32)
      in s\<lparr>bitmap := (bitmap s)(i := bitmap s i OR push_bit (unat (page mod 32)) 1)\<rparr>)"

definition bitmap_clear :: "u32 \<Rightarrow> 'a pmm_state_scheme \<Rightarrow> 'a pmm_state_scheme" where
  "bitmap_clear page s =
     (let i = unat (page div 32)
      in s\<lparr>bitmap := (bitmap s)(i := bitmap s i AND NOT (push_bit (unat (page mod 32)) 1))\<rparr>)"

definition bitmap_test :: "u32 \<Rightarrow> 'a pmm_state_scheme \<Rightarrow> bool" where
  "bitmap_test page s \<longleftrightarrow>
     bitmap s (unat (page div 32)) AND push_bit (unat (page mod 32)) 1 \<noteq> 0"

subsection \<open>Initialisation\<close>

text \<open>The loop over the frames of one available region.\<close>

function free_region :: "u32 \<Rightarrow> u32 \<Rightarrow> u32 \<Rightarrow> 'a pmm_state_scheme \<Rightarrow> 'a pmm_state_scheme" where
  "free_region kernel_end page end_page s =
     (if page < end_page then
        free_region kernel_end (page + 1) end_page
          (let page_addr = page * PAGE_SIZE
           in if 0x100000 \<le> page_addr \<and> kernel_end \<le> page_addr
              then (bitmap_clear page s)\<lparr>total_pages := total_pages s + 1\<rparr>
              else s)
      else s)"
  by pat_completeness auto
termination
  by (relation "measure (\<lambda>(k, page, end_page, s). unat end_page - unat page)")
    (auto simp: unat_Suc_no_wrap word_less_nat_alt)

definition init_entry ::
  "u32 \<Rightarrow> multiboot_mmap_entry \<Rightarrow> 'a pmm_state_scheme \<Rightarrow> 'a pmm_state_scheme" where
  "init_entry kernel_end e s =
     (if e_type e = 1 then
        let addr = e_addr e; len = e_len e
        in if addr < 0x100000000 then
             let len' = (if addr + len > 0x100000000 then 0x100000000 - addr else len);
                 start_page = ucast ((addr + 4096 - 1) div 4096);
                 end_page = ucast ((addr + len') div 4096)
             in free_region kernel_end start_page end_page s
           else s
      else s)"

text \<open>
  The walk over the memory map. \<open>rd\<close> is the memory the boot loader filled: the entry at
  an address. An entry whose size wraps the address makes the walk run forever.
\<close>

partial_function (option) mmap_walk ::
  "(u32 \<Rightarrow> multiboot_mmap_entry) \<Rightarrow> u32 \<Rightarrow> u32 \<Rightarrow> u32 \<Rightarrow> 'a pmm_state_scheme \<Rightarrow>
   'a pmm_state_scheme option" where
  "mmap_walk rd kernel_end mmap mmap_end s =
     (if mmap < mmap_end
      then mmap_walk rd kernel_end (mmap + e_size (rd mmap) + 4) mmap_end
             (init_entry kernel_end (rd mmap) s)
      else Some s)"

declare mmap_walk.simps [code]

text \<open>The fallback loop when the boot loader gives no memory map.\<close>

function free_fallback :: "u32 \<Rightarrow> u32 \<Rightarrow> 'a pmm_state_scheme \<Rightarrow> 'a pmm_state_scheme" where
  "free_fallback page end_page s =
     (if page < end_page \<and> page < of_nat (BITMAP_SIZE * 32) then
        free_fallback (page + 1) end_page
          ((bitmap_clear page s)\<lparr>total_pages := total_pages s + 1\<rparr>)
      else s)"
  by pat_completeness auto
termination
  by (relation "measure (\<lambda>(page, end_page, s). unat end_page - unat page)")
    (auto simp: unat_Suc_no_wrap word_less_nat_alt)

definition kernel_end_of :: "u32 \<Rightarrow> u32" where
  "kernel_end_of end_sym = (end_sym + PAGE_SIZE - 1) AND NOT (PAGE_SIZE - 1)"

definition pmm_init ::
  "u32 \<Rightarrow> (u32 \<Rightarrow> multiboot_mmap_entry) \<Rightarrow> multiboot_info \<Rightarrow> 'a pmm_state_scheme \<Rightarrow>
   'a pmm_state_scheme option" where
  "pmm_init end_sym rd mboot s =
     (let s1 = s\<lparr>bitmap := \<lambda>i. if i < BITMAP_SIZE then 0xFFFFFFFF else bitmap s i\<rparr>;
          kernel_end = kernel_end_of end_sym
      in do {
        s2 \<leftarrow>
          (if mb_flags mboot AND push_bit 6 1 \<noteq> 0 then
             mmap_walk rd kernel_end (mmap_addr mboot) (mmap_addr mboot + mmap_length mboot) s1
           else
             let mem_size = (mem_upper mboot + 1024) * 1024;
                 start_page = kernel_end div PAGE_SIZE;
                 end_page = mem_size div PAGE_SIZE
             in Some (free_fallback start_page end_page s1));
        Some (s2\<lparr>used_pages := 0\<rparr>)
      })"

subsection \<open>Single frames\<close>

function scan_bit :: "u32 \<Rightarrow> nat \<Rightarrow> nat option" where
  "scan_bit w j =
     (if j < 32 then if w AND push_bit j 1 = 0 then Some j else scan_bit w (j + 1) else None)"
  by pat_completeness auto
termination
  by (relation "measure (\<lambda>(w, j). 32 - j)") auto

function scan_word :: "(nat \<Rightarrow> u32) \<Rightarrow> nat \<Rightarrow> nat option" where
  "scan_word bm i =
     (if i < BITMAP_SIZE then
        if bm i \<noteq> 0xFFFFFFFF then
          (case scan_bit (bm i) 0 of
             Some j \<Rightarrow> Some (i * 32 + j)
           | None \<Rightarrow> scan_word bm (i + 1))
        else scan_word bm (i + 1)
      else None)"
  by pat_completeness auto
termination
  by (relation "measure (\<lambda>(bm, i). BITMAP_SIZE - i)") auto

definition pmm_alloc_page :: "'a pmm_state_scheme \<Rightarrow> u32 \<times> 'a pmm_state_scheme" where
  "pmm_alloc_page s =
     (case scan_word (bitmap s) 0 of
        Some p \<Rightarrow>
          (let page = of_nat p
           in (page * PAGE_SIZE, (bitmap_set page s)\<lparr>used_pages := used_pages s + 1\<rparr>))
      | None \<Rightarrow> (0, s))"

definition pmm_free_page :: "u32 \<Rightarrow> 'a pmm_state_scheme \<Rightarrow> 'a pmm_state_scheme" where
  "pmm_free_page addr s =
     (let page = addr div PAGE_SIZE
      in if bitmap_test page s
         then (bitmap_clear page s)\<lparr>used_pages := used_pages s - 1\<rparr>
         else s)"

definition pmm_get_free_pages :: "'a pmm_state_scheme \<Rightarrow> u32" where
  "pmm_get_free_pages s = total_pages s - used_pages s"

definition pmm_get_total_pages :: "'a pmm_state_scheme \<Rightarrow> u32" where
  "pmm_get_total_pages s = total_pages s"

subsection \<open>Runs of frames\<close>

text \<open>
  The test loop of \<open>pmm_alloc_pages\<close>. A frame number past the bitmap is an access outside
  the array; for a request larger than the bitmap \<open>total_avail - n\<close> wraps and the loop
  gets there.
\<close>

function can_alloc :: "u32 \<Rightarrow> u32 \<Rightarrow> u32 \<Rightarrow> 'a pmm_state_scheme \<Rightarrow> c_fault + bool" where
  "can_alloc start k n s =
     (if k < n then
        if of_nat (BITMAP_SIZE * 32) \<le> start + k then Inl OutOfBounds
        else if bitmap_test (start + k) s then Inr False
        else can_alloc start (k + 1) n s
      else Inr True)"
  by pat_completeness auto
termination
  by (relation "measure (\<lambda>(start, k, n, s). unat n - unat k)")
    (auto simp: unat_Suc_no_wrap word_less_nat_alt)

function set_range :: "u32 \<Rightarrow> u32 \<Rightarrow> u32 \<Rightarrow> 'a pmm_state_scheme \<Rightarrow> 'a pmm_state_scheme" where
  "set_range start k n s =
     (if k < n then set_range start (k + 1) n (bitmap_set (start + k) s) else s)"
  by pat_completeness auto
termination
  by (relation "measure (\<lambda>(start, k, n, s). unat n - unat k)")
    (auto simp: unat_Suc_no_wrap word_less_nat_alt)

declare free_region.simps [simp del] free_fallback.simps [simp del] scan_bit.simps [simp del]
  scan_word.simps [simp del] can_alloc.simps [simp del] set_range.simps [simp del]

lemma can_alloc_False_start:
  "can_alloc start 0 n s = Inr False \<Longrightarrow> start < 0x100000"
  by (subst (asm) can_alloc.simps) (auto simp: c_consts not_le split: if_splits)

function alloc_from ::
  "u32 \<Rightarrow> u32 \<Rightarrow> 'a pmm_state_scheme \<Rightarrow> c_fault + u32 \<times> 'a pmm_state_scheme" where
  "alloc_from start n s =
     (if start \<le> of_nat (BITMAP_SIZE * 32) - n then
        (case can_alloc start 0 n s of
           Inl f \<Rightarrow> Inl f
         | Inr True \<Rightarrow>
             (let s' = set_range start 0 n s
              in Inr (start * PAGE_SIZE, s'\<lparr>used_pages := used_pages s' + n\<rparr>))
         | Inr False \<Rightarrow> alloc_from (start + 1) n s)
      else Inr (0, s))"
  by pat_completeness auto
termination
proof (relation "measure (\<lambda>(start, n, s). 0x100000 - unat start)", goal_cases)
  case 1
  show ?case by simp
next
  case (2 start n s)
  then have "start < 0x100000" by (auto dest: can_alloc_False_start)
  from this unat_Suc_no_wrap [OF this] show ?case by (simp add: word_less_nat_alt)
qed

declare alloc_from.simps [simp del]

definition pmm_alloc_pages ::
  "u32 \<Rightarrow> 'a pmm_state_scheme \<Rightarrow> c_fault + u32 \<times> 'a pmm_state_scheme" where
  "pmm_alloc_pages n s = (if n = 0 then Inr (0, s) else alloc_from 0 n s)"

function free_loop :: "u32 \<Rightarrow> u32 \<Rightarrow> u32 \<Rightarrow> 'a pmm_state_scheme \<Rightarrow> 'a pmm_state_scheme" where
  "free_loop page i n s =
     (if i < n then
        let p = page + i
        in free_loop page (i + 1) n
             (if p < of_nat (BITMAP_SIZE * 32) \<and> bitmap_test p s
              then (bitmap_clear p s)\<lparr>used_pages := used_pages s - 1\<rparr>
              else s)
      else s)"
  by pat_completeness auto
termination
  by (relation "measure (\<lambda>(page, i, n, s). unat n - unat i)")
    (auto simp: unat_Suc_no_wrap word_less_nat_alt)

declare free_loop.simps [simp del]

definition pmm_free_pages :: "u32 \<Rightarrow> u32 \<Rightarrow> 'a pmm_state_scheme \<Rightarrow> 'a pmm_state_scheme" where
  "pmm_free_pages addr n s =
     (if n = 0 then s else free_loop (addr div PAGE_SIZE) 0 n s)"

subsection \<open>Which frames are in use\<close>

text \<open>
  The abstract view of the bitmap: \<open>page_used s p\<close> for frame number \<open>p\<close>, and the set of
  free frames. Frame numbers of 32-bit addresses are below \<open>2 ^ 20\<close>.
\<close>

abbreviation max_pages :: nat where
  "max_pages \<equiv> 0x100000"

definition page_used :: "'a pmm_state_scheme \<Rightarrow> nat \<Rightarrow> bool" where
  "page_used s p \<longleftrightarrow> bit (bitmap s (p div 32)) (p mod 32)"

definition free_pages :: "'a pmm_state_scheme \<Rightarrow> nat set" where
  "free_pages s = {p. p < max_pages \<and> \<not> page_used s p}"

lemma bitmap_test_iff [simp]: "bitmap_test page s \<longleftrightarrow> page_used s (unat page)"
  by (simp add: bitmap_test_def page_used_def and_single_bit unat_div_u32 unat_mod_u32)

lemma page_used_bitmap_set [simp]:
  "page_used (bitmap_set page s) q \<longleftrightarrow> page_used s q \<or> q = unat page"
proof -
  have "q = unat page \<longleftrightarrow> q div 32 = unat page div 32 \<and> q mod 32 = unat page mod 32"
    by (metis div_mult_mod_eq)
  then show ?thesis
    by (auto simp: page_used_def bitmap_set_def Let_def bit_or_single unat_div_u32 unat_mod_u32)
qed

lemma page_used_bitmap_clear [simp]:
  "page_used (bitmap_clear page s) q \<longleftrightarrow> page_used s q \<and> q \<noteq> unat page"
proof -
  have "q = unat page \<longleftrightarrow> q div 32 = unat page div 32 \<and> q mod 32 = unat page mod 32"
    by (metis div_mult_mod_eq)
  then show ?thesis
    by (auto simp: page_used_def bitmap_clear_def Let_def bit_and_not_single unat_div_u32
        unat_mod_u32)
qed

lemma page_used_frame [simp]:
  "page_used (s\<lparr>total_pages := t\<rparr>) = page_used s"
  "page_used (s\<lparr>used_pages := u\<rparr>) = page_used s"
  by (simp_all add: page_used_def fun_eq_iff)

lemma bitmap_set_frame [simp]:
  "total_pages (bitmap_set page s) = total_pages s"
  "used_pages (bitmap_set page s) = used_pages s"
  "total_pages (bitmap_clear page s) = total_pages s"
  "used_pages (bitmap_clear page s) = used_pages s"
  by (simp_all add: bitmap_set_def bitmap_clear_def Let_def)

text \<open>Every frame of a 32-bit address has its bit inside the array.\<close>

lemma bitmap_index_in_bounds: "unat (addr div PAGE_SIZE div 32) < BITMAP_SIZE"
  using unat_lt_u32 [of addr] by (simp add: unat_div_u32 c_consts)

lemma page_addr_inverse:
  "p < max_pages \<Longrightarrow> unat (of_nat p * PAGE_SIZE) = p * 4096"
  by (simp add: c_consts unat_word_ariths unat_of_nat)

lemma page_of_addr:
  "p < max_pages \<Longrightarrow> of_nat p * PAGE_SIZE div PAGE_SIZE = of_nat p"
  by (simp add: word_eq_iff_unat_u32 unat_div_u32 page_addr_inverse unat_of_nat)
    (simp add: c_consts)

subsection \<open>Searching\<close>

lemma scan_bit_None: "scan_bit w j = None \<longleftrightarrow> (\<forall>n. j \<le> n \<and> n < 32 \<longrightarrow> bit w n)"
proof (induction w j rule: scan_bit.induct)
  case (1 w j)
  show ?case
  proof (cases "j < 32 \<and> bit w j")
    case True
    with 1 have "scan_bit w (j + 1) = None \<longleftrightarrow> (\<forall>n. j + 1 \<le> n \<and> n < 32 \<longrightarrow> bit w n)"
      by (simp add: and_single_bit)
    with True show ?thesis
      by (subst scan_bit.simps) (simp add: and_single_bit all_from_Suc [of "bit w" j])
  next
    case False
    then show ?thesis by (subst scan_bit.simps) (auto simp: and_single_bit)
  qed
qed

lemma scan_bit_Some:
  "scan_bit w j = Some m \<Longrightarrow> j \<le> m \<and> m < 32 \<and> \<not> bit w m \<and> (\<forall>n. j \<le> n \<and> n < m \<longrightarrow> bit w n)"
proof (induction w j rule: scan_bit.induct)
  case (1 w j)
  show ?case
  proof (cases "j < 32 \<and> bit w j")
    case True
    with "1.prems" have "scan_bit w (j + 1) = Some m"
      by (subst (asm) scan_bit.simps) (simp add: and_single_bit)
    with True "1.IH" have "j + 1 \<le> m \<and> m < 32 \<and> \<not> bit w m \<and> (\<forall>n. j + 1 \<le> n \<and> n < m \<longrightarrow> bit w n)"
      by (simp add: and_single_bit)
    with True show ?thesis by (simp add: all_from_Suc [of "bit w" j])
  next
    case False
    with "1.prems" show ?thesis
      by (subst (asm) scan_bit.simps) (auto simp: and_single_bit split: if_splits)
  qed
qed

text \<open>A word with a clear bit has a lowest one, so the inner loop of the search never misses.\<close>

lemma scan_bit_0: "w \<noteq> 0xFFFFFFFF \<longleftrightarrow> (\<exists>m. scan_bit w 0 = Some m)"
  using scan_bit_None [of w 0] by (auto simp: all_ones_u32 simp flip: not_None_eq)

lemma scan_word_spec:
  "(case scan_word bm i of
      None \<Rightarrow> \<forall>q. i * 32 \<le> q \<and> q < max_pages \<longrightarrow> bit (bm (q div 32)) (q mod 32)
    | Some p \<Rightarrow> i * 32 \<le> p \<and> p < max_pages \<and> \<not> bit (bm (p div 32)) (p mod 32) \<and>
        (\<forall>q. i * 32 \<le> q \<and> q < p \<longrightarrow> bit (bm (q div 32)) (q mod 32)))"
proof (induction bm i rule: scan_word.induct)
  case (1 bm i)
  consider (out) "\<not> i < BITMAP_SIZE" | (full) "i < BITMAP_SIZE" "bm i = 0xFFFFFFFF"
    | (hit) j where "i < BITMAP_SIZE" "bm i \<noteq> 0xFFFFFFFF" "scan_bit (bm i) 0 = Some j"
    using scan_bit_0 by blast
  then show ?case
  proof cases
    case out
    then have "max_pages \<le> i * 32" by (simp add: c_consts)
    then have "\<not> (i * 32 \<le> q \<and> q < max_pages)" for q by linarith
    with out show ?thesis by (subst scan_word.simps) (simp only: if_False option.case, blast)
  next
    case full
    have ones: "bit (bm (q div 32)) (q mod 32)" if "i * 32 \<le> q" "\<not> (i + 1) * 32 \<le> q" for q
    proof -
      from that have "q div 32 = i" by (intro row_of [where j = 32]) auto
      with full(2) show ?thesis by (simp add: all_ones_u32)
    qed
    have step: "scan_word bm i = scan_word bm (i + 1)"
      using full by (subst scan_word.simps) simp
    from "1.IH"(2) full have IH: "case scan_word bm (i + 1) of
        None \<Rightarrow> \<forall>q. (i + 1) * 32 \<le> q \<and> q < max_pages \<longrightarrow> bit (bm (q div 32)) (q mod 32)
      | Some p \<Rightarrow> (i + 1) * 32 \<le> p \<and> p < max_pages \<and> \<not> bit (bm (p div 32)) (p mod 32) \<and>
          (\<forall>q. (i + 1) * 32 \<le> q \<and> q < p \<longrightarrow> bit (bm (q div 32)) (q mod 32))"
      by blast
    show ?thesis
    proof (cases "scan_word bm (i + 1)")
      case None
      with IH ones step show ?thesis by (simp only: option.case) blast
    next
      case (Some p)
      with IH have "i * 32 \<le> p" by simp
      with Some IH ones step show ?thesis by (simp only: option.case) blast
    qed
  next
    case (hit j)
    then have j: "j < 32" "\<not> bit (bm i) j" "\<And>n. n < j \<Longrightarrow> bit (bm i) n"
      using scan_bit_Some [of "bm i" 0 j] by auto
    have "scan_word bm i = Some (i * 32 + j)"
      using hit by (subst scan_word.simps) simp
    moreover have "bit (bm (q div 32)) (q mod 32)" if "i * 32 \<le> q" "q < i * 32 + j" for q
    proof -
      have "q div 32 = i" "q mod 32 < j" using row_of [OF that] j(1) by simp_all
      then show ?thesis using j(3) by simp
    qed
    ultimately show ?thesis using j hit(1) by (auto simp: c_consts)
  qed
qed

subsection \<open>Allocating and freeing one frame\<close>

lemma finite_free_pages [simp]: "finite (free_pages s)"
  by (simp add: free_pages_def)

lemma free_pages_bound: "p \<in> free_pages s \<Longrightarrow> p < max_pages"
  by (simp add: free_pages_def)

lemma free_pages_frame [simp]:
  "free_pages (s\<lparr>total_pages := t\<rparr>) = free_pages s"
  "free_pages (s\<lparr>used_pages := u\<rparr>) = free_pages s"
  by (simp_all add: free_pages_def)

lemma free_pages_set [simp]: "free_pages (bitmap_set page s) = free_pages s - {unat page}"
  by (auto simp: free_pages_def)

lemma free_pages_clear:
  "free_pages (bitmap_clear page s) =
     (if unat page < max_pages then insert (unat page) (free_pages s) else free_pages s)"
  by (auto simp: free_pages_def)

lemma pmm_alloc_page_cases:
  obtains (none) "free_pages s = {}" "pmm_alloc_page s = (0, s)"
  | (some) p where "p \<in> free_pages s" "\<And>q. q \<in> free_pages s \<Longrightarrow> p \<le> q"
      "pmm_alloc_page s =
         (of_nat p * PAGE_SIZE, (bitmap_set (of_nat p) s)\<lparr>used_pages := used_pages s + 1\<rparr>)"
proof (cases "scan_word (bitmap s) 0")
  case None
  with scan_word_spec [where bm = "bitmap s" and i = 0] have "free_pages s = {}"
    by (auto simp: free_pages_def page_used_def)
  with None none show thesis by (simp add: pmm_alloc_page_def)
next
  case (Some p)
  with scan_word_spec [where bm = "bitmap s" and i = 0] have "p \<in> free_pages s"
    and "\<And>q. q < p \<Longrightarrow> page_used s q"
    by (auto simp: free_pages_def page_used_def)
  with Some some show thesis
    by (force simp: pmm_alloc_page_def Let_def free_pages_def not_less [symmetric])
qed

text \<open>Only the three variables of the manager change.\<close>

definition pmm_only :: "'a pmm_state_scheme \<Rightarrow> 'a pmm_state_scheme \<Rightarrow> bool" where
  "pmm_only s s' \<longleftrightarrow> (\<exists>b t u. s' = s\<lparr>bitmap := b, total_pages := t, used_pages := u\<rparr>)"

lemma pmm_onlyI [intro]:
  "s' = s\<lparr>bitmap := b, total_pages := t, used_pages := u\<rparr> \<Longrightarrow> pmm_only s s'"
  unfolding pmm_only_def by blast

lemma pmm_only_refl [simp, intro]: "pmm_only s s"
  by (rule pmm_onlyI [where b = "bitmap s" and t = "total_pages s" and u = "used_pages s"]) simp

lemma pmm_only_trans [trans]: "pmm_only s s' \<Longrightarrow> pmm_only s' s'' \<Longrightarrow> pmm_only s s''"
  by (auto simp: pmm_only_def) blast

lemma pmm_only_upd [simp, intro]:
  "pmm_only s (s\<lparr>bitmap := b\<rparr>)" "pmm_only s (s\<lparr>total_pages := t\<rparr>)"
  "pmm_only s (s\<lparr>used_pages := u\<rparr>)"
  by (rule pmm_onlyI [where b = "b" and t = "total_pages s" and u = "used_pages s"], simp,
      rule pmm_onlyI [where b = "bitmap s" and t = t and u = "used_pages s"], simp,
      rule pmm_onlyI [where b = "bitmap s" and t = "total_pages s" and u = u], simp)

lemma pmm_only_bits [simp, intro]:
  "pmm_only s (bitmap_set page s)" "pmm_only s (bitmap_clear page s)"
  by (simp_all add: bitmap_set_def bitmap_clear_def Let_def)

lemma pmm_only_alloc_page: "pmm_only s (snd (pmm_alloc_page s))"
  by (cases s rule: pmm_alloc_page_cases) (auto intro: pmm_only_trans)

lemma pmm_only_free_page: "pmm_only s (pmm_free_page addr s)"
  by (auto simp: pmm_free_page_def Let_def intro: pmm_only_trans)

subsection \<open>What initialisation leaves free\<close>

text \<open>
  \<open>managed_frame kernel_end p\<close> is the guard of the initialisation loop: frame \<open>p\<close> lies above
  1 MiB and above the kernel image. \<open>entry_frames\<close> are the frames that lie completely inside
  an available region below 4 GiB and pass that guard.
\<close>

definition managed_frame :: "u32 \<Rightarrow> nat \<Rightarrow> bool" where
  "managed_frame kernel_end p \<longleftrightarrow> 0x100000 \<le> p * 4096 \<and> unat kernel_end \<le> p * 4096"

definition entry_frames :: "u32 \<Rightarrow> multiboot_mmap_entry \<Rightarrow> nat set" where
  "entry_frames kernel_end e =
     (if e_type e = 1 then
        {p. p < max_pages \<and> unat (e_addr e) \<le> p * 4096 \<and>
            (p + 1) * 4096 \<le> unat (e_addr e) + unat (e_len e) \<and> managed_frame kernel_end p}
      else {})"

lemma finite_entry_frames [simp]: "finite (entry_frames ke e)"
  by (simp add: entry_frames_def)

lemma managed_frame_word:
  fixes page :: u32
  assumes "unat page < max_pages"
  shows "(0x100000 \<le> page * PAGE_SIZE \<and> ke \<le> page * PAGE_SIZE) \<longleftrightarrow> managed_frame ke (unat page)"
  using page_addr_inverse [OF assms] by (simp add: managed_frame_def word_le_nat_alt)

lemma free_region_spec:
  assumes "unat end_page \<le> max_pages"
  shows "free_pages (free_region ke page end_page s) =
           free_pages s \<union> {p. unat page \<le> p \<and> p < unat end_page \<and> managed_frame ke p} \<and>
         total_pages (free_region ke page end_page s) =
           total_pages s +
           of_nat (card {p. unat page \<le> p \<and> p < unat end_page \<and> managed_frame ke p}) \<and>
         used_pages (free_region ke page end_page s) = used_pages s \<and>
         pmm_only s (free_region ke page end_page s)"
  using assms
proof (induction ke page end_page s rule: free_region.induct)
  case (1 ke page end_page s)
  let ?M = "\<lambda>a. {p. a \<le> p \<and> p < unat end_page \<and> managed_frame ke p}"
  let ?s = "let page_addr = page * PAGE_SIZE
            in if 0x100000 \<le> page_addr \<and> ke \<le> page_addr
               then (bitmap_clear page s)\<lparr>total_pages := total_pages s + 1\<rparr> else s"
  show ?case
  proof (cases "page < end_page")
    case False
    then have empty: "?M (unat page) = {}" by (auto simp: word_less_nat_alt)
    from False show ?thesis unfolding empty by (simp add: free_region.simps [of ke page])
  next
    case True
    then have bound: "unat page < max_pages" "unat page < unat end_page"
      using "1.prems" by (auto simp: word_less_nat_alt)
    note guard = managed_frame_word [OF bound(1), of ke]
    have M: "?M (unat page) =
        (if managed_frame ke (unat page) then insert (unat page) else id) (?M (Suc (unat page)))"
      using bound(2) by (auto simp: Suc_le_eq le_less)
    define t where "t = ?s"
    have t: "free_pages t = (if managed_frame ke (unat page) then insert (unat page) else id) (free_pages s)"
      "total_pages t = total_pages s + (if managed_frame ke (unat page) then 1 else 0)"
      "used_pages t = used_pages s" "pmm_only s t"
      using bound(1) by (auto simp: t_def Let_def guard free_pages_clear intro: pmm_only_trans)
    have step: "free_region ke page end_page s = free_region ke (page + 1) end_page t"
      using True by (subst free_region.simps) (simp add: t_def)
    show ?thesis
      using "1.IH" [OF True "1.prems", unfolded unat_Suc_no_wrap [OF True], folded t_def] t
      unfolding step M by (auto intro: pmm_only_trans)
  qed
qed

lemma round_up_frame: "(a + 4095) div 4096 \<le> p \<longleftrightarrow> a \<le> p * (4096 :: nat)"
  using div_less_iff_less_mult [of 4096 "a + 4095" "p + 1"] by (simp add: less_Suc_eq_le)

lemma round_down_frame: "p < b div 4096 \<longleftrightarrow> (p + 1) * 4096 \<le> (b :: nat)"
  using less_eq_div_iff_mult_less_eq [of 4096 "p + 1" b] by (simp add: Suc_le_eq)

lemma init_entry_pages:
  fixes addr len :: u64
  assumes "unat addr + unat len < 2 ^ 64" and "addr < 0x100000000"
  defines "len' \<equiv> (if addr + len > 0x100000000 then 0x100000000 - addr else len)"
  shows "unat (ucast ((addr + 4096 - 1) div 4096) :: u32) = (unat addr + 4095) div 4096"
    and "unat (ucast ((addr + len') div 4096) :: u32) = min (unat addr + unat len) (2 ^ 32) div 4096"
proof -
  have a: "unat addr < 2 ^ 32" using assms(2) by (simp add: word_less_nat_alt)
  have sum: "unat (addr + len) = unat addr + unat len"
    using assms(1) by (simp add: unat_word_ariths)
  have up: "unat (addr + 4096 - 1) = unat addr + 4095"
    using a by (simp add: unat_word_ariths flip: add_diff_eq)
  have fits: "unat ((x :: u64) div 4096) < 2 ^ 32" if "unat x \<le> 2 ^ 32 + 4095" for x
    using that by (simp add: unat_div)
  show "unat (ucast ((addr + 4096 - 1) div 4096) :: u32) = (unat addr + 4095) div 4096"
    using fits [of "addr + 4096 - 1"] a up by (simp add: unsigned_ucast_eq take_bit_nat_eq_self unat_div)
  have "unat (addr + len') = min (unat addr + unat len) (2 ^ 32)"
    using sum by (auto simp: len'_def word_less_nat_alt min_def)
  then show "unat (ucast ((addr + len') div 4096) :: u32) =
      min (unat addr + unat len) (2 ^ 32) div 4096"
    using fits [of "addr + len'"] by (simp add: unsigned_ucast_eq take_bit_nat_eq_self unat_div)
qed

lemma init_entry_spec:
  assumes nw: "unat (e_addr e) + unat (e_len e) < 2 ^ 64"
  shows "free_pages (init_entry ke e s) = free_pages s \<union> entry_frames ke e \<and>
         total_pages (init_entry ke e s) = total_pages s + of_nat (card (entry_frames ke e)) \<and>
         used_pages (init_entry ke e s) = used_pages s \<and> pmm_only s (init_entry ke e s)"
proof (cases "e_type e = 1 \<and> e_addr e < 0x100000000")
  case True
  note pg = init_entry_pages [OF nw conjunct2 [OF True]]
  have eq: "{p. (unat (e_addr e) + 4095) div 4096 \<le> p \<and>
              p < min (unat (e_addr e) + unat (e_len e)) (2 ^ 32) div 4096 \<and> managed_frame ke p} =
            entry_frames ke e"
    using True by (auto simp: entry_frames_def round_up_frame round_down_frame)
  have "min (unat (e_addr e) + unat (e_len e)) (2 ^ 32) div 4096 \<le> max_pages"
    by (simp add: min_def div_le_mono [of _ "2 ^ 32" 4096, simplified])
  then show ?thesis
    using True free_region_spec [of "ucast ((e_addr e + (if e_addr e + e_len e > 0x100000000
          then 0x100000000 - e_addr e else e_len e)) div 4096)" ke
        "ucast ((e_addr e + 4096 - 1) div 4096)" s]
    unfolding pg eq by (simp add: init_entry_def Let_def)
next
  case False
  have "entry_frames ke e = {}"
  proof (cases "e_type e = 1")
    case True
    with False have "max_pages * 4096 \<le> unat (e_addr e)" by (simp add: word_less_nat_alt)
    then show ?thesis by (auto simp: entry_frames_def)
  qed (simp add: entry_frames_def)
  with False show ?thesis by (auto simp: init_entry_def Let_def)
qed

text \<open>
  \<open>mmap_chain rd a e es\<close>: from address \<open>a\<close> the walk meets exactly the entries \<open>es\<close> before it
  reaches \<open>e\<close>. It is what a boot loader that fills the buffer with whole entries provides.
\<close>

fun mmap_chain ::
  "(u32 \<Rightarrow> multiboot_mmap_entry) \<Rightarrow> u32 \<Rightarrow> u32 \<Rightarrow> multiboot_mmap_entry list \<Rightarrow> bool" where
  "mmap_chain rd a e [] \<longleftrightarrow> e \<le> a"
| "mmap_chain rd a e (x # xs) \<longleftrightarrow>
     a < e \<and> rd a = x \<and> unat (e_addr x) + unat (e_len x) < 2 ^ 64 \<and>
     mmap_chain rd (a + e_size x + 4) e xs"

definition usable_frames :: "u32 \<Rightarrow> multiboot_mmap_entry list \<Rightarrow> nat set" where
  "usable_frames ke es = (\<Union>e \<in> set es. entry_frames ke e)"

lemma mmap_walk_spec:
  assumes "mmap_chain rd a end es"
  shows "\<exists>s'. mmap_walk rd ke a end s = Some s' \<and>
           free_pages s' = free_pages s \<union> usable_frames ke es \<and>
           total_pages s' = total_pages s + of_nat (\<Sum>e\<leftarrow>es. card (entry_frames ke e)) \<and>
           used_pages s' = used_pages s \<and> pmm_only s s'"
  using assms
proof (induction es arbitrary: a s)
  case Nil
  then show ?case by (subst mmap_walk.simps) (auto simp: usable_frames_def)
next
  case (Cons x xs)
  note entry = init_entry_spec [of x ke s]
  from Cons.prems have step:
    "mmap_walk rd ke a end s = mmap_walk rd ke (a + e_size x + 4) end (init_entry ke x s)"
    by (subst mmap_walk.simps) simp
  from Cons.prems Cons.IH [of "a + e_size x + 4" "init_entry ke x s"] entry show ?case
    unfolding step by (auto simp: usable_frames_def add.assoc intro: pmm_only_trans)
qed

lemma no_free_pages_all_ones:
  "free_pages (s\<lparr>bitmap := \<lambda>i. if i < BITMAP_SIZE then 0xFFFFFFFF else f i\<rparr>) = {}"
proof -
  have "page_used (s\<lparr>bitmap := \<lambda>i. if i < BITMAP_SIZE then 0xFFFFFFFF else f i\<rparr>) p"
    if "p < max_pages" for p
  proof -
    from that have "p div 32 < BITMAP_SIZE" by (simp add: c_consts div_less_iff_less_mult)
    then show ?thesis
      using all_ones_u32 [of "0xFFFFFFFF"] by (simp add: page_used_def)
  qed
  then show ?thesis by (auto simp: free_pages_def)
qed

lemma usable_not_low: "p \<in> usable_frames ke es \<Longrightarrow> 256 \<le> p \<and> p < max_pages \<and> unat ke \<le> p * 4096"
  by (auto simp: usable_frames_def entry_frames_def managed_frame_def split: if_splits)

subsection \<open>The accounting invariant\<close>

text \<open>
  \<open>pmm_inv M s\<close>: the manager owns the frames \<open>M\<close>. Frame 0 is not one of them, so that address
  0 can mean failure; only owned frames are ever free; and the two counters agree with the
  bitmap.
\<close>

definition pmm_inv :: "nat set \<Rightarrow> 'a pmm_state_scheme \<Rightarrow> bool" where
  "pmm_inv M s \<longleftrightarrow>
     M \<subseteq> {0<..<max_pages} \<and> free_pages s \<subseteq> M \<and>
     total_pages s = of_nat (card M) \<and> used_pages s = of_nat (card (M - free_pages s))"

lemma pmm_inv_finite: "pmm_inv M s \<Longrightarrow> finite M"
  by (auto simp: pmm_inv_def intro: finite_subset)

lemma pmm_inv_card:
  assumes "pmm_inv M s"
  shows "card M < max_pages"
proof -
  from assms have "M \<subseteq> {0<..<max_pages}" by (simp add: pmm_inv_def)
  then have "card M \<le> card {0<..<max_pages}" by (rule card_mono [rotated]) simp
  then show ?thesis by simp
qed

lemma pmm_init_mmap_spec:
  fixes s :: "'a pmm_state_scheme"
  assumes flags: "bit (mb_flags mboot) 6"
    and chain: "mmap_chain rd (mmap_addr mboot) (mmap_addr mboot + mmap_length mboot) es"
  shows "\<exists>s'. pmm_init end_sym rd mboot s = Some s' \<and>
           free_pages s' = usable_frames (kernel_end_of end_sym) es \<and>
           total_pages s' = total_pages s +
             of_nat (\<Sum>e\<leftarrow>es. card (entry_frames (kernel_end_of end_sym) e)) \<and>
           used_pages s' = 0 \<and> pmm_only s s'"
proof -
  define s1 where "s1 = s\<lparr>bitmap := \<lambda>i. if i < BITMAP_SIZE then 0xFFFFFFFF else bitmap s i\<rparr>"
  have s1: "free_pages s1 = {}" "total_pages s1 = total_pages s" "pmm_only s s1"
    by (simp_all add: s1_def no_free_pages_all_ones)
  from mmap_walk_spec [OF chain, of "kernel_end_of end_sym" s1] s1
  obtain s2 where s2: "mmap_walk rd (kernel_end_of end_sym) (mmap_addr mboot)
        (mmap_addr mboot + mmap_length mboot) s1 = Some s2"
      "free_pages s2 = usable_frames (kernel_end_of end_sym) es"
      "total_pages s2 = total_pages s +
         of_nat (\<Sum>e\<leftarrow>es. card (entry_frames (kernel_end_of end_sym) e))"
      "pmm_only s s2"
    by (auto intro: pmm_only_trans)
  have "mb_flags mboot AND 64 \<noteq> 0"
    using flags and_single_bit [of "mb_flags mboot" 6] by simp
  with s2 show ?thesis
    by (auto simp: pmm_init_def Let_def s1_def [symmetric] intro: pmm_only_trans)
qed

lemma pmm_inv_alloc_page:
  assumes inv: "pmm_inv M s"
  shows "pmm_inv M (snd (pmm_alloc_page s))"
proof (cases s rule: pmm_alloc_page_cases)
  case none
  with inv show ?thesis by simp
next
  case (some p)
  from inv some have p: "p \<in> M" "finite M" by (auto simp: pmm_inv_def intro: finite_subset)
  have "M - (free_pages s - {p}) = insert p (M - free_pages s)" using p by auto
  with p some(1) have "card (M - (free_pages s - {p})) = Suc (card (M - free_pages s))"
    by simp
  with inv some p show ?thesis
    using free_pages_bound [OF some(1)] by (auto simp: pmm_inv_def unat_of_nat)
qed

lemma pmm_inv_free_page:
  assumes inv: "pmm_inv M s" and own: "unat addr div 4096 \<in> M"
  shows "pmm_inv M (pmm_free_page addr s)"
proof -
  let ?p = "unat (addr div PAGE_SIZE)"
  have p: "?p \<in> M" "?p < max_pages" "finite M"
    using inv own by (auto simp: pmm_inv_def unat_div_u32 c_consts intro: finite_subset)
  show ?thesis
  proof (cases "page_used s ?p")
    case False
    with inv show ?thesis by (simp add: pmm_free_page_def Let_def)
  next
    case True
    with p have "?p \<in> M - free_pages s" by (simp add: free_pages_def)
    then have "card (M - free_pages s) = Suc (card ((M - free_pages s) - {?p}))"
      using p(3) by (metis card.remove finite_Diff)
    moreover have "M - insert ?p (free_pages s) = (M - free_pages s) - {?p}" by auto
    ultimately show ?thesis
      using inv True p by (auto simp: pmm_inv_def pmm_free_page_def Let_def free_pages_clear)
  qed
qed

text \<open>Under the invariant the counters never wrap, and address 0 means that nothing is free.\<close>

lemma pmm_inv_free_count:
  assumes "pmm_inv M s"
  shows "unat (pmm_get_free_pages s) = card (free_pages s)"
proof -
  from assms have sub: "free_pages s \<subseteq> M" and fin: "finite M"
    by (auto simp: pmm_inv_def intro: finite_subset)
  have "card (M - free_pages s) + card (free_pages s) = card M"
    using card_Diff_subset [of "free_pages s" M] sub fin card_mono [OF fin sub] by simp
  then have "(of_nat (card M) :: u32) - of_nat (card (M - free_pages s)) = of_nat (card (free_pages s))"
    by (metis add_diff_cancel_left' of_nat_add)
  moreover have "card (free_pages s) < max_pages"
    using card_mono [OF fin sub] pmm_inv_card [OF assms] by simp
  ultimately show ?thesis
    using assms by (simp add: pmm_get_free_pages_def pmm_inv_def unat_of_nat)
qed

lemma pmm_inv_alloc_zero:
  assumes "pmm_inv M s"
  shows "fst (pmm_alloc_page s) = 0 \<longleftrightarrow> free_pages s = {}"
proof (cases s rule: pmm_alloc_page_cases)
  case none
  then show ?thesis by simp
next
  case (some p)
  then have "0 < p" "p < max_pages" using assms by (auto simp: pmm_inv_def)
  then have "unat (of_nat p * PAGE_SIZE) \<noteq> 0" by (simp add: page_addr_inverse)
  then have "of_nat p * PAGE_SIZE \<noteq> 0" by (metis unsigned_0)
  with some show ?thesis by auto
qed

subsection \<open>Runs of frames\<close>

abbreviation run_free :: "'a pmm_state_scheme \<Rightarrow> nat \<Rightarrow> nat \<Rightarrow> bool" where
  "run_free s st n \<equiv> {st..<st + n} \<subseteq> free_pages s"

lemma can_alloc_spec:
  assumes "unat start + unat n \<le> max_pages"
  shows "can_alloc start k n s =
           Inr ({unat start + unat k..<unat start + unat n} \<subseteq> free_pages s)"
  using assms
proof (induction start k n s rule: can_alloc.induct)
  case (1 start k n s)
  show ?case
  proof (cases "k < n")
    case False
    then show ?thesis by (subst can_alloc.simps) (auto simp: word_less_nat_alt)
  next
    case True
    then have kn: "unat k < unat n" by (simp add: word_less_nat_alt)
    with 1 have sum: "unat (start + k) = unat start + unat k"
      by (intro unat_add_no_wrap) simp
    then have inb: "\<not> of_nat (BITMAP_SIZE * 32) \<le> start + k"
      using "1.prems" kn by (simp add: c_consts word_le_nat_alt)
    have used: "bitmap_test (start + k) s \<longleftrightarrow> unat start + unat k \<notin> free_pages s"
      using "1.prems" kn by (simp add: sum free_pages_def)
    have range: "{unat start + unat k..<unat start + unat n} =
        insert (unat start + unat k) {Suc (unat start + unat k)..<unat start + unat n}"
      using kn by auto
    show ?thesis
      using "1.IH" [OF True inb] "1.prems" True inb used
      by (subst can_alloc.simps) (auto simp: range unat_Suc_no_wrap [OF True])
  qed
qed

lemma set_range_spec:
  assumes "unat start + unat n \<le> max_pages"
  shows "free_pages (set_range start k n s) =
           free_pages s - {unat start + unat k..<unat start + unat n} \<and>
         total_pages (set_range start k n s) = total_pages s \<and>
         used_pages (set_range start k n s) = used_pages s \<and> pmm_only s (set_range start k n s)"
  using assms
proof (induction start k n s rule: set_range.induct)
  case (1 start k n s)
  show ?case
  proof (cases "k < n")
    case False
    then show ?thesis by (subst (1 2 3 4) set_range.simps) (auto simp: word_less_nat_alt)
  next
    case True
    then have kn: "unat k < unat n" by (simp add: word_less_nat_alt)
    with 1 have sum: "unat (start + k) = unat start + unat k"
      by (intro unat_add_no_wrap) simp
    have range: "{unat start + unat k..<unat start + unat n} =
        insert (unat start + unat k) {Suc (unat start + unat k)..<unat start + unat n}"
      using kn by auto
    have step: "set_range start k n s = set_range start (k + 1) n (bitmap_set (start + k) s)"
      using True by (subst set_range.simps) simp
    show ?thesis
      using "1.IH" [OF True "1.prems"] unfolding step range
      by (auto simp: unat_Suc_no_wrap [OF True] sum intro: pmm_only_trans)
  qed
qed

text \<open>A request of \<open>n\<close> frames is granted at the lowest place where \<open>n\<close> frames in a row are free.\<close>

definition granted_run ::
  "'a pmm_state_scheme \<Rightarrow> u32 \<Rightarrow> nat \<Rightarrow> c_fault + u32 \<times> 'a pmm_state_scheme \<Rightarrow> bool" where
  "granted_run s n st r \<longleftrightarrow>
     (\<exists>s'. r = Inr (of_nat st * PAGE_SIZE, s') \<and> run_free s st (unat n) \<and>
        free_pages s' = free_pages s - {st..<st + unat n} \<and>
        used_pages s' = used_pages s + n \<and> total_pages s' = total_pages s \<and> pmm_only s s')"

lemma run_free_bound: "run_free s st n \<Longrightarrow> 0 < n \<Longrightarrow> st + n \<le> max_pages"
proof -
  assume "run_free s st n" and "0 < n"
  then have "st + n - 1 \<in> free_pages s" by (auto dest!: subsetD [where c = "st + n - 1"])
  then have "st + n - 1 < max_pages" by (rule free_pages_bound)
  then show ?thesis by linarith
qed

lemma alloc_from_spec:
  assumes "0 < unat n" "unat n \<le> max_pages"
  shows "(\<forall>st \<ge> unat start. \<not> run_free s st (unat n)) \<and> alloc_from start n s = Inr (0, s) \<or>
         (\<exists>st \<ge> unat start. granted_run s n st (alloc_from start n s) \<and>
            (\<forall>t. unat start \<le> t \<and> t < st \<longrightarrow> \<not> run_free s t (unat n)))"
  using assms
proof (induction start n s rule: alloc_from.induct)
  case (1 start n s)
  have lim: "unat (of_nat (BITMAP_SIZE * 32) - n :: u32) = max_pages - unat n"
    using "1.prems" by (subst unat_sub_no_wrap) (simp_all add: c_consts word_le_nat_alt)
  show ?case
  proof (cases "start \<le> of_nat (BITMAP_SIZE * 32) - n")
    case False
    then have "max_pages < unat start + unat n"
      using lim by (simp add: word_le_nat_alt)
    then have "\<not> run_free s st (unat n)" if "unat start \<le> st" for st
      using run_free_bound [of st "unat n" s] "1.prems"(1) that by linarith
    with False show ?thesis by (subst alloc_from.simps) simp
  next
    case True
    then have fit: "unat start + unat n \<le> max_pages"
      using lim "1.prems" by (simp add: word_le_nat_alt)
    note test = can_alloc_spec [OF fit, of 0 s]
    show ?thesis
    proof (cases "run_free s (unat start) (unat n)")
      case run: True
      have "granted_run s n (unat start) (alloc_from start n s)"
        using True run test set_range_spec [OF fit, of 0 s]
        by (subst alloc_from.simps) (auto simp: granted_run_def Let_def intro: pmm_only_trans)
      then show ?thesis by auto
    next
      case run: False
      have step: "alloc_from start n s = alloc_from (start + 1) n s"
        using True run test by (subst alloc_from.simps) simp
      have "start < 0x100000" using fit "1.prems" by (simp add: word_less_nat_alt)
      then have suc: "unat (start + 1) = Suc (unat start)" by (rule unat_Suc_no_wrap)
      have "can_alloc start 0 n s = Inr False" using run test by simp
      from "1.IH" [OF True this] "1.prems"
      consider (no) "\<forall>st \<ge> Suc (unat start). \<not> run_free s st (unat n)"
          "alloc_from start n s = Inr (0, s)"
        | (yes) st where "Suc (unat start) \<le> st" "granted_run s n st (alloc_from start n s)"
          "\<forall>t. Suc (unat start) \<le> t \<and> t < st \<longrightarrow> \<not> run_free s t (unat n)"
        unfolding suc step by auto
      then show ?thesis
      proof cases
        case no
        have "\<not> run_free s st (unat n)" if "unat start \<le> st" for st
          using no(1) run that by (cases "st = unat start") (auto simp del: subset_iff)
        with no(2) show ?thesis by blast
      next
        case (yes st)
        have "\<not> run_free s t (unat n)" if "unat start \<le> t" "t < st" for t
          using yes(3) run that by (cases "t = unat start") auto
        moreover have "unat start \<le> st" using yes(1) by simp
        ultimately show ?thesis using yes(2) by blast
      qed
    qed
  qed
qed

lemma free_loop_spec:
  assumes "unat page + unat n \<le> max_pages"
  shows "free_pages (free_loop page i n s) =
           free_pages s \<union> {unat page + unat i..<unat page + unat n} \<and>
         total_pages (free_loop page i n s) = total_pages s \<and>
         used_pages (free_loop page i n s) =
           used_pages s - of_nat (card ({unat page + unat i..<unat page + unat n} - free_pages s)) \<and>
         pmm_only s (free_loop page i n s)"
  using assms
proof (induction page i n s rule: free_loop.induct)
  case (1 page i n s)
  show ?case
  proof (cases "i < n")
    case False
    then show ?thesis by (subst (1 2 3 4) free_loop.simps) (auto simp: word_less_nat_alt)
  next
    case True
    let ?p = "unat page + unat i"
    from True have i: "unat i < unat n" by (simp add: word_less_nat_alt)
    with 1 have sum: "unat (page + i) = ?p" by (intro unat_add_no_wrap) simp
    have inb: "page + i < of_nat (BITMAP_SIZE * 32)"
      using "1.prems" i by (simp add: c_consts word_less_nat_alt sum)
    define t where "t = (if page + i < of_nat (BITMAP_SIZE * 32) \<and> bitmap_test (page + i) s
              then (bitmap_clear (page + i) s)\<lparr>used_pages := used_pages s - 1\<rparr> else s)"
    have t: "free_pages t = insert ?p (free_pages s)" "total_pages t = total_pages s"
      "used_pages t = used_pages s - (if ?p \<in> free_pages s then 0 else 1)" "pmm_only s t"
      using "1.prems" i inb
      by (auto simp: t_def sum free_pages_clear free_pages_def intro: pmm_only_trans)
    have step: "free_loop page i n s = free_loop page (i + 1) n t"
      using True by (subst free_loop.simps) (simp add: t_def Let_def)
    have range: "{?p..<unat page + unat n} = insert ?p {Suc ?p..<unat page + unat n}"
      using i by auto
    have "insert ?p {Suc ?p..<unat page + unat n} - free_pages s =
        (if ?p \<in> free_pages s then id else insert ?p)
          ({Suc ?p..<unat page + unat n} - insert ?p (free_pages s))"
      by auto
    then show ?thesis
      using "1.IH" [OF True refl, folded t_def, OF "1.prems"] t unfolding step range
      by (auto simp: unat_Suc_no_wrap [OF True] intro: pmm_only_trans)
  qed
qed

text \<open>
  For a request larger than the bitmap, every start either meets a frame in use or runs off
  the end of the array.
\<close>

lemma can_alloc_oversize:
  assumes "unat start + unat k \<le> max_pages" "max_pages < unat start + unat n"
  shows "can_alloc start k n s = Inl OutOfBounds \<or>
         can_alloc start k n s = Inr False \<and> unat start < max_pages"
  using assms
proof (induction start k n s rule: can_alloc.induct)
  case (1 start k n s)
  then have kn: "k < n" by (simp add: word_less_nat_alt)
  have sum: "unat (start + k) = unat start + unat k"
    using "1.prems"(1) by (intro unat_add_no_wrap) simp
  show ?case
  proof (cases "of_nat (BITMAP_SIZE * 32) \<le> start + k \<or> bitmap_test (start + k) s")
    case True
    show ?thesis
    proof (cases "of_nat (BITMAP_SIZE * 32) \<le> start + k")
      case oob: True
      with kn show ?thesis by (subst (1) can_alloc.simps) simp
    next
      case inb: False
      then have "unat start < max_pages" by (simp add: c_consts word_le_nat_alt sum)
      with kn inb True show ?thesis by (subst (1 2) can_alloc.simps) simp
    qed
  next
    case False
    then have "unat start + Suc (unat k) \<le> max_pages"
      by (simp add: c_consts word_le_nat_alt sum)
    with "1.IH" [OF kn] False "1.prems"(2) kn show ?thesis
      by (subst (1 2) can_alloc.simps) (simp add: unat_Suc_no_wrap [OF kn])
  qed
qed

lemma alloc_from_oversize:
  assumes "max_pages < unat n" "unat start \<le> max_pages"
  shows "alloc_from start n s = Inl OutOfBounds"
  using assms
proof (induction start n s rule: alloc_from.induct)
  case (1 start n s)
  have "unat (of_nat (BITMAP_SIZE * 32) - n :: u32) = 2 ^ 32 + max_pages - unat n"
    using "1.prems"(1) unat_lt_u32 [of n] by (simp add: c_consts unat_sub_if' word_le_nat_alt)
  then have in_loop: "start \<le> of_nat (BITMAP_SIZE * 32) - n"
    using "1.prems" unat_lt_u32 [of n] by (simp add: word_le_nat_alt)
  consider (oob) "can_alloc start 0 n s = Inl OutOfBounds"
    | (used) "can_alloc start 0 n s = Inr False" "unat start < max_pages"
    using can_alloc_oversize [of start 0 n s] "1.prems" by auto
  then show ?case
  proof cases
    case oob
    with in_loop show ?thesis by (subst alloc_from.simps) simp
  next
    case used
    then have "start < 0x100000" by (simp add: word_less_nat_alt)
    then have "unat (start + 1) \<le> max_pages" using used(2) by (simp add: unat_Suc_no_wrap)
    with "1.IH" [OF in_loop used(1)] "1.prems"(1)
    have "alloc_from (start + 1) n s = Inl OutOfBounds" by simp
    with in_loop used(1) show ?thesis by (subst alloc_from.simps) simp
  qed
qed

subsection \<open>The frame source interface\<close>

text \<open>
  What paging, the heap and the program loader rely on: an allocation either fails with
  address 0 and changes nothing, or hands out a frame that was free and is not free any more.
\<close>

fun alloc_seq :: "('s \<Rightarrow> u32 \<times> 's) \<Rightarrow> nat \<Rightarrow> 's \<Rightarrow> u32 list \<times> 's" where
  "alloc_seq alloc 0 s = ([], s)"
| "alloc_seq alloc (Suc n) s =
     (let (a, s1) = alloc s; (as, s2) = alloc_seq alloc n s1 in (a # as, s2))"

lemma alloc_seq_Suc:
  "alloc_seq alloc (Suc n) s =
     (fst (alloc s) # fst (alloc_seq alloc n (snd (alloc s))),
      snd (alloc_seq alloc n (snd (alloc s))))"
  by (simp add: Let_def split: prod.split)

locale frame_source =
  fixes alloc :: "'s \<Rightarrow> u32 \<times> 's"
    and frees :: "'s \<Rightarrow> nat set"
    and ok :: "'s \<Rightarrow> bool"
  assumes alloc_ok: "ok s \<Longrightarrow> ok (snd (alloc s))"
    and alloc_fail: "ok s \<Longrightarrow> fst (alloc s) = 0 \<Longrightarrow> snd (alloc s) = s \<and> frees s = {}"
    and alloc_frame: "ok s \<Longrightarrow> fst (alloc s) \<noteq> 0 \<Longrightarrow>
          unat (fst (alloc s)) mod 4096 = 0 \<and> unat (fst (alloc s)) div 4096 \<in> frees s \<and>
          frees (snd (alloc s)) = frees s - {unat (fst (alloc s)) div 4096}"
begin

lemma alloc_frees_mono: "ok s \<Longrightarrow> frees (snd (alloc s)) \<subseteq> frees s"
  using alloc_fail [of s] alloc_frame [of s] by (cases "fst (alloc s) = 0") auto

lemma alloc_seq_ok: "ok s \<Longrightarrow> ok (snd (alloc_seq alloc n s))"
  by (induction n arbitrary: s) (auto simp: alloc_seq_Suc simp del: alloc_seq.simps(2) dest: alloc_ok)

lemma alloc_seq_fresh:
  assumes "ok s" "0 \<notin> set (fst (alloc_seq alloc n s))"
  shows "distinct (fst (alloc_seq alloc n s)) \<and>
         (\<forall>a \<in> set (fst (alloc_seq alloc n s)). unat a mod 4096 = 0 \<and> unat a div 4096 \<in> frees s)"
  using assms
proof (induction n arbitrary: s)
  case 0
  then show ?case by simp
next
  case (Suc n)
  obtain a s1 where a: "alloc s = (a, s1)" by fastforce
  obtain as s2 where as: "alloc_seq alloc n s1 = (as, s2)" by fastforce
  from Suc.prems a as have nz: "a \<noteq> 0" "0 \<notin> set as" by (auto simp: Let_def)
  from alloc_frame [OF Suc.prems(1)] a nz have fr: "unat a mod 4096 = 0" "unat a div 4096 \<in> frees s"
    "frees s1 = frees s - {unat a div 4096}" by auto
  from alloc_ok [OF Suc.prems(1)] a have "ok s1" by simp
  with Suc.IH [of s1] as nz fr(3) have
    "distinct as" "\<forall>b \<in> set as. unat b mod 4096 = 0 \<and> unat b div 4096 \<in> frees s - {unat a div 4096}"
    by auto
  with fr a as show ?case by (auto simp: Let_def)
qed

lemma alloc_seq_success:
  assumes "ok s" "n \<le> card (frees s)" "finite (frees s)"
  shows "0 \<notin> set (fst (alloc_seq alloc n s))"
  using assms
proof (induction n arbitrary: s)
  case 0
  then show ?case by simp
next
  case (Suc n)
  then have "frees s \<noteq> {}" by auto
  with alloc_fail [OF Suc.prems(1)] have nz: "fst (alloc s) \<noteq> 0" by blast
  from alloc_frame [OF Suc.prems(1) nz] Suc.prems
  have "n \<le> card (frees (snd (alloc s)))" "finite (frees (snd (alloc s)))" by auto
  with Suc.IH [of "snd (alloc s)"] alloc_ok [OF Suc.prems(1)] nz show ?case
    by (simp add: alloc_seq_Suc del: alloc_seq.simps(2))
qed

end

lemma pmm_alloc_page_frame:
  assumes "pmm_inv M s" "fst (pmm_alloc_page s) \<noteq> 0"
  shows "unat (fst (pmm_alloc_page s)) mod 4096 = 0 \<and>
         unat (fst (pmm_alloc_page s)) div 4096 \<in> free_pages s \<and>
         free_pages (snd (pmm_alloc_page s)) =
           free_pages s - {unat (fst (pmm_alloc_page s)) div 4096}"
proof (cases s rule: pmm_alloc_page_cases)
  case none
  with assms show ?thesis by simp
next
  case (some p)
  then have "p < max_pages" by (simp add: free_pages_bound)
  with some show ?thesis by (simp add: page_addr_inverse unat_of_nat)
qed

interpretation pmm_frames: frame_source pmm_alloc_page free_pages "pmm_inv M" for M
proof
  fix s :: "'a pmm_state_scheme"
  assume inv: "pmm_inv M s"
  show "pmm_inv M (snd (pmm_alloc_page s))" by (rule pmm_inv_alloc_page [OF inv])
  show "fst (pmm_alloc_page s) = 0 \<Longrightarrow> snd (pmm_alloc_page s) = s \<and> free_pages s = {}"
    using pmm_inv_alloc_zero [OF inv] by (cases s rule: pmm_alloc_page_cases) auto
  show "fst (pmm_alloc_page s) \<noteq> 0 \<Longrightarrow>
      unat (fst (pmm_alloc_page s)) mod 4096 = 0 \<and>
      unat (fst (pmm_alloc_page s)) div 4096 \<in> free_pages s \<and>
      free_pages (snd (pmm_alloc_page s)) =
        free_pages s - {unat (fst (pmm_alloc_page s)) div 4096}"
    by (rule pmm_alloc_page_frame [OF inv])
qed

subsection \<open>Runs of operations\<close>

text \<open>
  The steps other code can make, with the obligation of the caller: only frames of the
  manager are given back.
\<close>

inductive pmm_step :: "nat set \<Rightarrow> 'a pmm_state_scheme \<Rightarrow> 'a pmm_state_scheme \<Rightarrow> bool" for M where
  alloc_one: "pmm_step M s (snd (pmm_alloc_page s))"
| free_one: "unat addr div 4096 \<in> M \<Longrightarrow> pmm_step M s (pmm_free_page addr s)"
| alloc_run: "pmm_alloc_pages n s = Inr (r, s') \<Longrightarrow> pmm_step M s s'"
| free_run: "(\<forall>i < unat n. unat addr div 4096 + i \<in> M) \<Longrightarrow> pmm_step M s (pmm_free_pages addr n s)"

lemma pmm_alloc_pages_cases:
  assumes "unat n \<le> max_pages"
  obtains (none) "pmm_alloc_pages n s = Inr (0, s)"
      "n = 0 \<or> (\<forall>st. \<not> run_free s st (unat n))"
  | (run) st where "granted_run s n st (pmm_alloc_pages n s)" "n \<noteq> 0"
      "\<And>t. t < st \<Longrightarrow> \<not> run_free s t (unat n)"
proof (cases "n = 0")
  case True
  with none show thesis by (simp add: pmm_alloc_pages_def)
next
  case False
  then have "0 < unat n" by (simp add: unat_gt_0)
  from alloc_from_spec [OF this assms, of 0 s] False none run show thesis
    by (auto simp: pmm_alloc_pages_def)
qed

lemma pmm_alloc_pages_oversize:
  "max_pages < unat n \<Longrightarrow> pmm_alloc_pages n s = Inl OutOfBounds"
  using alloc_from_oversize [of n 0 s] by (auto simp: pmm_alloc_pages_def)

lemma pmm_inv_alloc_pages:
  assumes inv: "pmm_inv M s" and res: "pmm_alloc_pages n s = Inr (r, s')"
  shows "pmm_inv M s'"
proof -
  have "unat n \<le> max_pages"
    using pmm_alloc_pages_oversize [of n s] res by (cases "max_pages < unat n") auto
  then show ?thesis
  proof (cases rule: pmm_alloc_pages_cases [of n s])
    case none
    with inv res show ?thesis by simp
  next
    case (run st)
    let ?R = "{st..<st + unat n}"
    from run res have R: "?R \<subseteq> free_pages s" "free_pages s' = free_pages s - ?R"
      "used_pages s' = used_pages s + n" "total_pages s' = total_pages s"
      by (auto simp: granted_run_def)
    have "M - free_pages s' = (M - free_pages s) \<union> ?R"
      using R inv by (auto simp: pmm_inv_def)
    moreover have "(M - free_pages s) \<inter> ?R = {}" using R by auto
    ultimately have "card (M - free_pages s') = card (M - free_pages s) + unat n"
      using pmm_inv_finite [OF inv] by (simp add: card_Un_disjoint)
    with R inv show ?thesis by (auto simp: pmm_inv_def)
  qed
qed

lemma pmm_inv_free_pages:
  assumes inv: "pmm_inv M s" and own: "\<forall>i < unat n. unat addr div 4096 + i \<in> M"
  shows "pmm_inv M (pmm_free_pages addr n s)"
proof (cases "n = 0")
  case True
  with inv show ?thesis by (simp add: pmm_free_pages_def)
next
  case False
  let ?p = "unat (addr div PAGE_SIZE)"
  let ?R = "{?p..<?p + unat n}"
  have p: "?p = unat addr div 4096" by (simp add: unat_div_u32 c_consts)
  have own': "?R \<subseteq> M"
  proof
    fix q assume "q \<in> ?R"
    then have "q - ?p < unat n" "q = ?p + (q - ?p)" by auto
    with own show "q \<in> M" unfolding p by metis
  qed
  moreover have "0 < unat n" using False by (simp add: unat_gt_0)
  ultimately have "?p + unat n - 1 \<in> M" by auto
  then have "?p + unat n - 1 < max_pages" using inv by (auto simp: pmm_inv_def dest: subsetD)
  then have fit: "?p + unat n \<le> max_pages" by linarith
  have "M - free_pages s = (M - (free_pages s \<union> ?R)) \<union> (?R - free_pages s)"
    using own' by auto
  moreover have "(M - (free_pages s \<union> ?R)) \<inter> (?R - free_pages s) = {}" by auto
  ultimately have "card (M - free_pages s) =
      card (M - (free_pages s \<union> ?R)) + card (?R - free_pages s)"
    using pmm_inv_finite [OF inv] by (simp add: card_Un_disjoint)
  with free_loop_spec [OF fit, of 0 s] inv own' False show ?thesis
    by (simp add: pmm_free_pages_def pmm_inv_def)
qed

lemma pmm_inv_step: "pmm_step M s s' \<Longrightarrow> pmm_inv M s \<Longrightarrow> pmm_inv M s'"
  by (induction rule: pmm_step.induct)
    (auto intro: pmm_inv_alloc_page pmm_inv_free_page pmm_inv_alloc_pages pmm_inv_free_pages)

lemma pmm_inv_steps: "(pmm_step M)\<^sup>*\<^sup>* s s' \<Longrightarrow> pmm_inv M s \<Longrightarrow> pmm_inv M s'"
  by (induction rule: rtranclp_induct) (auto intro: pmm_inv_step)

text \<open>
  The invariant holds after boot when the boot loader reports each frame in one region only.
\<close>

fun disjoint_regions :: "u32 \<Rightarrow> multiboot_mmap_entry list \<Rightarrow> bool" where
  "disjoint_regions ke [] \<longleftrightarrow> True"
| "disjoint_regions ke (e # es) \<longleftrightarrow>
     entry_frames ke e \<inter> usable_frames ke es = {} \<and> disjoint_regions ke es"

lemma card_usable_frames:
  "disjoint_regions ke es \<Longrightarrow> card (usable_frames ke es) = (\<Sum>e\<leftarrow>es. card (entry_frames ke e))"
proof (induction es)
  case Nil
  then show ?case by (simp add: usable_frames_def)
next
  case (Cons e es)
  have "usable_frames ke (e # es) = entry_frames ke e \<union> usable_frames ke es"
    by (simp add: usable_frames_def)
  moreover have "finite (usable_frames ke es)" by (simp add: usable_frames_def)
  ultimately show ?case using Cons by (simp add: card_Un_disjoint)
qed

lemma pmm_inv_init:
  assumes "bit (mb_flags mboot) 6" "total_pages s = 0"
    and "mmap_chain rd (mmap_addr mboot) (mmap_addr mboot + mmap_length mboot) es"
    and "disjoint_regions (kernel_end_of end_sym) es"
    and "pmm_init end_sym rd mboot s = Some s'"
  shows "pmm_inv (usable_frames (kernel_end_of end_sym) es) s'"
  using pmm_init_mmap_spec [OF assms(1,3), of end_sym s] assms(2,4,5) usable_not_low
  by (fastforce simp: pmm_inv_def card_usable_frames)

subsection \<open>Properties of the physical memory manager\<close>

definition demo_pmm :: pmm_state where
  "demo_pmm = idt_state.extend demo_idt \<lparr>bitmap = \<lambda>_. 0, total_pages = 0, used_pages = 0\<rparr>"

definition demo_entry :: multiboot_mmap_entry where
  "demo_entry = \<lparr>e_size = 20, e_addr = 0x100000, e_len = 0x8000, e_type = 1\<rparr>"

definition demo_mboot :: multiboot_info where
  "demo_mboot = \<lparr>mb_flags = 64, mem_lower = 640, mem_upper = 0, boot_device = 0, cmdline = 0,
     mods_count = 0, mods_addr = 0, syms = [], mmap_length = 24, mmap_addr = 0x9000\<rparr>"

text \<open>A manager that owns frame 1 only, and has it free.\<close>

definition demo_one :: pmm_state where
  "demo_one = demo_pmm\<lparr>bitmap := \<lambda>i. if i = 0 then NOT 2 else NOT 0, total_pages := 1\<rparr>"

lemma demo_one_used: "page_used demo_one p \<longleftrightarrow> p \<noteq> 1"
proof (cases "p < 32")
  case True
  then have "bit (NOT 2 :: u32) p \<longleftrightarrow> p \<noteq> 1" unfolding bit_not_iff bit_2_iff by simp
  moreover have "bitmap demo_one (p div 32) = NOT 2" "p mod 32 = p"
    using True by (simp_all add: demo_one_def demo_pmm_def idt_state.extend_def)
  ultimately show ?thesis by (simp only: page_used_def)
next
  case False
  then have "p div 32 \<noteq> 0" "p \<noteq> 1" by (simp_all add: div_eq_0_iff)
  with False show ?thesis by (simp add: page_used_def demo_one_def)
qed

lemma demo_one_free: "free_pages demo_one = {1}"
  unfolding free_pages_def demo_one_used by auto

lemma demo_one_inv: "pmm_inv {1} demo_one"
  by (simp add: pmm_inv_def demo_one_free) (simp add: demo_one_def demo_pmm_def idt_state.extend_def)

lemma demo_chain:
  "mmap_chain (\<lambda>_. demo_entry) (mmap_addr demo_mboot) (mmap_addr demo_mboot + mmap_length demo_mboot)
     [demo_entry]"
  by (simp add: demo_mboot_def demo_entry_def)

lemma demo_flags: "bit (mb_flags demo_mboot) 6"
  by (simp add: demo_mboot_def)

lemma demo_regions: "disjoint_regions ke [demo_entry]"
  by (simp add: usable_frames_def)

text \<open>
  C22: \<open>pmm_init\<close> with a memory map terminates, and afterwards exactly those frames are free
  that lie completely inside a region of type 1, below 4 GiB, at or above 1 MiB and at or above
  the page-aligned end of the kernel image; \<open>total_pages\<close> grows by their number (counted per
  region) and no other part of the state changes.
\<close>

theorem pmm_init_free_frames:
  assumes "bit (mb_flags mboot) 6"
    and "mmap_chain rd (mmap_addr mboot) (mmap_addr mboot + mmap_length mboot) es"
  shows "\<exists>s'. pmm_init end_sym rd mboot s = Some s' \<and>
     (\<forall>p < 0x100000. \<not> bitmap_test (of_nat p) s' \<longleftrightarrow>
        (\<exists>e \<in> set es. e_type e = 1 \<and> unat (e_addr e) \<le> p * 4096 \<and>
           (p + 1) * 4096 \<le> unat (e_addr e) + unat (e_len e) \<and> 0x100000 \<le> p * 4096 \<and>
           unat (kernel_end_of end_sym) \<le> p * 4096)) \<and>
     total_pages s' = total_pages s +
       of_nat (\<Sum>e\<leftarrow>es. card (entry_frames (kernel_end_of end_sym) e)) \<and>
     used_pages s' = 0 \<and> pmm_only s s'"
proof -
  obtain s' where s': "pmm_init end_sym rd mboot s = Some s'"
      "free_pages s' = usable_frames (kernel_end_of end_sym) es"
      "total_pages s' = total_pages s +
         of_nat (\<Sum>e\<leftarrow>es. card (entry_frames (kernel_end_of end_sym) e))"
      "used_pages s' = 0" "pmm_only s s'"
    using pmm_init_mmap_spec [OF assms, of end_sym s] by blast
  have "\<not> bitmap_test (of_nat p) s' \<longleftrightarrow> p \<in> usable_frames (kernel_end_of end_sym) es"
    if "p < 0x100000" for p
    using that by (simp add: s'(2) [symmetric] free_pages_def unat_of_nat)
  moreover have "p \<in> usable_frames (kernel_end_of end_sym) es \<longleftrightarrow>
      (\<exists>e \<in> set es. e_type e = 1 \<and> unat (e_addr e) \<le> p * 4096 \<and>
         (p + 1) * 4096 \<le> unat (e_addr e) + unat (e_len e) \<and> 0x100000 \<le> p * 4096 \<and>
         unat (kernel_end_of end_sym) \<le> p * 4096)" if "p < 0x100000" for p
    using that by (auto simp: usable_frames_def entry_frames_def managed_frame_def split: if_splits)
  ultimately show ?thesis using s' by blast
qed

theorem pmm_init_free_frames_witness:
  "\<exists>s'. pmm_init 0x102000 (\<lambda>_. demo_entry) demo_mboot demo_pmm = Some s' \<and>
     \<not> bitmap_test 258 s' \<and> bitmap_test 257 s' \<and> bitmap_test 264 s'"
proof -
  have ke: "kernel_end_of 0x102000 = 0x102000" by (simp add: kernel_end_of_def c_consts)
  obtain s' where s': "pmm_init 0x102000 (\<lambda>_. demo_entry) demo_mboot demo_pmm = Some s'"
    and free: "\<forall>p < 0x100000. \<not> bitmap_test (of_nat p) s' \<longleftrightarrow>
        (\<exists>e \<in> set [demo_entry]. e_type e = 1 \<and> unat (e_addr e) \<le> p * 4096 \<and>
           (p + 1) * 4096 \<le> unat (e_addr e) + unat (e_len e) \<and> 0x100000 \<le> p * 4096 \<and>
           unat (0x102000 :: u32) \<le> p * 4096)"
    using pmm_init_free_frames [OF demo_flags demo_chain, of "0x102000" demo_pmm] unfolding ke
    by blast
  from free [rule_format, of 258] free [rule_format, of 257] free [rule_format, of 264] s'
  show ?thesis by (simp add: demo_entry_def)
qed

text \<open>
  C21: \<open>pmm_alloc_page\<close> hands out the lowest free frame: it returns the frame's address, marks
  that frame and no other, and counts it; with no free frame it returns 0 and leaves the state
  as it was.
\<close>

theorem pmm_alloc_page_lowest:
  "if free_pages s = {} then pmm_alloc_page s = (0, s)
   else \<exists>s'. pmm_alloc_page s = (of_nat (Min (free_pages s)) * PAGE_SIZE, s') \<and>
          unat (fst (pmm_alloc_page s)) = Min (free_pages s) * 4096 \<and>
          free_pages s' = free_pages s - {Min (free_pages s)} \<and>
          used_pages s' = used_pages s + 1 \<and> total_pages s' = total_pages s \<and> pmm_only s s'"
proof (cases s rule: pmm_alloc_page_cases)
  case none
  then show ?thesis by simp
next
  case (some p)
  then have p: "Min (free_pages s) = p" by (intro Min_eqI) auto
  have "p < max_pages" using some(1) by (rule free_pages_bound)
  then have "unat (of_nat p :: u32) = p" by (simp add: unat_of_nat)
  with some p \<open>p < max_pages\<close> show ?thesis
    by (auto simp: page_addr_inverse intro: pmm_only_trans)
qed

text \<open>
  C7: after boot, through every sequence of allocations and releases of the manager's own
  frames, \<open>pmm_get_free_pages\<close> is the number of free frames, \<open>pmm_get_total_pages\<close> the number of
  frames handed over by the boot loader, no other frame ever becomes free, and an allocation
  returns 0 only when nothing is free.
\<close>

theorem pmm_accounting:
  assumes "bit (mb_flags mboot) 6" and "total_pages s = 0"
    and "mmap_chain rd (mmap_addr mboot) (mmap_addr mboot + mmap_length mboot) es"
    and "disjoint_regions (kernel_end_of end_sym) es"
    and "pmm_init end_sym rd mboot s = Some s0"
    and "(pmm_step (usable_frames (kernel_end_of end_sym) es))\<^sup>*\<^sup>* s0 t"
  shows "unat (pmm_get_free_pages t) = card (free_pages t) \<and>
     unat (pmm_get_total_pages t) = card (usable_frames (kernel_end_of end_sym) es) \<and>
     free_pages t \<subseteq> usable_frames (kernel_end_of end_sym) es \<and>
     (fst (pmm_alloc_page t) = 0 \<longleftrightarrow> free_pages t = {})"
proof -
  from pmm_inv_init [OF assms(1-5)] assms(6)
  have inv: "pmm_inv (usable_frames (kernel_end_of end_sym) es) t"
    by (blast intro: pmm_inv_steps)
  have "unat (pmm_get_total_pages t) = card (usable_frames (kernel_end_of end_sym) es)"
    using inv pmm_inv_card [OF inv]
    by (simp add: pmm_get_total_pages_def pmm_inv_def unat_of_nat)
  moreover have "free_pages t \<subseteq> usable_frames (kernel_end_of end_sym) es"
    using inv by (simp add: pmm_inv_def)
  ultimately show ?thesis
    using pmm_inv_free_count [OF inv] pmm_inv_alloc_zero [OF inv] by simp
qed

theorem pmm_accounting_witness:
  "\<exists>s0. pmm_init 0x102000 (\<lambda>_. demo_entry) demo_mboot demo_pmm = Some s0 \<and>
     unat (pmm_get_free_pages (snd (pmm_alloc_page s0))) =
       card (free_pages (snd (pmm_alloc_page s0)))"
proof -
  obtain s0 where s0: "pmm_init 0x102000 (\<lambda>_. demo_entry) demo_mboot demo_pmm = Some s0"
    using pmm_init_mmap_spec [OF demo_flags demo_chain] by blast
  have "(pmm_step (usable_frames (kernel_end_of 0x102000) [demo_entry]))\<^sup>*\<^sup>* s0
          (snd (pmm_alloc_page s0))"
    by (rule r_into_rtranclp) (rule pmm_step.alloc_one)
  from pmm_accounting [OF demo_flags _ demo_chain demo_regions s0 this] s0
  show ?thesis by (simp add: demo_pmm_def idt_state.extend_def)
qed

text \<open>
  C23: \<open>pmm_alloc_pages\<close> for \<open>0 < n \<le> 2 ^ 20\<close> frames reads only inside the bitmap and is a
  first fit: it returns the lowest place where \<open>n\<close> frames in a row are free and takes exactly
  these frames; it returns 0 and changes nothing when there is no such place.
\<close>

theorem pmm_alloc_pages_first_fit:
  assumes "n \<noteq> 0" and "n \<le> 0x100000"
  shows "if \<exists>st. {st..<st + unat n} \<subseteq> free_pages s
         then \<exists>s'. let st = (LEAST st. {st..<st + unat n} \<subseteq> free_pages s)
                in pmm_alloc_pages n s = Inr (of_nat st * PAGE_SIZE, s') \<and>
                   free_pages s' = free_pages s - {st..<st + unat n} \<and>
                   used_pages s' = used_pages s + n \<and> pmm_only s s'
         else pmm_alloc_pages n s = Inr (0, s)"
proof -
  from assms(2) have "unat n \<le> max_pages" by (simp add: word_le_nat_alt)
  then show ?thesis
  proof (cases rule: pmm_alloc_pages_cases [of n s])
    case none
    with assms(1) show ?thesis by simp
  next
    case (run st)
    then have run_st: "run_free s st (unat n)" by (auto simp: granted_run_def)
    then have "(LEAST st. run_free s st (unat n)) = st"
      by (rule Least_equality) (use run(3) in \<open>force simp: not_less [symmetric]\<close>)
    with run run_st show ?thesis by (auto simp: granted_run_def Let_def)
  qed
qed

theorem pmm_alloc_pages_first_fit_witness:
  "pmm_alloc_pages 2 demo_one = Inr (0, demo_one)"
proof -
  have "\<not> (\<exists>st. {st..<st + unat (2 :: u32)} \<subseteq> free_pages demo_one)"
  proof
    assume "\<exists>st. {st..<st + unat (2 :: u32)} \<subseteq> free_pages demo_one"
    then obtain st where "{st..<st + 2} \<subseteq> {1 :: nat}" by (auto simp: demo_one_free)
    then have "st \<in> {1 :: nat}" "st + 1 \<in> {1 :: nat}" by (meson atLeastLessThan_iff subsetD le_add1 le_refl
        less_add_same_cancel1 add_less_cancel_left one_less_numeral_iff semiring_norm(76) zero_less_numeral)+
    then show False by simp
  qed
  with pmm_alloc_pages_first_fit [of 2 demo_one] show ?thesis by auto
qed

text \<open>
  C38: a request for more than \<open>2 ^ 20\<close> frames always ends in an access outside the bitmap:
  \<open>total_avail - n\<close> wraps around, so the loop does not stop at the end of the array.
\<close>

theorem pmm_alloc_pages_oversize_fault:
  assumes "0x100000 < n"
  shows "pmm_alloc_pages n s = Inl OutOfBounds"
  using assms by (intro pmm_alloc_pages_oversize) (simp add: word_less_nat_alt)

theorem pmm_alloc_pages_oversize_fault_witness:
  "pmm_alloc_pages 0x100001 demo_pmm = Inl OutOfBounds"
  by (rule pmm_alloc_pages_oversize_fault) simp

text \<open>
  C28: giving back the frame just allocated restores the manager's state: \<open>pmm_free_page\<close> after
  a successful \<open>pmm_alloc_page\<close> brings back the same free frames and counters.
\<close>

theorem pmm_free_after_alloc:
  assumes "pmm_inv M s" and "pmm_alloc_page s = (a, s1)" and "a \<noteq> 0"
  shows "free_pages (pmm_free_page a s1) = free_pages s \<and>
         used_pages (pmm_free_page a s1) = used_pages s \<and>
         total_pages (pmm_free_page a s1) = total_pages s \<and> pmm_only s (pmm_free_page a s1)"
proof (cases s rule: pmm_alloc_page_cases)
  case none
  with assms show ?thesis by simp
next
  case (some p)
  then have p: "p < max_pages" by (simp add: free_pages_bound)
  from some assms(2) have a: "a div PAGE_SIZE = of_nat p"
    and s1: "s1 = (bitmap_set (of_nat p) s)\<lparr>used_pages := used_pages s + 1\<rparr>"
    using page_of_addr [OF p] by auto
  have "pmm_only s (pmm_free_page a s1)"
    using pmm_only_trans [OF _ pmm_only_free_page [of s1 a], of s] s1
    by (auto intro: pmm_only_trans)
  with a s1 p some(1) show ?thesis
    by (auto simp: pmm_free_page_def Let_def free_pages_clear unat_of_nat insert_absorb)
qed

theorem pmm_free_after_alloc_witness:
  "fst (pmm_alloc_page demo_one) = 4096 \<and>
   free_pages (pmm_free_page 4096 (snd (pmm_alloc_page demo_one))) = {1}"
proof -
  have a: "fst (pmm_alloc_page demo_one) = 4096"
    by (cases demo_one rule: pmm_alloc_page_cases) (simp_all add: demo_one_free c_consts)
  then have "pmm_alloc_page demo_one = (4096, snd (pmm_alloc_page demo_one))"
    by (metis prod.collapse)
  from pmm_free_after_alloc [OF demo_one_inv this] a show ?thesis by (simp add: demo_one_free)
qed

end
