(* ===== verification/Paging.thy ===== *)
theory Paging
  imports Pmm
begin

text \<open>
  Two-level paging (\<^verbatim>\<open>src/src/paging.c\<close>, \<^verbatim>\<open>src/src/paging.h\<close>). Physical memory is a function
  from byte address to 32-bit word. The kernel reaches page tables through their physical
  addresses, which works because the first gigabyte is mapped one to one (shown below for the
  state \<open>paging_init\<close> leaves); the model reads and writes physical memory directly. The static
  tables \<open>kernel_pd\<close> and \<open>kernel_page_tables\<close> are placed by the linker: their addresses are
  parameters. The translation look-aside buffer is not modelled.
\<close>

subsection \<open>Data\<close>

definition PAGE_PRESENT :: u32 where [c_consts]: "PAGE_PRESENT = 0x001"
definition PAGE_WRITE :: u32 where [c_consts]: "PAGE_WRITE = 0x002"
definition PAGE_USER :: u32 where [c_consts]: "PAGE_USER = 0x004"

record paging_state = pmm_state +
  pmem :: "u32 \<Rightarrow> u32"
  kernel_pd_phys :: u32
  current_pd_phys :: u32
  cr3 :: u32
  paging_on :: bool

definition mem_write :: "u32 \<Rightarrow> u32 \<Rightarrow> 'a paging_state_scheme \<Rightarrow> 'a paging_state_scheme" where
  "mem_write a v s = s\<lparr>pmem := (pmem s)(a := v)\<rparr>"

text \<open>\<open>slot b i\<close> is the address of \<open>((uint32_t*)b)[i]\<close>.\<close>

definition slot :: "u32 \<Rightarrow> u32 \<Rightarrow> u32" where
  "slot b i = b + 4 * i"

definition pd_index :: "u32 \<Rightarrow> u32" where
  "pd_index virtual_addr = drop_bit 22 virtual_addr"

definition pt_index :: "u32 \<Rightarrow> u32" where
  "pt_index virtual_addr = drop_bit 12 virtual_addr AND 0x3FF"

subsection \<open>Mapping\<close>

text \<open>The loop \<open>for (i = 0; i < 1024; i++) p[i] = v(i)\<close>.\<close>

definition fill_table :: "u32 \<Rightarrow> (nat \<Rightarrow> u32) \<Rightarrow> 'a paging_state_scheme \<Rightarrow> 'a paging_state_scheme" where
  "fill_table b v s = fold (\<lambda>i. mem_write (slot b (of_nat i)) (v i)) [0..<1024] s"

definition paging_map_page ::
  "u32 \<Rightarrow> u32 \<Rightarrow> u32 \<Rightarrow> 'a paging_state_scheme \<Rightarrow> 'a paging_state_scheme" where
  "paging_map_page virtual_addr physical_addr flags s =
     (let pd = current_pd_phys s;
          pdi = pd_index virtual_addr;
          pti = pt_index virtual_addr;
          (ok, s1) =
            (if pmem s (slot pd pdi) AND PAGE_PRESENT = 0 then
               let (pt_phys, s1) = pmm_alloc_page s
               in if pt_phys = 0 then (False, s1)
                  else (True, mem_write (slot pd pdi)
                         (pt_phys OR PAGE_PRESENT OR PAGE_WRITE OR (flags AND PAGE_USER))
                         (fill_table pt_phys (\<lambda>_. 0) s1))
             else (True, s))
      in if ok then
           let page_table = pmem s1 (slot pd pdi) AND 0xFFFFF000
           in mem_write (slot page_table pti)
                ((physical_addr AND 0xFFFFF000) OR flags OR PAGE_PRESENT) s1
         else s1)"

definition paging_unmap_page :: "u32 \<Rightarrow> 'a paging_state_scheme \<Rightarrow> 'a paging_state_scheme" where
  "paging_unmap_page virtual_addr s =
     (let pd_entry = pmem s (slot (current_pd_phys s) (pd_index virtual_addr))
      in if pd_entry AND PAGE_PRESENT = 0 then s
         else mem_write (slot (pd_entry AND 0xFFFFF000) (pt_index virtual_addr)) 0 s)"

definition paging_get_physical :: "u32 \<Rightarrow> 'a paging_state_scheme \<Rightarrow> u32" where
  "paging_get_physical virtual_addr s =
     (let pd_entry = pmem s (slot (current_pd_phys s) (pd_index virtual_addr));
          offset = virtual_addr AND 0xFFF
      in if pd_entry AND PAGE_PRESENT = 0 then 0
         else let pt_entry = pmem s (slot (pd_entry AND 0xFFFFF000) (pt_index virtual_addr))
              in if pt_entry AND PAGE_PRESENT = 0 then 0
                 else (pt_entry AND 0xFFFFF000) + offset)"

subsection \<open>Page directories\<close>

definition paging_kernel_pd_phys :: "'a paging_state_scheme \<Rightarrow> u32" where
  "paging_kernel_pd_phys s = kernel_pd_phys s"

definition paging_clone_pd :: "'a paging_state_scheme \<Rightarrow> u32 \<times> 'a paging_state_scheme" where
  "paging_clone_pd s =
     (let (new_pd_phys, s1) = pmm_alloc_page s
      in if new_pd_phys = 0 then (0, s1)
         else (new_pd_phys,
               fold (\<lambda>i s. mem_write (slot new_pd_phys (of_nat i))
                             (pmem s (slot (kernel_pd_phys s) (of_nat i))) s) [0..<1024] s1))"

definition paging_switch :: "u32 \<Rightarrow> 'a paging_state_scheme \<Rightarrow> 'a paging_state_scheme" where
  "paging_switch pd_phys s = s\<lparr>current_pd_phys := pd_phys, cr3 := pd_phys\<rparr>"

definition paging_enable :: "u32 \<Rightarrow> 'a paging_state_scheme \<Rightarrow> 'a paging_state_scheme" where
  "paging_enable pd_addr s = s\<lparr>cr3 := pd_addr, paging_on := True\<rparr>"

text \<open>One round of the outer loop that builds the identity map.\<close>

definition init_table :: "u32 \<Rightarrow> u32 \<Rightarrow> nat \<Rightarrow> 'a paging_state_scheme \<Rightarrow> 'a paging_state_scheme" where
  "init_table kpd kpt i s =
     (let table = kpt + of_nat i * 4096;
          s1 = fill_table table
                 (\<lambda>j. of_nat (i * 1024 + j) * PAGE_SIZE OR PAGE_PRESENT OR PAGE_WRITE) s
      in mem_write (slot kpd (of_nat i)) (table OR PAGE_PRESENT OR PAGE_WRITE) s1)"

definition paging_init :: "u32 \<Rightarrow> u32 \<Rightarrow> 'a paging_state_scheme \<Rightarrow> 'a paging_state_scheme" where
  "paging_init kpd kpt s =
     (let s = fill_table kpd (\<lambda>_. 0) s;
          s = fold (init_table kpd kpt) [0..<256] s;
          s = s\<lparr>kernel_pd_phys := kpd, current_pd_phys := kpd\<rparr>;
          s = register_interrupt_handler 14 Page_Fault_Handler s
      in paging_enable kpd s)"

subsection \<open>Page faults\<close>

definition hex_address :: "u32 \<Rightarrow> string" where
  "hex_address cr2 =
     ''0x'' @ map (\<lambda>i. ''0123456789ABCDEF'' ! unat (drop_bit (i * 4) cr2 AND 0xF)) (rev [0..<8])"

definition page_fault_panic ::
  "device \<Rightarrow> u32 \<Rightarrow> 'a paging_state_scheme \<Rightarrow> (registers, 'a paging_state_scheme) outcome option" where
  "page_fault_panic dev cr2 s = do {
     s1 \<leftarrow> log_info dev ''Page Fault Panic!'' s;
     s2 \<leftarrow> log_info dev ''Fault Address (CR2):'' s1;
     s3 \<leftarrow> log_info dev (hex_address cr2) s2;
     Some (Halted (cli s3))
   }"

definition page_fault_handler ::
  "device \<Rightarrow> u32 \<Rightarrow> registers \<Rightarrow> 'a paging_state_scheme \<Rightarrow>
   (registers, 'a paging_state_scheme) outcome option" where
  "page_fault_handler dev cr2 regs s =
     (let err = err_code regs
      in if err AND 0x1 \<noteq> 0 then page_fault_panic dev cr2 s
         else if err AND 0x8 \<noteq> 0 then page_fault_panic dev cr2 s
         else
           let page_addr = cr2 AND 0xFFFFF000;
               flags = PAGE_PRESENT OR PAGE_WRITE;
               flags = (if err AND 0x4 \<noteq> 0 then flags OR PAGE_USER else flags);
               (phys, s1) = pmm_alloc_page s
           in if phys = 0 then page_fault_panic dev cr2 s1
              else Some (Returned regs (paging_map_page page_addr phys flags s1)))"

subsection \<open>The hardware walk\<close>

text \<open>
  What the memory management unit does with a linear address when 4 MiB pages are off: both
  entries must be present, and accesses from user mode need the user bit, and for writes the
  write bit, in both. (The kernel leaves write protection of supervisor mode off.)
\<close>

definition mmu_allows :: "bool \<Rightarrow> bool \<Rightarrow> u32 \<Rightarrow> bool" where
  "mmu_allows user wr e \<longleftrightarrow> bit e 0 \<and> (user \<longrightarrow> bit e 2 \<and> (wr \<longrightarrow> bit e 1))"

definition mmu_walk :: "(u32 \<Rightarrow> u32) \<Rightarrow> u32 \<Rightarrow> bool \<Rightarrow> bool \<Rightarrow> u32 \<Rightarrow> u32 option" where
  "mmu_walk mem base user wr va =
     (let pde = mem (slot base (drop_bit 22 va))
      in if \<not> mmu_allows user wr pde then None
         else let pte = mem (slot (pde AND 0xFFFFF000) (drop_bit 12 va AND 0x3FF))
              in if mmu_allows user wr pte then Some ((pte AND 0xFFFFF000) OR (va AND 0xFFF))
                 else None)"

subsection \<open>Addresses of table entries\<close>

definition page_aligned :: "u32 \<Rightarrow> bool" where
  "page_aligned a \<longleftrightarrow> unat a mod 4096 = 0"

lemma offset_mask_unat: "unat (a AND 0xFFF :: u32) = unat a mod 4096"
proof -
  have "a AND 0xFFF = take_bit 12 a" by (simp add: take_bit_eq_mask mask_eq_exp_minus_1)
  then show ?thesis by (simp add: take_bit_eq_mod unat_mod_u32)
qed

lemma frame_mask_split: "(a AND 0xFFFFF000) + (a AND 0xFFF) = (a :: u32)"
proof -
  have m: "(0xFFF :: u32) = mask 12" "(0xFFFFF000 :: u32) = NOT (mask 12)" 
    by (simp_all add: mask_eq_exp_minus_1)
  have "(a AND 0xFFFFF000) + (a AND 0xFFF) = (a AND 0xFFFFF000) OR (a AND 0xFFF)"
    by (rule disjunctive_add_eq_or, simp only: m) (auto simp: bit_eq_iff bit_simps)
  also have "\<dots> = a" by (simp only: m) (auto simp add: bit_eq_iff bit_simps)
  finally show ?thesis .
qed

lemma frame_mask_unat: "unat (a AND 0xFFFFF000 :: u32) = unat a div 4096 * 4096"
proof -
  have "(a AND 0xFFFFF000) = a - (a AND 0xFFF)" using frame_mask_split [of a] by (simp add: eq_diff_eq)
  moreover have "a AND 0xFFF \<le> a" by (simp add: word_le_nat_alt offset_mask_unat)
  ultimately show ?thesis by (simp add: unat_sub_no_wrap offset_mask_unat minus_mod_eq_div_mult)
qed


lemma pd_index_unat: "unat (pd_index a) = unat a div 4194304"
  by (simp add: pd_index_def drop_bit_eq_div unat_div_u32)

lemma pt_index_unat: "unat (pt_index a) = unat a div 4096 mod 1024"
proof -
  have "pt_index a = take_bit 10 (drop_bit 12 a)"
    by (simp add: pt_index_def take_bit_eq_mask mask_eq_exp_minus_1)
  then show ?thesis
    by (simp add: take_bit_eq_mod drop_bit_eq_div unat_div_u32 unat_mod_u32)
qed

lemma index_bounds: "unat (pd_index a) < 1024" "unat (pt_index a) < 1024"
  using unat_lt_u32 [of a] by (simp_all add: pd_index_unat pt_index_unat less_mult_imp_div_less)

lemma same_page_iff:
  "pd_index a = pd_index b \<and> pt_index a = pt_index b \<longleftrightarrow> a AND 0xFFFFF000 = b AND 0xFFFFF000"
proof -
  have "unat a div 4096 = unat b div 4096 \<longleftrightarrow>
     unat a div 4194304 = unat b div 4194304 \<and> unat a div 4096 mod 1024 = unat b div 4096 mod 1024"
  proof -
   have *: "x div 4194304 = x div 4096 div (1024 :: nat)" for x by (simp add: div_mult2_eq [symmetric])
   show ?thesis unfolding * by (metis div_mult_mod_eq)
  qed
  then show ?thesis by (simp add: word_eq_iff_unat_u32 pd_index_unat pt_index_unat frame_mask_unat)
qed

lemma page_aligned_mask [simp]: "page_aligned (a AND 0xFFFFF000)"
  by (simp add: page_aligned_def frame_mask_unat)

lemma frame_mask_aligned: "page_aligned a \<Longrightarrow> a AND 0xFFFFF000 = a"
  by (auto simp: word_eq_iff_unat_u32 frame_mask_unat page_aligned_def)

lemma aligned_bound: "page_aligned a \<Longrightarrow> unat a + 4096 \<le> 4294967296"
proof -
  assume "page_aligned a"
  then obtain k where k: "unat a = 4096 * k" by (auto simp: page_aligned_def)
  with unat_lt_u32 [of a] have "k < 1048576" by simp
  with k show ?thesis by simp
qed

lemma slot_unat:
  assumes "page_aligned b" "unat i < 1024"
  shows "unat (slot b i) = unat b + 4 * unat i"
proof -
  have "unat (4 * i) = 4 * unat i" using assms(2) by (simp add: unat_word_ariths)
  with aligned_bound [OF assms(1)] assms(2) show ?thesis
    by (simp add: slot_def unat_add_no_wrap)
qed

lemma slot_frame:
  assumes "page_aligned b" "unat i < 1024"
  shows "slot b i AND 0xFFFFF000 = b"
proof -
  obtain k where "unat b = 4096 * k" using assms(1) by (auto simp: page_aligned_def)
  then show ?thesis using assms by (simp add: word_eq_iff_unat_u32 frame_mask_unat slot_unat)
qed

lemma slot_inject:
  assumes "page_aligned b" "page_aligned c" "unat i < 1024" "unat j < 1024"
  shows "slot b i = slot c j \<longleftrightarrow> b = c \<and> i = j"
proof
  assume *: "slot b i = slot c j"
  then have "b = c" using slot_frame [OF assms(1,3)] slot_frame [OF assms(2,4)] by simp
  with * slot_unat [OF assms(1,3)] slot_unat [OF assms(2,4)] show "b = c \<and> i = j"
    by (simp add: word_eq_iff_unat_u32)
qed simp


lemma mem_write_frame [simp]:
  "pmem (mem_write a v s) = (pmem s)(a := v)"
  "current_pd_phys (mem_write a v s) = current_pd_phys s"
  "kernel_pd_phys (mem_write a v s) = kernel_pd_phys s"
  "free_pages (mem_write a v s) = free_pages s"
  "pmm_inv M (mem_write a v s) = pmm_inv M s"
  by (simp_all add: mem_write_def free_pages_def page_used_def pmm_inv_def)

text \<open>Everything but physical memory and the frame bitmap.\<close>

definition tables_only :: "'a paging_state_scheme \<Rightarrow> 'a paging_state_scheme \<Rightarrow> bool" where
  "tables_only s s' \<longleftrightarrow> (\<exists>m b u. s' = s\<lparr>pmem := m, bitmap := b, used_pages := u\<rparr>)"

lemma tables_onlyI [intro]:
  "s' = s\<lparr>pmem := m, bitmap := b, used_pages := u\<rparr> \<Longrightarrow> tables_only s s'"
  unfolding tables_only_def by blast

lemma tables_only_refl [simp, intro]: "tables_only s s"
  by (rule tables_onlyI [where m = "pmem s" and b = "bitmap s" and u = "used_pages s"]) simp

lemma tables_only_trans [trans]: "tables_only s s' \<Longrightarrow> tables_only s' s'' \<Longrightarrow> tables_only s s''"
  by (auto simp: tables_only_def) blast

lemma tables_only_mem_write [simp, intro]: "tables_only s (mem_write a v s)"
  by (rule tables_onlyI [where m = "(pmem s)(a := v)" and b = "bitmap s" and u = "used_pages s"])
    (simp add: mem_write_def)

lemma tables_only_fold:
  "(\<And>x t. x \<in> set xs \<Longrightarrow> tables_only t (f x t)) \<Longrightarrow> tables_only s (fold f xs s)"
  by (induction xs arbitrary: s) (auto intro: tables_only_trans)

lemma tables_only_fill [simp, intro]: "tables_only s (fill_table b v s)"
  unfolding fill_table_def by (rule tables_only_fold) simp

lemma tables_only_alloc [intro]: "pmm_alloc_page s = (a, s1) \<Longrightarrow> tables_only s s1"
proof (cases s rule: pmm_alloc_page_cases)
  case none
  then show "pmm_alloc_page s = (a, s1) \<Longrightarrow> tables_only s s1" by simp
next
  case (some p)
  show "tables_only s s1" if "pmm_alloc_page s = (a, s1)"
    by (rule tables_onlyI [where m = "pmem s" and b = "bitmap s1" and u = "used_pages s1"])
      (use that some(3) in \<open>auto simp: bitmap_set_def Let_def\<close>)
qed

lemma tables_only_regs:
  "tables_only s s' \<Longrightarrow> current_pd_phys s' = current_pd_phys s"
  "tables_only s s' \<Longrightarrow> kernel_pd_phys s' = kernel_pd_phys s"
  by (auto simp: tables_only_def)

lemma alloc_pmem: "pmm_alloc_page s = (a, s1) \<Longrightarrow> pmem s1 = pmem s"
  by (cases s rule: pmm_alloc_page_cases) (auto simp: bitmap_set_def Let_def)

text \<open>The loop that writes a whole table.\<close>

lemma fill_loop:
  assumes "page_aligned b" "n \<le> 1024"
  shows "(\<forall>i < n. pmem (fold (\<lambda>i. mem_write (slot b (of_nat i)) (v i)) [0..<n] s)
            (slot b (of_nat i)) = v i) \<and>
     (\<forall>a. a AND 0xFFFFF000 \<noteq> b \<longrightarrow>
        pmem (fold (\<lambda>i. mem_write (slot b (of_nat i)) (v i)) [0..<n] s) a = pmem s a) \<and>
     free_pages (fold (\<lambda>i. mem_write (slot b (of_nat i)) (v i)) [0..<n] s) = free_pages s \<and>
     pmm_inv M (fold (\<lambda>i. mem_write (slot b (of_nat i)) (v i)) [0..<n] s) = pmm_inv M s"
  using assms(2)
proof (induction n)
  case 0
  show ?case by simp
next
  case (Suc n)
  have "slot b (of_nat n) AND 0xFFFFF000 = b"
    using Suc.prems by (intro slot_frame [OF assms(1)]) (simp add: unat_of_nat)
  moreover have "slot b (of_nat i) = slot b (of_nat n) \<longleftrightarrow> i = n" if "i \<le> n" for i
    using that Suc.prems
    by (subst slot_inject [OF assms(1,1)]) (simp_all add: unat_of_nat word_eq_iff_unat_u32)
  ultimately show ?case using Suc by (auto simp: less_Suc_eq)
qed

lemma fill_table_at:
  assumes "page_aligned b" "unat i < 1024"
  shows "pmem (fill_table b v s) (slot b i) = v (unat i)"
proof -
  have "\<forall>i < 1024. pmem (fill_table b v s) (slot b (of_nat i)) = v i"
    using fill_loop [OF assms(1), of 1024 v s] by (simp add: fill_table_def)
  from this [rule_format, OF assms(2)] show ?thesis by simp
qed

lemma fill_table_other:
  assumes "page_aligned b" "a AND 0xFFFFF000 \<noteq> b"
  shows "pmem (fill_table b v s) a = pmem s a"
  using fill_loop [OF assms(1), of 1024 v s] assms(2) by (simp add: fill_table_def)

lemma fill_table_pmm:
  "page_aligned b \<Longrightarrow> free_pages (fill_table b v s) = free_pages s"
  "page_aligned b \<Longrightarrow> pmm_inv M (fill_table b v s) = pmm_inv M s"
  using fill_loop [of b 1024 v s] by (simp_all add: fill_table_def)


subsection \<open>Well-formed directories\<close>

text \<open>
  \<open>dir_wf s d\<close>: the directory at \<open>d\<close> and the tables it refers to are page aligned frames in use,
  no table is the directory itself, and no table occurs twice.
\<close>

definition dir_wf :: "'a paging_state_scheme \<Rightarrow> u32 \<Rightarrow> bool" where
  "dir_wf s d \<longleftrightarrow>
     page_aligned d \<and> unat d div 4096 \<notin> free_pages s \<and>
     (\<forall>i. unat i < 1024 \<longrightarrow> bit (pmem s (slot d i)) 0 \<longrightarrow>
        pmem s (slot d i) AND 0xFFFFF000 \<noteq> d \<and>
        unat (pmem s (slot d i)) div 4096 \<notin> free_pages s) \<and>
     (\<forall>i j. unat i < 1024 \<longrightarrow> unat j < 1024 \<longrightarrow>
        bit (pmem s (slot d i)) 0 \<longrightarrow> bit (pmem s (slot d j)) 0 \<longrightarrow>
        pmem s (slot d i) AND 0xFFFFF000 = pmem s (slot d j) AND 0xFFFFF000 \<longrightarrow> i = j)"

lemma dir_wfD:
  assumes "dir_wf s d"
  shows "page_aligned d" and "unat d div 4096 \<notin> free_pages s"
    and "\<And>i. unat i < 1024 \<Longrightarrow> bit (pmem s (slot d i)) 0 \<Longrightarrow>
          pmem s (slot d i) AND 0xFFFFF000 \<noteq> d"
    and "\<And>i. unat i < 1024 \<Longrightarrow> bit (pmem s (slot d i)) 0 \<Longrightarrow>
          unat (pmem s (slot d i)) div 4096 \<notin> free_pages s"
    and "\<And>i j. unat i < 1024 \<Longrightarrow> unat j < 1024 \<Longrightarrow> bit (pmem s (slot d i)) 0 \<Longrightarrow>
          bit (pmem s (slot d j)) 0 \<Longrightarrow>
          pmem s (slot d i) AND 0xFFFFF000 = pmem s (slot d j) AND 0xFFFFF000 \<Longrightarrow> i = j"
  using assms unfolding dir_wf_def by blast+

text \<open>The entry that maps a page: the abstract view of the tables.\<close>

definition page_entry :: "'a paging_state_scheme \<Rightarrow> u32 \<Rightarrow> u32 \<Rightarrow> u32 option" where
  "page_entry s d va =
     (let e = pmem s (slot d (pd_index va));
          p = pmem s (slot (e AND 0xFFFFF000) (pt_index va))
      in if bit e 0 \<and> bit p 0 then Some p else None)"

lemma present_iff: "e AND PAGE_PRESENT = 0 \<longleftrightarrow> \<not> bit e 0"
  using and_single_bit [of e 0] by (simp add: c_consts)

lemma page_entry_in_page:
  "va AND 0xFFFFF000 = vb AND 0xFFFFF000 \<Longrightarrow> page_entry s d va = page_entry s d vb"
  unfolding same_page_iff [symmetric] by (simp add: page_entry_def)

text \<open>Writing one entry of an existing table.\<close>

lemma table_write:
  fixes s :: "'a paging_state_scheme" and d va w :: u32
  defines "e \<equiv> pmem s (slot d (pd_index va))"
  defines "s' \<equiv> mem_write (slot (e AND 0xFFFFF000) (pt_index va)) w s"
  assumes wf: "dir_wf s d" and pr: "bit e 0"
  shows "dir_wf s' d"
    and "page_entry s' d vb =
      (if va AND 0xFFFFF000 = vb AND 0xFFFFF000 then if bit w 0 then Some w else None
       else page_entry s d vb)"
proof -
  have d: "page_aligned d" using wf by (simp add: dir_wf_def)
  have "e AND 0xFFFFF000 \<noteq> d"
    using dir_wfD(3) [OF wf] index_bounds(1) pr unfolding e_def by blast
  then have other: "slot d i \<noteq> slot (e AND 0xFFFFF000) (pt_index va)" if "unat i < 1024" for i
    using slot_inject [OF d page_aligned_mask that index_bounds(2), of e va] by auto
  then have pdes: "pmem s' (slot d i) = pmem s (slot d i)" if "unat i < 1024" for i
    using that by (simp add: s'_def)
  have free: "free_pages s' = free_pages s" by (simp add: s'_def)
  show "dir_wf s' d" using wf by (simp add: dir_wf_def pdes free)
  let ?f = "pmem s (slot d (pd_index vb))"
  show "page_entry s' d vb =
      (if va AND 0xFFFFF000 = vb AND 0xFFFFF000 then if bit w 0 then Some w else None
       else page_entry s d vb)"
  proof (cases "bit ?f 0")
    case False
    then have "pd_index va \<noteq> pd_index vb" using pr e_def by auto
    then show ?thesis using False same_page_iff [of va vb] index_bounds [of vb]
      by (auto simp: page_entry_def pdes)
  next
    case True
    have "?f AND 0xFFFFF000 = e AND 0xFFFFF000 \<longleftrightarrow> pd_index vb = pd_index va"
      using dir_wfD(5) [OF wf index_bounds(1) index_bounds(1) True] pr unfolding e_def by metis
    then have "slot (?f AND 0xFFFFF000) (pt_index vb) = slot (e AND 0xFFFFF000) (pt_index va) \<longleftrightarrow>
        va AND 0xFFFFF000 = vb AND 0xFFFFF000"
      by (subst slot_inject) (auto simp: index_bounds same_page_iff [symmetric])
    then have "pmem s' (slot (?f AND 0xFFFFF000) (pt_index vb)) =
        (if va AND 0xFFFFF000 = vb AND 0xFFFFF000 then w
         else pmem s (slot (?f AND 0xFFFFF000) (pt_index vb)))"
      by (simp add: s'_def)
    then show ?thesis using True by (simp add: page_entry_def pdes index_bounds Let_def)
  qed
qed


text \<open>Installing a cleared table in an empty directory slot.\<close>

lemma table_install:
  fixes s :: "'a paging_state_scheme" and d va f x :: u32
  defines "s' \<equiv> mem_write (slot d (pd_index va)) (f OR x) (fill_table f (\<lambda>_. 0) s)"
  assumes wf: "dir_wf s d" and ab: "\<not> bit (pmem s (slot d (pd_index va))) 0"
    and f: "page_aligned f" "unat f div 4096 \<notin> free_pages s" "f \<noteq> d"
    and fresh: "\<forall>i. unat i < 1024 \<longrightarrow> bit (pmem s (slot d i)) 0 \<longrightarrow>
        pmem s (slot d i) AND 0xFFFFF000 \<noteq> f"
    and x: "x AND 0xFFFFF000 = 0" "bit x 0"
  shows "dir_wf s' d" and "pmem s' (slot d (pd_index va)) = f OR x"
    and "(f OR x) AND 0xFFFFF000 = f" and "bit (f OR x) 0"
    and "page_entry s' d vb = page_entry s d vb"
proof -
  have d: "page_aligned d" using wf by (simp add: dir_wf_def)
  show fx: "(f OR x) AND 0xFFFFF000 = f"
    using x(1) frame_mask_aligned [OF f(1)] by (simp add: bit.conj_disj_distrib2)
  show fx0: "bit (f OR x) 0" using x(2) by (simp add: bit_simps)
  have pdes: "pmem s' (slot d i) = (if i = pd_index va then f OR x else pmem s (slot d i))"
    if "unat i < 1024" for i
    using that index_bounds [of va] f(3) slot_frame [OF d that]
    by (simp add: s'_def slot_inject [OF d d] fill_table_other [OF f(1)])
  show here: "pmem s' (slot d (pd_index va)) = f OR x" by (simp add: pdes index_bounds)
  have free: "free_pages s' = free_pages s" by (simp add: s'_def fill_table_pmm [OF f(1)])
  have "unat (f OR x) div 4096 = unat f div 4096"
    using arg_cong [OF fx, of unat] f(1) by (simp add: frame_mask_unat page_aligned_def) 
  then show "dir_wf s' d"
    using wf f fresh fx by (auto simp: dir_wf_def pdes free)
  show "page_entry s' d vb = page_entry s d vb"
  proof (cases "pd_index vb = pd_index va")
    case True
    have "slot f (pt_index vb) \<noteq> slot d (pd_index va)"
      using f(3) index_bounds by (subst slot_inject [OF f(1) d]) auto
    then have "pmem s' (slot f (pt_index vb)) = 0"
      by (simp add: s'_def fill_table_at [OF f(1)] index_bounds)
    with True ab here fx show ?thesis by (simp add: page_entry_def Let_def)
  next
    case False
    then have e: "pmem s' (slot d (pd_index vb)) = pmem s (slot d (pd_index vb))"
      by (simp add: pdes index_bounds)
    let ?t = "pmem s (slot d (pd_index vb)) AND 0xFFFFF000"
    have "pmem s' (slot ?t (pt_index vb)) = pmem s (slot ?t (pt_index vb))"
      if "bit (pmem s (slot d (pd_index vb))) 0"
    proof -
      have "?t \<noteq> f" "?t \<noteq> d" using fresh dir_wfD(3) [OF wf] that index_bounds(1) [of vb] by blast+
      then show ?thesis
        by (simp add: s'_def slot_inject [OF _ d] index_bounds slot_frame fill_table_other [OF f(1)])
    qed
    then show ?thesis by (auto simp: page_entry_def Let_def e)
  qed
qed


subsection \<open>Mapping and unmapping\<close>

text \<open>A page can be mapped when its table exists or a frame is free.\<close>

definition mappable :: "'a paging_state_scheme \<Rightarrow> u32 \<Rightarrow> bool" where
  "mappable s va \<longleftrightarrow>
     bit (pmem s (slot (current_pd_phys s) (pd_index va))) 0 \<or> free_pages s \<noteq> {}"

definition paging_ok :: "nat set \<Rightarrow> 'a paging_state_scheme \<Rightarrow> bool" where
  "paging_ok M s \<longleftrightarrow> pmm_inv M s \<and> dir_wf s (current_pd_phys s)"

lemma dir_wf_shrink:
  assumes "dir_wf s d" "pmem s' = pmem s" "free_pages s' \<subseteq> free_pages s"
  shows "dir_wf s' d"
  using assms unfolding dir_wf_def by auto

lemma alloc_frame_fresh:
  assumes "pmm_inv M s" "dir_wf s d" "pmm_alloc_page s = (f, s1)" "f \<noteq> 0"
  shows "pmm_inv M s1" "dir_wf s1 d" "page_aligned f" "unat f div 4096 \<in> free_pages s"
    "free_pages s1 = free_pages s - {unat f div 4096}" "f \<noteq> d" "pmem s1 = pmem s"
    "\<forall>i. unat i < 1024 \<longrightarrow> bit (pmem s (slot d i)) 0 \<longrightarrow> pmem s (slot d i) AND 0xFFFFF000 \<noteq> f"
proof -
  show "pmm_inv M s1" using pmm_inv_alloc_page [OF assms(1)] assms(3) by simp
  have f: "unat f mod 4096 = 0 \<and> unat f div 4096 \<in> free_pages s \<and>
      free_pages s1 = free_pages s - {unat f div 4096}"
    using pmm_frames.alloc_frame [OF assms(1)] assms(3,4) by simp
  then show "page_aligned f" "unat f div 4096 \<in> free_pages s"
    and fr: "free_pages s1 = free_pages s - {unat f div 4096}" by (simp_all add: page_aligned_def)
  show mem: "pmem s1 = pmem s" by (rule alloc_pmem [OF assms(3)])
  show "dir_wf s1 d" using assms(2) mem fr by (blast intro: dir_wf_shrink)
  show "f \<noteq> d" using dir_wfD(2) [OF assms(2)] f by auto
  show "\<forall>i. unat i < 1024 \<longrightarrow> bit (pmem s (slot d i)) 0 \<longrightarrow> pmem s (slot d i) AND 0xFFFFF000 \<noteq> f"
  proof (intro allI impI notI)
    fix i assume i: "unat i < 1024" "bit (pmem s (slot d i)) 0"
      and eq: "pmem s (slot d i) AND 0xFFFFF000 = f"
    have "unat (pmem s (slot d i)) div 4096 = unat f div 4096"
      using arg_cong [OF eq, of unat] by (simp add: frame_mask_unat)
    with dir_wfD(4) [OF assms(2) i] f show False by simp
  qed
qed

definition pte_value :: "u32 \<Rightarrow> u32 \<Rightarrow> u32" where
  "pte_value physical_addr flags = (physical_addr AND 0xFFFFF000) OR flags OR PAGE_PRESENT"

lemma pte_value_present [simp]: "bit (pte_value p fl) 0"
  by (simp add: pte_value_def c_consts bit_simps)

lemma pde_flags:
  "(PAGE_PRESENT OR PAGE_WRITE OR (flags AND PAGE_USER)) AND 0xFFFFF000 = 0"
  "bit (PAGE_PRESENT OR PAGE_WRITE OR (flags AND PAGE_USER)) 0"
  by (simp_all add: c_consts bit.conj_disj_distrib2 and.assoc bit_simps)

lemma map_page_present:
  assumes ok: "paging_ok M s" and pr: "bit (pmem s (slot (current_pd_phys s) (pd_index va))) 0"
  shows "paging_ok M (paging_map_page va pa fl s)"
    and "page_entry (paging_map_page va pa fl s) (current_pd_phys s) vb =
      (if va AND 0xFFFFF000 = vb AND 0xFFFFF000 then Some (pte_value pa fl)
       else page_entry s (current_pd_phys s) vb)"
proof -
  have wf: "dir_wf s (current_pd_phys s)" and inv: "pmm_inv M s"
    using ok by (simp_all add: paging_ok_def)
  have eq: "paging_map_page va pa fl s =
      mem_write (slot (pmem s (slot (current_pd_phys s) (pd_index va)) AND 0xFFFFF000) (pt_index va))
        (pte_value pa fl) s"
    using pr by (simp add: paging_map_page_def present_iff Let_def pte_value_def)
  from table_write(1) [OF wf pr] inv show "paging_ok M (paging_map_page va pa fl s)"
    unfolding eq by (simp add: paging_ok_def)
  from table_write(2) [OF wf pr]
  show "page_entry (paging_map_page va pa fl s) (current_pd_phys s) vb =
      (if va AND 0xFFFFF000 = vb AND 0xFFFFF000 then Some (pte_value pa fl)
       else page_entry s (current_pd_phys s) vb)" unfolding eq by simp
qed

text \<open>Mapping a page without a table first installs one, then proceeds as with a table.\<close>

lemma map_page_absent:
  assumes ok: "paging_ok M s" and ab: "\<not> bit (pmem s (slot (current_pd_phys s) (pd_index va))) 0"
    and free: "free_pages s \<noteq> {}"
  obtains s1 where "paging_ok M s1" "current_pd_phys s1 = current_pd_phys s" "tables_only s s1"
    "bit (pmem s1 (slot (current_pd_phys s) (pd_index va))) 0"
    "\<And>vb. page_entry s1 (current_pd_phys s) vb = page_entry s (current_pd_phys s) vb"
    "paging_map_page va pa fl s = paging_map_page va pa fl s1"
proof -
  let ?d = "current_pd_phys s"
  have wf: "dir_wf s ?d" and inv: "pmm_inv M s"
    using ok by (simp_all add: paging_ok_def)
  obtain f s0 where al: "pmm_alloc_page s = (f, s0)" by fastforce
  have "f \<noteq> 0" using pmm_inv_alloc_zero [OF inv] al free by simp
  note fr = alloc_frame_fresh [OF inv wf al this]
  let ?x = "PAGE_PRESENT OR PAGE_WRITE OR (fl AND PAGE_USER)"
  define s1 where "s1 = mem_write (slot ?d (pd_index va)) (f OR ?x) (fill_table f (\<lambda>_. 0) s0)"
  have ab0: "\<not> bit (pmem s0 (slot ?d (pd_index va))) 0" using ab fr(7) by simp
  have nf: "unat f div 4096 \<notin> free_pages s0" using fr(5) by simp
  note inst = table_install [OF fr(2) ab0 fr(3) nf fr(6) fr(8) [folded fr(7)] pde_flags [of fl],
      folded s1_def]
  have to: "tables_only s s1"
    unfolding s1_def using tables_only_alloc [OF al] by (blast intro: tables_only_trans)
  show thesis
  proof (rule that [of s1])
    show d1: "current_pd_phys s1 = ?d" using to by (rule tables_only_regs)
    show "paging_ok M s1"
      using fr(1) inst(1) d1 by (simp add: paging_ok_def s1_def fill_table_pmm [OF fr(3)])
    show "bit (pmem s1 (slot ?d (pd_index va))) 0" using inst(2,4) by simp
    then show "paging_map_page va pa fl s = paging_map_page va pa fl s1"
      using ab al \<open>f \<noteq> 0\<close> d1
      by (simp add: paging_map_page_def present_iff Let_def s1_def or.assoc)
    show "page_entry s1 ?d vb = page_entry s ?d vb" for vb
      using inst(5) [of vb] fr(7) by (simp add: page_entry_def)
  qed (rule to)
qed

lemma tables_only_map [simp, intro]: "tables_only s (paging_map_page va pa fl s)"
  by (auto simp: paging_map_page_def Let_def split: prod.splits if_splits
      intro: tables_only_trans [OF _ tables_only_mem_write] tables_only_trans [OF _ tables_only_fill]
        tables_only_alloc)

lemma map_page_unmappable:
  assumes "paging_ok M s" "\<not> mappable s va"
  shows "paging_map_page va pa fl s = s"
proof -
  have "pmm_alloc_page s = (0, s)"
    using assms(2) by (cases s rule: pmm_alloc_page_cases) (auto simp: mappable_def)
  with assms(2) show ?thesis by (simp add: paging_map_page_def mappable_def present_iff Let_def)
qed

lemma map_page_entry:
  assumes "paging_ok M s" "mappable s va"
  shows "paging_ok M (paging_map_page va pa fl s) \<and>
    page_entry (paging_map_page va pa fl s) (current_pd_phys s) vb =
      (if va AND 0xFFFFF000 = vb AND 0xFFFFF000 then Some (pte_value pa fl)
       else page_entry s (current_pd_phys s) vb)"
proof (cases "bit (pmem s (slot (current_pd_phys s) (pd_index va))) 0")
  case True
  from map_page_present [OF assms(1) this] show ?thesis by blast
next
  case False
  with assms(2) have "free_pages s \<noteq> {}" by (simp add: mappable_def)
  from map_page_absent [OF assms(1) False this] obtain s1 where
    s1: "paging_ok M s1" "current_pd_phys s1 = current_pd_phys s"
      "bit (pmem s1 (slot (current_pd_phys s) (pd_index va))) 0"
      "\<And>vb. page_entry s1 (current_pd_phys s) vb = page_entry s (current_pd_phys s) vb"
      "paging_map_page va pa fl s = paging_map_page va pa fl s1" by metis
  from map_page_present [OF s1(1), where va = va and pa = pa and fl = fl] s1(2-4) show ?thesis
    unfolding s1(5) by simp
qed

lemma map_page_ok: "paging_ok M s \<Longrightarrow> paging_ok M (paging_map_page va pa fl s)"
  using map_page_entry map_page_unmappable by (cases "mappable s va") fastforce+

lemma tables_only_unmap [simp, intro]: "tables_only s (paging_unmap_page va s)"
  by (auto simp: paging_unmap_page_def Let_def)

lemma unmap_page_entry:
  assumes "paging_ok M s"
  shows "paging_ok M (paging_unmap_page va s) \<and>
    page_entry (paging_unmap_page va s) (current_pd_phys s) vb =
      (if va AND 0xFFFFF000 = vb AND 0xFFFFF000 then None
       else page_entry s (current_pd_phys s) vb)"
proof (cases "bit (pmem s (slot (current_pd_phys s) (pd_index va))) 0")
  case True
  have wf: "dir_wf s (current_pd_phys s)" using assms by (simp add: paging_ok_def)
  have eq: "paging_unmap_page va s =
      mem_write (slot (pmem s (slot (current_pd_phys s) (pd_index va)) AND 0xFFFFF000) (pt_index va))
        0 s"
    using True by (simp add: paging_unmap_page_def present_iff Let_def)
  show ?thesis using table_write [OF wf True, where w = 0] assms unfolding eq
    by (simp add: paging_ok_def)
next
  case False
  then have "page_entry s (current_pd_phys s) vb = None"
    if "va AND 0xFFFFF000 = vb AND 0xFFFFF000"
    using that by (auto simp: page_entry_def Let_def same_page_iff [symmetric])
  with False assms show ?thesis by (simp add: paging_unmap_page_def present_iff Let_def)
qed

lemma get_physical_entry:
  "paging_get_physical va s =
     (case page_entry s (current_pd_phys s) va of
        None \<Rightarrow> 0 | Some e \<Rightarrow> (e AND 0xFFFFF000) + (va AND 0xFFF))"
  by (simp add: paging_get_physical_def page_entry_def present_iff Let_def)

lemma mmu_walk_entry:
  "mmu_walk (pmem s) d False wr va =
     map_option (\<lambda>e. (e AND 0xFFFFF000) OR (va AND 0xFFF)) (page_entry s d va)"
  by (simp add: mmu_walk_def mmu_allows_def page_entry_def Let_def pd_index_def pt_index_def)

lemma frame_plus_offset: "(e AND 0xFFFFF000) + (a AND 0xFFF) = (e AND 0xFFFFF000) OR (a AND 0xFFF)"
  for e a :: u32
proof (rule disjunctive_add_eq_or)
  have "(0xFFFFF000 :: u32) AND 0xFFF = 0" by simp
  then show "(e AND 0xFFFFF000) AND a AND 0xFFF = 0"
    by (metis (no_types, lifting) and.assoc and.left_commute and_zero_eq)
qed


subsection \<open>The identity map\<close>

text \<open>Where the linker may put the static tables.\<close>

definition boot_tables_ok :: "u32 \<Rightarrow> u32 \<Rightarrow> bool" where
  "boot_tables_ok kpd kpt \<longleftrightarrow>
     page_aligned kpd \<and> page_aligned kpt \<and> unat kpt + 0x100000 \<le> 2 ^ 32 \<and>
     (unat kpd < unat kpt \<or> unat kpt + 0x100000 \<le> unat kpd)"

abbreviation boot_table :: "u32 \<Rightarrow> nat \<Rightarrow> u32" where
  "boot_table kpt i \<equiv> kpt + of_nat i * 4096"

lemma boot_table:
  assumes "boot_tables_ok kpd kpt" "i < 256"
  shows "unat (boot_table kpt i) = unat kpt + i * 4096" "page_aligned (boot_table kpt i)"
    "boot_table kpt i \<noteq> kpd"
proof -
  have "unat (of_nat i * 4096 :: u32) = i * 4096" using assms(2) by (simp add: unat_word_ariths unat_of_nat)
  then show un: "unat (boot_table kpt i) = unat kpt + i * 4096"
    using assms by (simp add: unat_add_no_wrap boot_tables_ok_def)
  then show "page_aligned (boot_table kpt i)" using assms by (simp add: page_aligned_def boot_tables_ok_def)
  have "unat (boot_table kpt i) \<noteq> unat kpd" using un assms by (auto simp: boot_tables_ok_def)
  then show "boot_table kpt i \<noteq> kpd" by metis
qed

lemma boot_table_inject:
  assumes "boot_tables_ok kpd kpt" "i < 256" "j < 256"
  shows "boot_table kpt i = boot_table kpt j \<longleftrightarrow> i = j"
  unfolding word_eq_iff_unat_u32 boot_table(1) [OF assms(1,2)] boot_table(1) [OF assms(1,3)] by simp

lemma tables_only_init_table [simp, intro]: "tables_only s (init_table kpd kpt i s)"
  unfolding init_table_def Let_def by (blast intro: tables_only_trans)

definition boot_pte :: "nat \<Rightarrow> nat \<Rightarrow> u32" where
  "boot_pte i j = of_nat (i * 1024 + j) * PAGE_SIZE OR PAGE_PRESENT OR PAGE_WRITE"

lemma init_tables:
  fixes s :: "'a paging_state_scheme"
  assumes lay: "boot_tables_ok kpd kpt" and "n \<le> 256"
  defines "S \<equiv> fold (init_table kpd kpt) [0..<n] s"
  shows "(\<forall>i. unat i < 1024 \<longrightarrow> pmem S (slot kpd i) =
            (if unat i < n then boot_table kpt (unat i) OR PAGE_PRESENT OR PAGE_WRITE
             else pmem s (slot kpd i))) \<and>
     (\<forall>i j. i < n \<longrightarrow> unat j < 1024 \<longrightarrow> pmem S (slot (boot_table kpt i) j) = boot_pte i (unat j)) \<and>
     free_pages S = free_pages s"
  using assms(2) unfolding S_def
proof (induction n)
  case 0
  show ?case by simp
next
  case (Suc n)
  define T where "T = fold (init_table kpd kpt) [0..<n] s"
  have kpd: "page_aligned kpd" using lay by (simp add: boot_tables_ok_def)
  have n: "n < 256" using Suc.prems by simp
  note bt = boot_table [OF lay n]
  note IH = Suc.IH [OF less_imp_le [OF n], folded T_def]
  have un: "unat (of_nat n :: u32) = n" using n by (simp add: unat_of_nat)
  have step: "fold (init_table kpd kpt) [0..<Suc n] s = init_table kpd kpt n T" by (simp add: T_def)
  have dir: "pmem (init_table kpd kpt n T) (slot kpd i) =
      (if unat i = n then boot_table kpt n OR PAGE_PRESENT OR PAGE_WRITE else pmem T (slot kpd i))"
    if "unat i < 1024" for i
  proof -
    have "slot kpd i = slot kpd (of_nat n) \<longleftrightarrow> unat i = n"
      using that un n by (subst slot_inject [OF kpd kpd]) (auto simp: word_eq_iff_unat_u32)
    with bt(3) slot_frame [OF kpd that] show ?thesis
      by (simp add: init_table_def Let_def fill_table_other [OF bt(2)])
  qed
  have tab: "pmem (init_table kpd kpt n T) (slot (boot_table kpt i) j) =
      (if i = n then boot_pte n (unat j) else pmem T (slot (boot_table kpt i) j))"
    if "i < Suc n" "unat j < 1024" for i j
  proof -
    have i: "i < 256" using that n by simp
    note bi = boot_table [OF lay i]
    have "slot (boot_table kpt i) j \<noteq> slot kpd (of_nat n)"
      using bi(3) n un that by (subst slot_inject [OF bi(2) kpd]) auto
    moreover have "slot (boot_table kpt i) j AND 0xFFFFF000 = boot_table kpt i"
      by (rule slot_frame [OF bi(2) that(2)])
    ultimately show ?thesis
      using boot_table_inject [OF lay i n]
      by (cases "i = n") (simp_all add: init_table_def Let_def boot_pte_def
          fill_table_at [OF bt(2) that(2)] fill_table_other [OF bt(2)])
  qed
  have "free_pages (init_table kpd kpt n T) = free_pages T"
    by (simp add: init_table_def Let_def fill_table_pmm [OF bt(2)])
  with IH dir tab show ?case unfolding step by (auto simp: less_Suc_eq)
qed



lemma entry_of_aligned:
  assumes "page_aligned b" "x AND 0xFFFFF000 = 0"
  shows "(b OR x) AND 0xFFFFF000 = b" and "unat (b OR x) div 4096 = unat b div 4096"
    and "n < 12 \<Longrightarrow> bit (b OR x) n = bit x n"
proof -
  show *: "(b OR x) AND 0xFFFFF000 = b"
    using assms frame_mask_aligned [OF assms(1)] by (simp add: bit.conj_disj_distrib2)
  show "unat (b OR x) div 4096 = unat b div 4096"
    using arg_cong [OF *, of unat] assms(1) by (simp add: frame_mask_unat page_aligned_def)
  have m: "(0xFFFFF000 :: u32) = NOT (mask 12)" by (simp add: mask_eq_exp_minus_1)
  have "\<not> bit b n" if "n < 12"
    by (subst frame_mask_aligned [OF assms(1), symmetric], subst m) (use that in \<open>simp add: bit_simps\<close>)
  then show "n < 12 \<Longrightarrow> bit (b OR x) n = bit x n" by (simp add: bit_or_iff)
qed

lemma kernel_flags:
  "(PAGE_PRESENT OR PAGE_WRITE) AND 0xFFFFF000 = 0" "bit (PAGE_PRESENT OR PAGE_WRITE) 0"
  "bit (PAGE_PRESENT OR PAGE_WRITE) 1" "\<not> bit (PAGE_PRESENT OR PAGE_WRITE) 2"
  by (simp_all add: c_consts bit_simps)

lemma boot_pte_eq:
  assumes "unat va < 0x40000000"
  shows "boot_pte (unat va div 4194304) (unat va div 4096 mod 1024) =
    (va AND 0xFFFFF000) OR PAGE_PRESENT OR PAGE_WRITE"
proof -
  have "unat va div 4194304 * 1024 + unat va div 4096 mod 1024 = unat va div 4096"
  proof -
    have "unat va div 4194304 = unat va div 4096 div 1024" by (simp add: div_mult2_eq [symmetric])
    then show ?thesis by simp
  qed
  moreover have "of_nat (unat va div 4096) * PAGE_SIZE = va AND 0xFFFFF000"
  proof -
    have "unat va div 4096 < max_pages" using unat_lt_u32 [of va] by (simp add: less_mult_imp_div_less)
    from page_addr_inverse [OF this] show ?thesis by (simp only: word_eq_iff_unat_u32 frame_mask_unat)
  qed
  ultimately show ?thesis by (simp only: boot_pte_def)
qed

lemma paging_init_spec:
  fixes s :: "'a paging_state_scheme"
  assumes lay: "boot_tables_ok kpd kpt"
    and used: "unat kpd div 4096 \<notin> free_pages s"
      "\<forall>i < 256. unat kpt div 4096 + i \<notin> free_pages s"
  defines "s' \<equiv> paging_init kpd kpt s"
  shows "page_entry s' kpd va =
           (if unat va < 0x40000000 then Some ((va AND 0xFFFFF000) OR PAGE_PRESENT OR PAGE_WRITE)
            else None)"
    and "dir_wf s' kpd"
    and "mmu_walk (pmem s') kpd True wr va = None"
    and "current_pd_phys s' = kpd" "kernel_pd_phys s' = kpd" "cr3 s' = kpd" "paging_on s'"
    and "interrupt_handlers s' 14 = Some Page_Fault_Handler" "free_pages s' = free_pages s"
proof -
  have kpd: "page_aligned kpd" using lay by (simp add: boot_tables_ok_def)
  define s0 where "s0 = fill_table kpd (\<lambda>_. 0) s"
  define s1 where "s1 = fold (init_table kpd kpt) [0..<256] s0"
  note tabs = init_tables [OF lay, of 256 s0, folded s1_def]
  show "current_pd_phys s' = kpd" "kernel_pd_phys s' = kpd" "cr3 s' = kpd" "paging_on s'"
    by (simp_all add: s'_def paging_init_def paging_enable_def register_interrupt_handler_def Let_def)
  have mem: "pmem s' = pmem s1" and fr: "free_pages s' = free_pages s1"
    and ih: "interrupt_handlers s' 14 = Some Page_Fault_Handler"
    by (simp_all add: s'_def paging_init_def paging_enable_def register_interrupt_handler_def
        s1_def s0_def Let_def free_pages_def page_used_def)
  show "interrupt_handlers s' 14 = Some Page_Fault_Handler" by (rule ih)
  show free: "free_pages s' = free_pages s" using tabs fr by (simp add: s0_def fill_table_pmm [OF kpd])
  have pde: "pmem s' (slot kpd i) =
      (if unat i < 256 then boot_table kpt (unat i) OR PAGE_PRESENT OR PAGE_WRITE else 0)"
    if "unat i < 1024" for i
    using tabs that by (simp add: mem s0_def fill_table_at [OF kpd])
  have e: "(boot_table kpt i OR PAGE_PRESENT OR PAGE_WRITE) AND 0xFFFFF000 = boot_table kpt i"
      "bit (boot_table kpt i OR PAGE_PRESENT OR PAGE_WRITE) 0"
      "\<not> bit (boot_table kpt i OR PAGE_PRESENT OR PAGE_WRITE) 2"
      "unat (boot_table kpt i OR PAGE_PRESENT OR PAGE_WRITE) div 4096 = unat kpt div 4096 + i"
    if "i < 256" for i
    using entry_of_aligned [OF boot_table(2) [OF lay that] kernel_flags(1)] kernel_flags
      boot_table(1) [OF lay that] by simp_all
  show "mmu_walk (pmem s') kpd True wr va = None"
    using pde [OF index_bounds(1), of va] e(3) [of "unat (pd_index va)"]
    by (auto simp: mmu_walk_def mmu_allows_def pd_index_def Let_def)
  have low: "unat (pd_index va) < 256 \<longleftrightarrow> unat va < 0x40000000"
    by (simp add: pd_index_unat div_less_iff_less_mult)
  have "pmem s' (slot (boot_table kpt (unat (pd_index va))) (pt_index va)) =
      (va AND 0xFFFFF000) OR PAGE_PRESENT OR PAGE_WRITE" if "unat va < 0x40000000"
    using tabs low that index_bounds boot_pte_eq [OF that] by (simp add: mem pd_index_unat pt_index_unat)
  then show "page_entry s' kpd va =
      (if unat va < 0x40000000 then Some ((va AND 0xFFFFF000) OR PAGE_PRESENT OR PAGE_WRITE)
       else None)"
    using pde [OF index_bounds(1), of va] low e(1,2) [of "unat (pd_index va)"] kernel_flags(2)
    by (auto simp: page_entry_def Let_def bit_or_iff)
  have tbl: "unat i < 256 \<and> pmem s' (slot kpd i) AND 0xFFFFF000 = boot_table kpt (unat i) \<and>
      unat (pmem s' (slot kpd i)) div 4096 = unat kpt div 4096 + unat i"
    if "unat i < 1024" "bit (pmem s' (slot kpd i)) 0" for i
    using pde [OF that(1)] that(2) e [of "unat i"] by (simp split: if_splits)
  show "dir_wf s' kpd" unfolding dir_wf_def free
  proof (intro conjI allI impI)
    fix i :: u32 assume i: "unat i < 1024" "bit (pmem s' (slot kpd i)) 0"
    show "pmem s' (slot kpd i) AND 0xFFFFF000 \<noteq> kpd"
      using tbl [OF i] boot_table(3) [OF lay] by metis
    show "unat (pmem s' (slot kpd i)) div 4096 \<notin> free_pages s"
      using tbl [OF i] used(2) by metis
    fix j :: u32 assume j: "unat j < 1024" "bit (pmem s' (slot kpd j)) 0"
      and "pmem s' (slot kpd i) AND 0xFFFFF000 = pmem s' (slot kpd j) AND 0xFFFFF000"
    then show "i = j"
      using tbl [OF i] tbl [OF j] boot_table_inject [OF lay] word_eq_iff_unat_u32 by metis
  qed (use kpd used(1) in simp_all)
qed


subsection \<open>Cloning\<close>

text \<open>Memory changes inside one free frame do not show in a well-formed directory.\<close>

lemma dir_outside:
  assumes wf: "dir_wf s d" and f: "page_aligned f" "unat f div 4096 \<in> free_pages s"
    and mem: "\<And>a. a AND 0xFFFFF000 \<noteq> f \<Longrightarrow> pmem s' a = pmem s a"
    and free: "free_pages s' \<subseteq> free_pages s"
  shows "dir_wf s' d" and "page_entry s' d va = page_entry s d va"
    and "unat i < 1024 \<Longrightarrow> pmem s' (slot d i) = pmem s (slot d i)"
    and "unat i < 1024 \<Longrightarrow> bit (pmem s (slot d i)) 0 \<Longrightarrow> pmem s (slot d i) AND 0xFFFFF000 \<noteq> f"
proof -
  have d: "page_aligned d" "d \<noteq> f" using dir_wfD(1,2) [OF wf] f by auto
  show pdes: "pmem s' (slot d i) = pmem s (slot d i)" if "unat i < 1024" for i
    using mem slot_frame [OF d(1) that] d(2) by simp
  show tf: "pmem s (slot d i) AND 0xFFFFF000 \<noteq> f" if "unat i < 1024" "bit (pmem s (slot d i)) 0" for i
  proof
    assume "pmem s (slot d i) AND 0xFFFFF000 = f"
    from arg_cong [OF this, of unat] have "unat (pmem s (slot d i)) div 4096 = unat f div 4096"
      by (simp add: frame_mask_unat)
    with dir_wfD(4) [OF wf that] f(2) show False by simp
  qed
  show "dir_wf s' d" using wf free unfolding dir_wf_def by (auto simp: pdes)
  show "page_entry s' d va = page_entry s d va"
    using tf [OF index_bounds(1), of va] mem index_bounds
    by (auto simp: page_entry_def Let_def pdes slot_frame)
qed

lemma clone_loop:
  fixes s :: "'a paging_state_scheme"
  assumes "page_aligned f" "page_aligned k" "f \<noteq> k" "kernel_pd_phys s = k" "n \<le> 1024"
  defines "S \<equiv> fold (\<lambda>i s. mem_write (slot f (of_nat i))
                     (pmem s (slot (kernel_pd_phys s) (of_nat i))) s) [0..<n] s"
  shows "(\<forall>i. unat i < n \<longrightarrow> pmem S (slot f i) = pmem s (slot k i)) \<and>
    (\<forall>a. a AND 0xFFFFF000 \<noteq> f \<longrightarrow> pmem S a = pmem s a) \<and>
    free_pages S = free_pages s \<and> pmm_inv M S = pmm_inv M s \<and> kernel_pd_phys S = k"
  using assms(5) unfolding S_def
proof (induction n)
  case 0
  show ?case using assms(4) by simp
next
  case (Suc n)
  have un: "unat (of_nat n :: u32) = n" using Suc.prems by (simp add: unat_of_nat)
  then have n: "unat (of_nat n :: u32) < 1024" using Suc.prems by simp
  note fn = slot_frame [OF assms(1) n] and kn = slot_frame [OF assms(2) n]
  have "slot f i = slot f (of_nat n) \<longleftrightarrow> unat i = n" if "unat i \<le> n" for i
    using that Suc.prems by (subst slot_inject [OF assms(1,1)]) (auto simp: word_eq_iff_unat_u32 un)
  then show ?case using Suc fn kn assms(3) by (auto simp: less_Suc_eq)
qed


lemma paging_clone_spec:
  assumes inv: "pmm_inv M s" and wf: "dir_wf s (kernel_pd_phys s)"
    and res: "paging_clone_pd s = (d', s')"
  shows "free_pages s = {} \<Longrightarrow> d' = 0 \<and> s' = s"
    and "free_pages s \<noteq> {} \<Longrightarrow> d' \<noteq> 0 \<and> pmm_inv M s' \<and> dir_wf s' d' \<and>
          unat d' div 4096 \<in> free_pages s \<and> free_pages s' = free_pages s - {unat d' div 4096} \<and>
          (\<forall>va. page_entry s' d' va = page_entry s (kernel_pd_phys s) va) \<and>
          (\<forall>d va. dir_wf s d \<longrightarrow> dir_wf s' d \<and> page_entry s' d va = page_entry s d va)"
proof -
  let ?k = "kernel_pd_phys s"
  show "free_pages s = {} \<Longrightarrow> d' = 0 \<and> s' = s"
    using res by (cases s rule: pmm_alloc_page_cases) (auto simp: paging_clone_pd_def)
  assume free: "free_pages s \<noteq> {}"
  obtain f s0 where al: "pmm_alloc_page s = (f, s0)" by fastforce
  have f0: "f \<noteq> 0" using pmm_inv_alloc_zero [OF inv] al free by simp
  note fr = alloc_frame_fresh [OF inv wf al f0]
  have k: "page_aligned ?k" and k0: "kernel_pd_phys s0 = ?k"
    using dir_wfD(1) [OF wf] tables_only_regs(2) [OF tables_only_alloc [OF al]] by auto
  have d': "d' = f" and s': "s' = fold (\<lambda>i s. mem_write (slot f (of_nat i))
      (pmem s (slot (kernel_pd_phys s) (of_nat i))) s) [0..<1024] s0"
    using res al f0 by (auto simp: paging_clone_pd_def)
  note loop = clone_loop [OF fr(3) k fr(6) k0 order_refl, folded s']
  have free': "free_pages s' = free_pages s - {unat f div 4096}" using loop fr(5) by simp
  have out: "pmem s' a = pmem s a" if "a AND 0xFFFFF000 \<noteq> f" for a using loop that fr(7) by simp
  have ent: "pmem s' (slot f i) = pmem s (slot ?k i)" if "unat i < 1024" for i
    using loop that fr(7) by simp
  note outside = dir_outside [OF _ fr(3,4) out]
  have sub: "free_pages s' \<subseteq> free_pages s" using free' by blast
  have tf: "pmem s (slot ?k i) AND 0xFFFFF000 \<noteq> f" if "unat i < 1024" "bit (pmem s (slot ?k i)) 0" for i
    using fr(8) that by blast
  have "page_entry s' f va = page_entry s ?k va" for va
    using tf [OF index_bounds(1), of va] out index_bounds
    by (auto simp: page_entry_def Let_def ent slot_frame)
  moreover have "dir_wf s' f"
    using fr(3) dir_wfD [OF wf] tf free' unfolding dir_wf_def by (auto simp: ent)
  ultimately show "d' \<noteq> 0 \<and> pmm_inv M s' \<and> dir_wf s' d' \<and>
          unat d' div 4096 \<in> free_pages s \<and> free_pages s' = free_pages s - {unat d' div 4096} \<and>
          (\<forall>va. page_entry s' d' va = page_entry s ?k va) \<and>
          (\<forall>d va. dir_wf s d \<longrightarrow> dir_wf s' d \<and> page_entry s' d va = page_entry s d va)"
    using d' f0 loop fr(1,4) free' outside(1,2) [OF _ _ sub] by auto
qed


subsection \<open>The interface of the page mapper\<close>

text \<open>
  What the rest of the kernel relies on when it maps memory: \<open>entry s va\<close> is the entry of the
  page of \<open>va\<close>, and \<open>can s va\<close> says that the table for \<open>va\<close> exists or can be allocated.
\<close>

locale page_mapper =
  fixes entry :: "'s \<Rightarrow> u32 \<Rightarrow> u32 option"
    and mapp :: "u32 \<Rightarrow> u32 \<Rightarrow> u32 \<Rightarrow> 's \<Rightarrow> 's"
    and unmap :: "u32 \<Rightarrow> 's \<Rightarrow> 's"
    and ok :: "'s \<Rightarrow> bool"
    and can :: "'s \<Rightarrow> u32 \<Rightarrow> bool"
  assumes map_keeps: "ok s \<Longrightarrow> ok (mapp va pa fl s)"
    and unmap_keeps: "ok s \<Longrightarrow> ok (unmap va s)"
    and map_entry: "ok s \<Longrightarrow> can s va \<Longrightarrow> entry (mapp va pa fl s) vb =
          (if va AND 0xFFFFF000 = vb AND 0xFFFFF000 then Some (pte_value pa fl) else entry s vb)"
    and unmap_entry: "ok s \<Longrightarrow> entry (unmap va s) vb =
          (if va AND 0xFFFFF000 = vb AND 0xFFFFF000 then None else entry s vb)"
    and map_table: "ok s \<Longrightarrow> can s va \<Longrightarrow> can (mapp va pa fl s) va"
    and can_region: "pd_index va = pd_index vb \<Longrightarrow> can s va = can s vb"
begin

lemma remap_entry:
  assumes "ok s" "can s va"
  shows "entry (mapp va pb fb (mapp va pa fa s)) vb = entry (mapp va pb fb s) vb"
  using assms by (simp add: map_entry map_keeps map_table)

lemma unmap_after_map:
  assumes "ok s" "can s va"
  shows "entry (unmap va (mapp va pa fl s)) vb = entry (unmap va s) vb"
  using assms by (simp add: map_entry unmap_entry map_keeps)

text \<open>Mapping a run of pages that share one table.\<close>

lemma map_run:
  assumes "ok s" "can s (va 0)"
    and "\<And>i. i < n \<Longrightarrow> pd_index (va i) = pd_index (va 0)"
    and "\<And>i j. i < n \<Longrightarrow> j < n \<Longrightarrow> va i AND 0xFFFFF000 = va j AND 0xFFFFF000 \<Longrightarrow> i = j"
  shows "let s' = fold (\<lambda>i. mapp (va i) (pa i) fl) [0..<n] s
    in ok s' \<and> can s' (va 0) \<and> (\<forall>i < n. entry s' (va i) = Some (pte_value (pa i) fl)) \<and>
       (\<forall>vb. (\<forall>i < n. va i AND 0xFFFFF000 \<noteq> vb AND 0xFFFFF000) \<longrightarrow> entry s' vb = entry s vb)"
  using assms(3,4)
proof (induction n)
  case 0
  then show ?case using assms(1,2) by simp
next
  case (Suc n)
  define t where "t = fold (\<lambda>i. mapp (va i) (pa i) fl) [0..<n] s"
  have small: "pd_index (va i) = pd_index (va 0)" if "i < n" for i
    by (rule Suc.prems(1)) (use that in simp)
  have inj: "i = j" if "i < n" "j < n" "va i AND 0xFFFFF000 = va j AND 0xFFFFF000" for i j
    by (rule Suc.prems(2) [OF _ _ that(3)]) (use that in simp_all)
  have t: "ok t" "can t (va 0)" "\<forall>i < n. entry t (va i) = Some (pte_value (pa i) fl)"
    "\<forall>vb. (\<forall>i < n. va i AND 0xFFFFF000 \<noteq> vb AND 0xFFFFF000) \<longrightarrow> entry t vb = entry s vb"
    using Suc.IH [OF small inj, folded t_def] unfolding Let_def by blast+
  have can: "can t (va n)" using t(2) Suc.prems(1) [of n] can_region by blast
  have "can (mapp (va n) (pa n) fl t) (va 0)"
    using map_table [OF t(1) can] Suc.prems(1) [of n] can_region by blast
  moreover have "entry (mapp (va n) (pa n) fl t) (va i) = Some (pte_value (pa i) fl)" if "i < Suc n" for i
  proof (cases "i = n")
    case True
    then show ?thesis by (simp add: map_entry [OF t(1) can])
  next
    case False
    then have "va n AND 0xFFFFF000 \<noteq> va i AND 0xFFFFF000" using Suc.prems(2) [of n i] that by blast
    moreover have "i < n" using False that by simp
    ultimately show ?thesis using t(3) by (simp add: map_entry [OF t(1) can])
  qed
  moreover have "entry (mapp (va n) (pa n) fl t) vb = entry s vb"
    if "\<forall>i < Suc n. va i AND 0xFFFFF000 \<noteq> vb AND 0xFFFFF000" for vb
    using that t(4) [rule_format, of vb] by (simp add: map_entry [OF t(1) can])
  ultimately show ?case
    using map_keeps [OF t(1)] by (simp add: Let_def t_def [symmetric])
qed

end

interpretation pages: page_mapper
  "\<lambda>s. page_entry s (current_pd_phys s)" paging_map_page paging_unmap_page "paging_ok M" mappable
  for M
proof
  fix s :: "'a paging_state_scheme" and va vb pa fl
  have pd: "current_pd_phys (paging_map_page va pa fl s) = current_pd_phys s"
    "current_pd_phys (paging_unmap_page va s) = current_pd_phys s"
    by (simp_all add: tables_only_regs [OF tables_only_map] tables_only_regs [OF tables_only_unmap])
  show "mappable s va = mappable s vb" if "pd_index va = pd_index vb"
    using that by (simp add: mappable_def)
  assume ok: "paging_ok M s"
  show "paging_ok M (paging_map_page va pa fl s)" by (rule map_page_ok [OF ok])
  show "paging_ok M (paging_unmap_page va s)"
    and "page_entry (paging_unmap_page va s) (current_pd_phys (paging_unmap_page va s)) vb =
      (if va AND 0xFFFFF000 = vb AND 0xFFFFF000 then None else page_entry s (current_pd_phys s) vb)"
    using unmap_page_entry [OF ok] pd by simp_all
  assume can: "mappable s va"
  show e: "page_entry (paging_map_page va pa fl s) (current_pd_phys (paging_map_page va pa fl s)) vb =
      (if va AND 0xFFFFF000 = vb AND 0xFFFFF000 then Some (pte_value pa fl)
       else page_entry s (current_pd_phys s) vb)" for vb
    using map_page_entry [OF ok can] pd by simp
  show "mappable (paging_map_page va pa fl s) va"
    using e [of va] by (auto simp: mappable_def page_entry_def Let_def split: if_splits)
qed


subsection \<open>Page faults\<close>

text \<open>Reading hexadecimal digits back.\<close>

definition hex_digit :: "char \<Rightarrow> nat" where
  "hex_digit c = (if of_char c < (58 :: nat) then of_char c - 48 else of_char c - 55)"
definition hex_value :: "string \<Rightarrow> nat" where
  "hex_value cs = foldl (\<lambda>n c. n * 16 + hex_digit c) 0 cs"

lemma hex_digits: "d < 16 \<Longrightarrow> hex_digit (''0123456789ABCDEF'' ! d) = d \<and> plain (''0123456789ABCDEF'' ! d)"
proof -
  have "\<forall>d < 16. hex_digit (''0123456789ABCDEF'' ! d) = d \<and> plain (''0123456789ABCDEF'' ! d)" by code_simp
  then show "d < 16 \<Longrightarrow> ?thesis" by blast
qed


lemma nibble: "unat (drop_bit n (a :: u32) AND 0xF) = unat a div 2 ^ n mod 16"
proof -
  have "drop_bit n a AND 0xF = take_bit 4 (drop_bit n a)" by (simp add: take_bit_eq_mask mask_eq_exp_minus_1)
  then have "unat (drop_bit n a AND 0xF) = take_bit 4 (drop_bit n (unat a))"
    by (simp only: unsigned_take_bit_eq unat_drop_bit_eq)
  then show ?thesis by (simp add: take_bit_eq_mod drop_bit_eq_div)
qed

lemma nibble_sum:
  "foldl (\<lambda>n i. n * 16 + x div 2 ^ (i * 4) mod 16) acc (rev [0..<k]) =
     acc * 2 ^ (k * 4) + x mod 2 ^ (k * 4)" for x :: nat
proof (induction k arbitrary: acc)
  case (Suc k)
  have "x mod (2 ^ (k * 4) * 16) = 2 ^ (k * 4) * (x div 2 ^ (k * 4) mod 16) + x mod 2 ^ (k * 4)"
    by (rule mod_mult2_eq)
  then show ?case by (simp add: Suc power_add algebra_simps)
qed simp

lemma hex_address:
  "hex_value (drop 2 (hex_address a)) = unat a" "\<forall>c \<in> set (hex_address a). plain c"
  "length (hex_address a) = 10"
proof -
  have d: "hex_digit (''0123456789ABCDEF'' ! unat (drop_bit n a AND 0xF)) = unat a div 2 ^ n mod 16"
    "plain (''0123456789ABCDEF'' ! unat (drop_bit n a AND 0xF))" for n
    unfolding nibble using hex_digits [of "unat a div 2 ^ n mod 16"] by simp_all
  have "drop 2 (hex_address a) =
     map (\<lambda>i. ''0123456789ABCDEF'' ! unat (drop_bit (i * 4) a AND 0xF)) (rev [0..<8])"
     unfolding hex_address_def by (simp only: append_Cons append_Nil drop_Suc_Cons drop_0 numeral_2_eq_2)
  then have "hex_value (drop 2 (hex_address a)) =
    foldl (\<lambda>n i. n * 16 + unat a div 2 ^ (i * 4) mod 16) 0 (rev [0..<8])"
    by (simp only: hex_value_def foldl_map d)
  then show "hex_value (drop 2 (hex_address a)) = unat a"
    unfolding nibble_sum using unat_lt_u32 [of a] by simp
  have "plain CHR ''0''" "plain CHR ''x''" by (simp_all add: plain_def)
  moreover have "set (hex_address a) = {CHR ''0'', CHR ''x''} \<union>
      (\<lambda>i. ''0123456789ABCDEF'' ! unat (drop_bit (i * 4) a AND 0xF)) ` {0..<8}"
    unfolding hex_address_def set_append set_map set_rev set_upt by (simp only: list.set)
  moreover have "\<forall>c \<in> (\<lambda>i. ''0123456789ABCDEF'' ! unat (drop_bit (i * 4) a AND 0xF)) ` {0..<8}. plain c"
    by (rule ballI, erule imageE) (simp only: d(2))
  ultimately show "\<forall>c \<in> set (hex_address a). plain c" by (simp only: ball_Un ball_simps simp_thms)
  show "length (hex_address a) = 10" by (simp add: hex_address_def)
qed
lemma log_only_regs:
  "log_only s s' \<Longrightarrow> vga_color s' = vga_color s" "log_only s s' \<Longrightarrow> if_flag s' = if_flag s"
  by (auto simp: log_only_def screen_only_def)


lemma log_only_cli:
  assumes "log_only s s'"
  shows "log_only (cli s) (cli s')"
proof -
  from assms obtain h where "screen_only (s\<lparr>io_log := h\<rparr>) s'" by (auto simp: log_only_def)
  moreover have "cli s\<lparr>io_log := h\<rparr> = s\<lparr>io_log := h, if_flag := False\<rparr>" by (simp add: cli_def)
  ultimately show ?thesis
    unfolding log_only_def using screen_only_cli by metis
qed

lemma page_fault_panic_spec:
  assumes "uart_ready dev"
  shows "\<exists>t. page_fault_panic dev cr2 s = Some (Halted t) \<and> \<not> if_flag t \<and> log_only (cli s) t \<and>
    shows_at (vga_mem t) (24 * 80) (''[INFO] '' @ hex_address cr2) (vga_color s) \<and>
    serial_sent (io_log t) = serial_sent (io_log s) @ map of_char
      (''[INFO] Page Fault Panic!'' @ [NEWLINE] @ ''[INFO] Fault Address (CR2):'' @ [NEWLINE] @
       ''[INFO] '' @ hex_address cr2 @ [NEWLINE])"
proof -
  have lg: "\<exists>s'. log_info dev msg s = Some s' \<and> log_only s s' \<and>
      serial_sent (io_log s') = serial_sent (io_log s) @
        map of_char (''[INFO] '' @ msg @ [NEWLINE]) \<and>
      (length msg \<le> 73 \<longrightarrow> shows_at (vga_mem s') (24 * 80) (''[INFO] '' @ msg) (vga_color s))"
    if "\<forall>c \<in> set msg. plain c" for msg and s :: "'a paging_state_scheme"
  proof -
    have "takeWhile (\<lambda>c. c \<noteq> NUL) msg = msg"
      using that by (auto simp: plain_def takeWhile_eq_all_conv)
    with log_info_done [OF assms, of msg s] that show ?thesis unfolding log_only_def by metis
  qed
  have p: "\<forall>c \<in> set ''Page Fault Panic!''. plain c" "\<forall>c \<in> set ''Fault Address (CR2):''. plain c"
    by (simp_all add: plain_def)
  obtain s1 where s1: "log_info dev ''Page Fault Panic!'' s = Some s1" "log_only s s1"
    "serial_sent (io_log s1) = serial_sent (io_log s) @
        map of_char (''[INFO] '' @ ''Page Fault Panic!'' @ [NEWLINE])"
    using lg [OF p(1), of s] by blast
  obtain s2 where s2: "log_info dev ''Fault Address (CR2):'' s1 = Some s2" "log_only s1 s2"
    "serial_sent (io_log s2) = serial_sent (io_log s1) @
        map of_char (''[INFO] '' @ ''Fault Address (CR2):'' @ [NEWLINE])"
    using lg [OF p(2), of s1] by blast
  obtain s3 where s3: "log_info dev (hex_address cr2) s2 = Some s3" "log_only s2 s3"
    "serial_sent (io_log s3) = serial_sent (io_log s2) @
        map of_char (''[INFO] '' @ hex_address cr2 @ [NEWLINE])"
    "shows_at (vga_mem s3) (24 * 80) (''[INFO] '' @ hex_address cr2) (vga_color s2)"
    using lg [OF hex_address(2), of cr2 s2] hex_address(3) [of cr2] by auto
  have "log_only s s3" using s1(2) s2(2) s3(2) by (blast intro: log_only_trans)
  then have "log_only (cli s) (cli s3)" by (rule log_only_cli)
  moreover have "vga_color s2 = vga_color s" using s1(2) s2(2) by (simp add: log_only_regs)
  moreover have "page_fault_panic dev cr2 s = Some (Halted (cli s3))"
    using s1(1) s2(1) s3(1) by (simp add: page_fault_panic_def)
  moreover have "serial_sent (io_log (cli s3)) = serial_sent (io_log s) @ map of_char
      (''[INFO] Page Fault Panic!'' @ [NEWLINE] @ ''[INFO] Fault Address (CR2):'' @ [NEWLINE] @
       ''[INFO] '' @ hex_address cr2 @ [NEWLINE])"
    using s1(3) s2(3) s3(3) by (simp add: cli_def)
  ultimately show ?thesis using s3(4) by (auto simp: cli_def)
qed

text \<open>A fault on a page that is not present, when no reserved bit is set.\<close>

definition demand_fault :: "registers \<Rightarrow> bool" where
  "demand_fault regs \<longleftrightarrow> err_code regs AND 0x1 = 0 \<and> err_code regs AND 0x8 = 0"

definition fault_flags :: "registers \<Rightarrow> u32" where
  "fault_flags regs = PAGE_PRESENT OR PAGE_WRITE OR (if err_code regs AND 0x4 \<noteq> 0 then PAGE_USER else 0)"

lemma page_fault_demand:
  assumes "demand_fault regs" "pmm_alloc_page s = (f, s1)" "f \<noteq> 0"
  shows "page_fault_handler dev cr2 regs s =
    Some (Returned regs (paging_map_page (cr2 AND 0xFFFFF000) f (fault_flags regs) s1))"
  using assms by (simp add: page_fault_handler_def demand_fault_def fault_flags_def Let_def or.assoc)


lemma table_write_keeps_dir:
  assumes "dir_wf s d" "bit (pmem s (slot d (pd_index va))) 0" "unat i < 1024"
  shows "pmem (mem_write (slot (pmem s (slot d (pd_index va)) AND 0xFFFFF000) (pt_index va)) w s) (slot d i) =
    pmem s (slot d i)"
proof -
  have "pmem s (slot d (pd_index va)) AND 0xFFFFF000 \<noteq> d"
    using dir_wfD(3) [OF assms(1)] index_bounds(1) assms(2) by blast
  then have "slot d i \<noteq> slot (pmem s (slot d (pd_index va)) AND 0xFFFFF000) (pt_index va)"
    using slot_inject [OF dir_wfD(1) [OF assms(1)] page_aligned_mask assms(3) index_bounds(2)] by metis
  then show ?thesis by simp
qed

lemma paging_ok_alloc:
  assumes "paging_ok M s" "pmm_alloc_page s = (f, s1)" "f \<noteq> 0"
  shows "paging_ok M s1" "current_pd_phys s1 = current_pd_phys s"
    "page_entry s1 (current_pd_phys s) vb = page_entry s (current_pd_phys s) vb"
    "page_aligned f" "unat f div 4096 \<in> free_pages s"
    "free_pages s1 = free_pages s - {unat f div 4096}"
proof -
  have inv: "pmm_inv M s" and wf: "dir_wf s (current_pd_phys s)" using assms(1) by (auto simp: paging_ok_def)
  note fr = alloc_frame_fresh [OF inv wf assms(2,3)]
  show cur: "current_pd_phys s1 = current_pd_phys s"
    by (rule tables_only_regs [OF tables_only_alloc [OF assms(2)]])
  show "paging_ok M s1" using fr(1,2) cur by (simp add: paging_ok_def)
  show "page_entry s1 (current_pd_phys s) vb = page_entry s (current_pd_phys s) vb"
    using fr(7) by (simp add: page_entry_def)
  show "page_aligned f" "unat f div 4096 \<in> free_pages s"
    "free_pages s1 = free_pages s - {unat f div 4096}" by (rule fr)+
qed

lemma fill_table_frees [simp]: "free_pages (fill_table b v s) = free_pages s"
proof -
  have "free_pages (fold (\<lambda>i. mem_write (g i) (v i)) xs s) = free_pages s" for g xs
    by (induction xs arbitrary: s) simp_all
  then show ?thesis by (simp add: fill_table_def)
qed

lemma map_page_frees:
  assumes "paging_ok M s"
  shows "free_pages (paging_map_page va pa fl s) \<subseteq> free_pages s"
  using pmm_frames.alloc_frees_mono [of M s] assms
  by (auto simp: paging_map_page_def Let_def paging_ok_def split: prod.splits if_splits)

lemma fault_flags_low: "fault_flags regs AND 0xFFFFF000 = 0"
  by (simp add: fault_flags_def c_consts)

lemma pte_value_frame:
  "page_aligned f \<Longrightarrow> fl AND 0xFFFFF000 = 0 \<Longrightarrow> pte_value f fl AND 0xFFFFF000 = f"
  by (simp add: pte_value_def c_consts bit.conj_disj_distrib2 and.assoc frame_mask_aligned)

subsection \<open>Properties of paging\<close>

text \<open>An empty directory at \<open>0x2000\<close>; frame 1 is free.\<close>

definition demo_paging :: paging_state where
  "demo_paging = pmm_state.extend demo_one
     \<lparr>pmem = \<lambda>_. 0, kernel_pd_phys = 0x2000, current_pd_phys = 0x2000, cr3 = 0x2000, paging_on = True\<rparr>"

lemma demo_paging_simps [simp]:
  "free_pages demo_paging = {1}" "pmm_inv {1} demo_paging" "pmem demo_paging = (\<lambda>_. 0)"
  "current_pd_phys demo_paging = 0x2000" "kernel_pd_phys demo_paging = 0x2000"
  using demo_one_free demo_one_inv
  by (simp_all add: demo_paging_def pmm_state.extend_def free_pages_def page_used_def pmm_inv_def)

lemma demo_paging_ok: "paging_ok {1} demo_paging"
  using demo_paging_simps(2) by (simp add: paging_ok_def dir_wf_def page_aligned_def del: One_nat_def)

text \<open>The same with a kernel table at \<open>0x3000\<close> for the first 4 MiB.\<close>

definition demo_table :: paging_state where
  "demo_table = demo_paging\<lparr>pmem := (\<lambda>_. 0)(0x2000 := 0x3003)\<rparr>"

lemma demo_table_simps [simp]:
  "free_pages demo_table = {1}" "pmem demo_table = (\<lambda>_. 0)(0x2000 := 0x3003)"
  "current_pd_phys demo_table = 0x2000"
  using demo_paging_simps by (simp_all add: demo_table_def free_pages_def page_used_def)

lemma demo_table_ok: "paging_ok {1} demo_table"
proof -
  have "slot 0x2000 i = 0x2000 \<longleftrightarrow> i = 0" if "unat i < 1024" for i
    using slot_inject [of "0x2000" "0x2000" i 0] that by (simp add: page_aligned_def slot_def)
  then have "dir_wf demo_table 0x2000" by (auto simp: dir_wf_def page_aligned_def)
  moreover have "pmm_inv {1} demo_table"
    using demo_paging_simps(2) by (simp add: demo_table_def pmm_inv_def free_pages_def page_used_def)
  ultimately show ?thesis by (simp add: paging_ok_def)
qed

lemma demo_paging_mappable: "mappable demo_paging va"
  by (simp add: mappable_def)

text \<open>
  C2: \<open>paging_map_page\<close> maps exactly the requested page. When the page's table exists or a frame
  is free for it, afterwards addresses in that page translate to the given frame and every other
  address translates as before; otherwise nothing changes at all. Well-formedness of the
  directory and the accounting of frames are kept, and nothing but memory and the frame bitmap
  is touched.
\<close>

theorem paging_map_page_updates:
  assumes "paging_ok M s" and "fl AND 0xFFFFF000 = 0"
  shows "let s' = paging_map_page va pa fl s
    in paging_ok M s' \<and> tables_only s s' \<and>
       (if mappable s va
        then \<forall>vb. paging_get_physical vb s' =
               (if va AND 0xFFFFF000 = vb AND 0xFFFFF000
                then (pa AND 0xFFFFF000) + (vb AND 0xFFF)
                else paging_get_physical vb s)
        else s' = s)"
proof -
  let ?s' = "paging_map_page va pa fl s"
  have cur: "current_pd_phys ?s' = current_pd_phys s" by (rule tables_only_regs [OF tables_only_map])
  have pte: "pte_value pa fl AND 0xFFFFF000 = pa AND 0xFFFFF000"
    using assms(2) by (simp add: pte_value_def c_consts bit.conj_disj_distrib2 and.assoc)
  have "paging_get_physical vb ?s' =
      (if va AND 0xFFFFF000 = vb AND 0xFFFFF000 then (pa AND 0xFFFFF000) + (vb AND 0xFFF)
       else paging_get_physical vb s)" if "mappable s va" for vb
    unfolding get_physical_entry cur using pages.map_entry [OF assms(1) that, of pa fl vb] pte cur
    by simp
  then show ?thesis
    using map_page_ok [OF assms(1)] map_page_unmappable [OF assms(1), of va pa fl] by (simp add: Let_def)
qed

theorem paging_map_page_updates_witness:
  "paging_get_physical 0xC0000123 (paging_map_page 0xC0000000 0x5000 3 demo_paging) = 0x5123 \<and>
   paging_get_physical 0xC0001000 (paging_map_page 0xC0000000 0x5000 3 demo_paging) = 0"
proof -
  have "paging_get_physical 0xC0001000 demo_paging = 0"
    by (simp add: paging_get_physical_def c_consts)
  with paging_map_page_updates [OF demo_paging_ok, of 3 "0xC0000000" "0x5000"]
  show ?thesis by (simp add: Let_def demo_paging_mappable)
qed

text \<open>
  C23: \<open>paging_unmap_page\<close> removes the translation of the page it is given and of no other page,
  whether or not a table existed, and \<open>paging_get_physical\<close> then answers 0 for it.
\<close>

theorem paging_unmap_page_removes:
  assumes "paging_ok M s"
  shows "paging_get_physical vb (paging_unmap_page va s) =
      (if va AND 0xFFFFF000 = vb AND 0xFFFFF000 then 0 else paging_get_physical vb s) \<and>
    paging_ok M (paging_unmap_page va s)"
proof -
  have "current_pd_phys (paging_unmap_page va s) = current_pd_phys s"
    by (rule tables_only_regs [OF tables_only_unmap])
  then show ?thesis
    using pages.unmap_entry [OF assms, of va vb] pages.unmap_keeps [OF assms]
    by (simp add: get_physical_entry)
qed

theorem paging_unmap_page_removes_witness:
  "paging_get_physical 0x40000004
     (paging_unmap_page 0x40000000 (paging_map_page 0x40000000 0x7000 3 demo_paging)) = 0"
  using paging_unmap_page_removes
    [OF map_page_ok [OF demo_paging_ok], of "0x40000004" "0x40000000" "0x40000000" "0x7000" 3] by simp


text \<open>
  C18: after \<open>paging_init\<close> the processor translates every kernel access below 1 GiB to the same
  physical address and faults above; no address is accessible from user mode. The directory is
  well formed, is the current one and the kernel's, paging is on, and the page-fault handler is
  installed. The linker is assumed to place the tables page aligned, apart from each other and
  outside the free frames.
\<close>

theorem paging_init_identity_map:
  assumes "boot_tables_ok kpd kpt" and "unat kpd div 4096 \<notin> free_pages s"
    and "\<forall>i < 256. unat kpt div 4096 + i \<notin> free_pages s"
  shows "let s' = paging_init kpd kpt s
    in cr3 s' = kpd \<and> current_pd_phys s' = kpd \<and> kernel_pd_phys s' = kpd \<and> paging_on s' \<and>
       interrupt_handlers s' 14 = Some Page_Fault_Handler \<and> dir_wf s' kpd \<and>
       (\<forall>va wr. mmu_walk (pmem s') (cr3 s') False wr va =
          (if unat va < 0x40000000 then Some va else None)) \<and>
       (\<forall>va wr. mmu_walk (pmem s') (cr3 s') True wr va = None)"
proof -
  note spec = paging_init_spec [OF assms]
  have "((va AND 0xFFFFF000) OR PAGE_PRESENT OR PAGE_WRITE) AND 0xFFFFF000 = va AND 0xFFFFF000" for va
    using entry_of_aligned(1) [OF page_aligned_mask kernel_flags(1)] by simp
  then have "mmu_walk (pmem (paging_init kpd kpt s)) kpd False wr va =
      (if unat va < 0x40000000 then Some va else None)" for va wr
    unfolding mmu_walk_entry using spec(1) [of va] frame_plus_offset [of va va] frame_mask_split [of va]
    by simp
  then show ?thesis using spec(2-9) by (simp add: Let_def)
qed

theorem paging_init_identity_map_witness:
  "mmu_walk (pmem (paging_init 0x200000 0x300000 demo_paging)) 0x200000 False True 0x123456 = Some 0x123456"
proof -
  have "boot_tables_ok 0x200000 0x300000" by (simp add: boot_tables_ok_def page_aligned_def)
  from paging_init_identity_map [OF this, of demo_paging] show ?thesis by (auto simp: Let_def)
qed

text \<open>
  C33: \<open>paging_clone_pd\<close> returns a fresh directory that translates every address like the
  kernel's directory, and leaves every well-formed directory as it was; without a free frame it
  returns 0 and changes nothing.
\<close>

theorem paging_clone_pd_copies:
  assumes "pmm_inv M s" and "dir_wf s (kernel_pd_phys s)"
  shows "case paging_clone_pd s of (d', s') \<Rightarrow>
    if free_pages s = {} then d' = 0 \<and> s' = s
    else d' \<noteq> 0 \<and> pmm_inv M s' \<and> dir_wf s' d' \<and> unat d' div 4096 \<in> free_pages s \<and>
         free_pages s' = free_pages s - {unat d' div 4096} \<and>
         (\<forall>va. page_entry s' d' va = page_entry s (kernel_pd_phys s) va) \<and>
         (\<forall>d va. dir_wf s d \<longrightarrow> dir_wf s' d \<and> page_entry s' d va = page_entry s d va)"
proof -
  obtain d' s' where "paging_clone_pd s = (d', s')" by fastforce
  with paging_clone_spec [OF assms this] show ?thesis by simp
qed

theorem paging_clone_pd_copies_witness:
  "fst (paging_clone_pd demo_paging) = 0x1000 \<and>
   page_entry (snd (paging_clone_pd demo_paging)) 0x1000 0xC0000000 = None"
proof -
  have "dir_wf demo_paging (kernel_pd_phys demo_paging)" using demo_paging_ok by (simp add: paging_ok_def)
  note p = paging_clone_pd_copies [OF demo_paging_simps(2) this]
  obtain d' s' where r: "paging_clone_pd demo_paging = (d', s')" by fastforce
  with p have d: "unat d' div 4096 = 1" "dir_wf s' d'"
    "page_entry s' d' 0xC0000000 = page_entry demo_paging 0x2000 0xC0000000" by auto
  have "unat d' = unat (0x1000 :: u32)"
    using d(1) dir_wfD(1) [OF d(2)] div_mult_mod_eq [of "unat d'" 4096] by (simp add: page_aligned_def)
  then have "d' = 0x1000" by (simp only: word_eq_iff_unat_u32)
  with r d(3) show ?thesis by (simp add: page_entry_def)
qed


text \<open>
  C37: \<open>paging_map_page\<close> sets the user bit of a directory entry only when it creates the table.
  Mapping a page with \<open>PAGE_USER\<close> where a kernel table exists gives user mode no access to it,
  or to any page of that table.
\<close>

theorem user_page_in_kernel_table:
  assumes "paging_ok M s" and "pd_index vb = pd_index va"
    and "bit (pmem s (slot (current_pd_phys s) (pd_index va))) 0"
    and "\<not> bit (pmem s (slot (current_pd_phys s) (pd_index va))) 2"
  shows "mmu_walk (pmem (paging_map_page va pa (PAGE_PRESENT OR PAGE_WRITE OR PAGE_USER) s))
           (current_pd_phys s) True wr vb = None"
proof -
  have wf: "dir_wf s (current_pd_phys s)" using assms(1) by (simp add: paging_ok_def)
  have "pmem (paging_map_page va pa fl s) (slot (current_pd_phys s) (pd_index va)) =
      pmem s (slot (current_pd_phys s) (pd_index va))" for fl
    using table_write_keeps_dir [OF wf assms(3) index_bounds(1), of "pte_value pa fl" va] assms(3)
    by (simp add: paging_map_page_def present_iff Let_def pte_value_def)
  then show ?thesis
    using assms(2,4) by (simp add: mmu_walk_def mmu_allows_def pd_index_def Let_def)
qed

theorem user_page_in_kernel_table_witness:
  "mmu_walk (pmem (paging_map_page 0x8000 0x9000 (PAGE_PRESENT OR PAGE_WRITE OR PAGE_USER) demo_table))
     0x2000 True False 0x8000 = None"
  using user_page_in_kernel_table [OF demo_table_ok, of "0x8000" "0x8000" "0x9000" False]
  by (simp add: pd_index_def slot_def)





text \<open>
  C35: a protection violation, a reserved bit, or memory exhaustion stops the processor: the
  handler reports the faulting address on the serial line and in hexadecimal on the bottom row,
  disables interrupts and never returns.
\<close>

theorem page_fault_panics:
  assumes "uart_ready dev" and "\<not> demand_fault regs \<or> free_pages s = {}"
  shows "\<exists>t digits. page_fault_handler dev cr2 regs s = Some (Halted t) \<and> \<not> if_flag t \<and>
    log_only (cli s) t \<and> hex_value digits = unat cr2 \<and>
    shows_at (vga_mem t) (24 * 80) (''[INFO] 0x'' @ digits) (vga_color s) \<and>
    serial_sent (io_log t) = serial_sent (io_log s) @ map of_char
      (''[INFO] Page Fault Panic!'' @ [NEWLINE] @ ''[INFO] Fault Address (CR2):'' @ [NEWLINE] @
       ''[INFO] 0x'' @ digits @ [NEWLINE])"
proof -
  have "page_fault_handler dev cr2 regs s = page_fault_panic dev cr2 s"
  proof (cases "demand_fault regs")
    case True
    with assms(2) have "pmm_alloc_page s = (0, s)" by (cases s rule: pmm_alloc_page_cases) auto
    with True show ?thesis by (simp add: page_fault_handler_def demand_fault_def Let_def)
  next
    case False
    then show ?thesis by (auto simp: page_fault_handler_def demand_fault_def Let_def)
  qed
  moreover have "hex_address cr2 = ''0x'' @ drop 2 (hex_address cr2)"
    unfolding hex_address_def by (simp only: append_Cons append_Nil drop_Suc_Cons drop_0 numeral_2_eq_2)
  then have "''[INFO] 0x'' @ drop 2 (hex_address cr2) @ xs = ''[INFO] '' @ hex_address cr2 @ xs" for xs
    by (metis append_Cons append_Nil)
  ultimately show ?thesis
    using page_fault_panic_spec [OF assms(1), of cr2 s] hex_address(1) [of cr2] by (metis append_Nil2)
qed

theorem page_fault_panics_witness:
  "\<exists>t. page_fault_handler (\<lambda>_ _. 0x20) 0xDEADBEEF (demo_regs\<lparr>err_code := 1\<rparr>) demo_paging =
     Some (Halted t)"
  using page_fault_panics [of "\<lambda>_ _. 0x20" "demo_regs\<lparr>err_code := 1\<rparr>" demo_paging "0xDEADBEEF"]
  by (auto simp: uart_ready_def demand_fault_def)

text \<open>
  with one free frame left and no table for the faulting address, the handler takes that
  frame, cannot build the table, and returns as if the fault were repaired: the frame is lost
  and the page is still not mapped, so the faulting instruction faults again.
\<close>

theorem page_fault_loses_last_frame:
  assumes "paging_ok M s" and "demand_fault regs" and "free_pages s = {p}"
    and "\<not> bit (pmem s (slot (current_pd_phys s) (pd_index cr2))) 0"
  shows "\<exists>t. page_fault_handler dev cr2 regs s = Some (Returned regs t) \<and> free_pages t = {} \<and>
    page_entry t (current_pd_phys t) cr2 = None"
proof -
  obtain f s1 where al: "pmm_alloc_page s = (f, s1)" by fastforce
  have f0: "f \<noteq> 0" using pmm_inv_alloc_zero [of M s] assms(1,3) al by (simp add: paging_ok_def)
  note s1 = paging_ok_alloc [OF assms(1) al f0]
  have "pd_index (cr2 AND 0xFFFFF000) = pd_index cr2"
    using same_page_iff [of "cr2 AND 0xFFFFF000" cr2] by (simp add: and.assoc)
  moreover have "free_pages s1 = {}" using s1(5,6) assms(3) by auto
  ultimately have "\<not> mappable s1 (cr2 AND 0xFFFFF000)"
    using assms(4) alloc_pmem [OF al] s1(2) by (simp add: mappable_def)
  from map_page_unmappable [OF s1(1) this] page_fault_demand [OF assms(2) al f0, of dev cr2]
  have "page_fault_handler dev cr2 regs s = Some (Returned regs s1)" by simp
  moreover have "page_entry s1 (current_pd_phys s1) cr2 = None"
    using assms(4) s1(2,3) by (simp add: page_entry_def)
  ultimately show ?thesis using \<open>free_pages s1 = {}\<close> by blast
qed

theorem page_fault_loses_last_frame_witness:
  "\<exists>t. page_fault_handler (\<lambda>_ _. 0) 0x7123 (demo_regs\<lparr>err_code := 2\<rparr>) demo_paging =
         Some (Returned (demo_regs\<lparr>err_code := 2\<rparr>) t) \<and> free_pages t = {}"
  using page_fault_loses_last_frame [OF demo_paging_ok, of "demo_regs\<lparr>err_code := 2\<rparr>" 1 "0x7123" "\<lambda>_ _. 0"]
  by (auto simp: demand_fault_def)

end
