(* ===== verification/Kheap.thy ===== *)
theory Kheap
  imports Paging
begin

text \<open>
  The kernel heap (\<^verbatim>\<open>src/src/heap.c\<close>, \<^verbatim>\<open>src/src/heap.h\<close>): a first-fit allocator over a doubly
  linked list of blocks. Pointers are 32-bit addresses with 0 for \<open>NULL\<close>. The block headers
  are a store from addresses to records, and the words that \<open>kmalloc_aligned\<close> writes before an
  aligned address are a second store. Headers of different blocks never overlap in a heap that
  satisfies \<open>heap_inv\<close> below: the blocks tile the heap and each is at least as long as a header.
\<close>

subsection \<open>Data\<close>

record heap_block =
  size :: u32
  is_free :: u32
  next_blk :: u32
  prev_blk :: u32

definition BLOCK_HEADER_SIZE :: u32 where [c_consts]: "BLOCK_HEADER_SIZE = 16"
definition MIN_BLOCK_SIZE :: u32 where [c_consts]: "MIN_BLOCK_SIZE = BLOCK_HEADER_SIZE + 16"

record heap_state = paging_state +
  hblk :: "u32 \<Rightarrow> heap_block"
  hword :: "u32 \<Rightarrow> u32"
  heap_start :: u32
  heap_end :: u32
  heap_size :: u32
  heap_used :: u32
  heap_virt_start :: u32

definition upd_blk ::
  "u32 \<Rightarrow> (heap_block \<Rightarrow> heap_block) \<Rightarrow> 'a heap_state_scheme \<Rightarrow> 'a heap_state_scheme" where
  "upd_blk p f s = s\<lparr>hblk := (hblk s)(p := f (hblk s p))\<rparr>"

subsection \<open>Operations\<close>

definition heap_init :: "u32 \<Rightarrow> u32 \<Rightarrow> 'a heap_state_scheme \<Rightarrow> 'a heap_state_scheme" where
  "heap_init start sz s =
     (let s = s\<lparr>heap_virt_start := start, heap_start := start, heap_size := sz,
                heap_used := BLOCK_HEADER_SIZE\<rparr>;
          s = upd_blk start (\<lambda>_. \<lparr>size = sz, is_free = 1, next_blk = 0, prev_blk = 0\<rparr>) s
      in s\<lparr>heap_end := heap_start s\<rparr>)"

text \<open>The search loop; on a cyclic list it may not end, which is \<^const>\<open>None\<close>.\<close>

partial_function (option) find_from :: "(u32 \<Rightarrow> heap_block) \<Rightarrow> u32 \<Rightarrow> u32 \<Rightarrow> u32 option" where
  "find_from h sz current =
     (if current \<noteq> 0 then
        if is_free (h current) \<noteq> 0 \<and> size (h current) \<ge> sz + BLOCK_HEADER_SIZE then Some current
        else find_from h sz (next_blk (h current))
      else Some 0)"

declare find_from.simps [code]

definition find_free_block :: "u32 \<Rightarrow> 'a heap_state_scheme \<Rightarrow> u32 option" where
  "find_free_block sz s = find_from (hblk s) sz (heap_start s)"

definition split_block :: "u32 \<Rightarrow> u32 \<Rightarrow> 'a heap_state_scheme \<Rightarrow> 'a heap_state_scheme" where
  "split_block block sz s =
     (let total_needed = sz + BLOCK_HEADER_SIZE
      in if size (hblk s block) \<ge> total_needed + MIN_BLOCK_SIZE then
           let new_block = block + total_needed;
               s = upd_blk new_block (\<lambda>b. b\<lparr>size := size (hblk s block) - total_needed\<rparr>) s;
               s = upd_blk new_block (\<lambda>b. b\<lparr>is_free := 1\<rparr>) s;
               s = upd_blk new_block (\<lambda>b. b\<lparr>next_blk := next_blk (hblk s block)\<rparr>) s;
               s = upd_blk new_block (\<lambda>b. b\<lparr>prev_blk := block\<rparr>) s;
               s = (if next_blk (hblk s block) \<noteq> 0
                    then upd_blk (next_blk (hblk s block)) (\<lambda>b. b\<lparr>prev_blk := new_block\<rparr>) s else s);
               s = upd_blk block (\<lambda>b. b\<lparr>size := total_needed\<rparr>) s;
               s = upd_blk block (\<lambda>b. b\<lparr>next_blk := new_block\<rparr>) s
           in if block = heap_end s then s\<lparr>heap_end := new_block\<rparr> else s
         else s)"

definition merge_next :: "u32 \<Rightarrow> 'a heap_state_scheme \<Rightarrow> 'a heap_state_scheme" where
  "merge_next block s =
     (let nx = next_blk (hblk s block)
      in if nx \<noteq> 0 \<and> is_free (hblk s nx) \<noteq> 0 then
           let s = upd_blk block (\<lambda>b. b\<lparr>size := size b + size (hblk s nx)\<rparr>) s;
               s = upd_blk block (\<lambda>b. b\<lparr>next_blk := next_blk (hblk s (next_blk b))\<rparr>) s
           in if next_blk (hblk s block) \<noteq> 0
              then upd_blk (next_blk (hblk s block)) (\<lambda>b. b\<lparr>prev_blk := block\<rparr>) s
              else s\<lparr>heap_end := block\<rparr>
         else s)"

definition merge_prev :: "u32 \<Rightarrow> 'a heap_state_scheme \<Rightarrow> 'a heap_state_scheme" where
  "merge_prev block s =
     (let pv = prev_blk (hblk s block)
      in if pv \<noteq> 0 \<and> is_free (hblk s pv) \<noteq> 0 then
           let s = upd_blk pv (\<lambda>b. b\<lparr>size := size b + size (hblk s block)\<rparr>) s;
               s = upd_blk pv (\<lambda>b. b\<lparr>next_blk := next_blk (hblk s block)\<rparr>) s
           in if next_blk (hblk s block) \<noteq> 0
              then upd_blk (next_blk (hblk s block)) (\<lambda>b. b\<lparr>prev_blk := prev_blk (hblk s block)\<rparr>) s
              else s\<lparr>heap_end := prev_blk (hblk s block)\<rparr>
         else s)"

definition merge_free_blocks :: "u32 \<Rightarrow> 'a heap_state_scheme \<Rightarrow> 'a heap_state_scheme" where
  "merge_free_blocks block s = merge_prev block (merge_next block s)"

text \<open>The part of \<open>kmalloc\<close> that adds one page to the heap.\<close>

definition expand_heap :: "u32 \<Rightarrow> 'a heap_state_scheme \<Rightarrow> 'a heap_state_scheme" where
  "expand_heap phys s =
     (let new_virt = heap_virt_start s + heap_size s;
          s = paging_map_page new_virt phys (PAGE_PRESENT OR PAGE_WRITE) s;
          s = s\<lparr>heap_size := heap_size s + PAGE_SIZE\<rparr>;
          s = upd_blk new_virt
                (\<lambda>_. \<lparr>size = PAGE_SIZE, is_free = 1, next_blk = 0, prev_blk = heap_end s\<rparr>) s;
          s = (if heap_end s \<noteq> 0
               then upd_blk (heap_end s) (\<lambda>b. b\<lparr>next_blk := new_virt\<rparr>) s else s)
      in s\<lparr>heap_end := new_virt\<rparr>)"

definition round8 :: "u32 \<Rightarrow> u32" where
  "round8 sz = (sz + 7) AND NOT 7"

definition take_block :: "u32 \<Rightarrow> u32 \<Rightarrow> 'a heap_state_scheme \<Rightarrow> u32 \<times> 'a heap_state_scheme" where
  "take_block block sz s =
     (let s = split_block block sz s;
          s = upd_blk block (\<lambda>b. b\<lparr>is_free := 0\<rparr>) s;
          s = s\<lparr>heap_used := heap_used s + size (hblk s block)\<rparr>
      in (block + BLOCK_HEADER_SIZE, s))"

definition kmalloc :: "u32 \<Rightarrow> 'a heap_state_scheme \<Rightarrow> (u32 \<times> 'a heap_state_scheme) option" where
  "kmalloc sz s =
     (if sz = 0 then Some (0, s)
      else let sz = round8 sz
           in do {
             block \<leftarrow> find_free_block sz s;
             if block \<noteq> 0 then Some (take_block block sz s)
             else let (phys, s) = pmm_alloc_page s
                  in if phys = 0 then Some (0, s)
                     else let s = expand_heap phys s
                          in do {
                            block \<leftarrow> find_free_block sz s;
                            if block = 0 then Some (0, s) else Some (take_block block sz s)
                          }
           })"

definition kmalloc_aligned ::
  "u32 \<Rightarrow> u32 \<Rightarrow> 'a heap_state_scheme \<Rightarrow> (u32 \<times> 'a heap_state_scheme) option" where
  "kmalloc_aligned sz alignment s = do {
     (ptr, s) \<leftarrow> kmalloc (sz + alignment - 1 + 4) s;
     if ptr = 0 then Some (0, s)
     else let addr = ptr + 4;
              aligned = (addr + alignment - 1) AND NOT (alignment - 1)
          in Some (aligned, s\<lparr>hword := (hword s)(aligned - 4 := ptr)\<rparr>)
   }"

definition kfree :: "u32 \<Rightarrow> 'a heap_state_scheme \<Rightarrow> 'a heap_state_scheme" where
  "kfree ptr s =
     (if ptr = 0 then s
      else let block = ptr - BLOCK_HEADER_SIZE
           in if block < heap_start s \<or> block \<ge> heap_start s + heap_size s then s
              else if is_free (hblk s block) \<noteq> 0 then s
              else let s = s\<lparr>heap_used := heap_used s - size (hblk s block)\<rparr>;
                       s = upd_blk block (\<lambda>b. b\<lparr>is_free := 1\<rparr>) s
                   in merge_free_blocks block s)"

definition heap_get_used :: "'a heap_state_scheme \<Rightarrow> u32" where
  "heap_get_used s = heap_used s"

definition heap_get_free :: "'a heap_state_scheme \<Rightarrow> u32" where
  "heap_get_free s = heap_size s - heap_used s"

subsection \<open>The heap as a list of blocks\<close>

text \<open>
  The abstract heap is the list of its blocks in address order. \<open>seg h p bs q\<close> says that the
  store holds the headers of \<open>bs\<close>, doubly linked, with \<open>p\<close> before and \<open>q\<close> after them;
  \<open>tiles a bs e\<close> that the blocks lie one after the other from \<open>a\<close> to \<open>e\<close>.
\<close>

datatype ablk = Blk (adr: u32) (len: u32) (free: bool)

definition hdr :: "u32 \<Rightarrow> u32 \<Rightarrow> ablk \<Rightarrow> heap_block" where
  "hdr p q b = \<lparr>size = len b, is_free = of_bool (free b), next_blk = q, prev_blk = p\<rparr>"

definition first_adr :: "ablk list \<Rightarrow> u32 \<Rightarrow> u32" where
  "first_adr bs q = (case bs of [] \<Rightarrow> q | b # _ \<Rightarrow> adr b)"

definition last_adr :: "u32 \<Rightarrow> ablk list \<Rightarrow> u32" where
  "last_adr p bs = (if bs = [] then p else adr (last bs))"

fun seg :: "(u32 \<Rightarrow> heap_block) \<Rightarrow> u32 \<Rightarrow> ablk list \<Rightarrow> u32 \<Rightarrow> bool" where
  "seg h p [] q \<longleftrightarrow> True"
| "seg h p (b # bs) q \<longleftrightarrow> h (adr b) = hdr p (first_adr bs q) b \<and> seg h (adr b) bs q"

fun tiles :: "nat \<Rightarrow> ablk list \<Rightarrow> nat \<Rightarrow> bool" where
  "tiles a [] e \<longleftrightarrow> a = e"
| "tiles a (b # bs) e \<longleftrightarrow>
     unat (adr b) = a \<and> 16 \<le> unat (len b) \<and> 8 dvd unat (len b) \<and> tiles (a + unat (len b)) bs e"

lemma hdr_simps [simp]:
  "size (hdr p q b) = len b" "next_blk (hdr p q b) = q" "prev_blk (hdr p q b) = p"
  "is_free (hdr p q b) = of_bool (free b)"
  by (simp_all add: hdr_def)

lemma heap_block_all [simp]:
  "(h :: heap_block)\<lparr>size := a, is_free := f, next_blk := q, prev_blk := p\<rparr> =
     \<lparr>size = a, is_free = f, next_blk = q, prev_blk = p\<rparr>"
  by simp

lemma adr_simps [simp]:
  "first_adr [] q = q" "first_adr (b # bs) q = adr b" "last_adr p [] = p"
  "last_adr p (xs @ [b]) = adr b" "first_adr (xs @ b # ys) q = first_adr xs (adr b)"
  "last_adr p (b # bs) = last_adr (adr b) bs"
  by (simp_all add: first_adr_def last_adr_def split: list.split)

lemma seg_append:
  "seg h p (xs @ ys) q \<longleftrightarrow> seg h p xs (first_adr ys q) \<and> seg h (last_adr p xs) ys q"
proof (induction xs arbitrary: p)
  case (Cons b xs)
  have "first_adr (xs @ ys) q = first_adr xs (first_adr ys q)"
    by (simp add: first_adr_def split: list.split)
  with Cons show ?case by simp
qed simp

lemma seg_cong:
  "(\<And>b. b \<in> set bs \<Longrightarrow> h' (adr b) = h (adr b)) \<Longrightarrow> seg h' p bs q = seg h p bs q"
  by (induction bs arbitrary: p) simp_all

lemma tiles_append: "tiles a (xs @ ys) e \<longleftrightarrow> (\<exists>m. tiles a xs m \<and> tiles m ys e)"
  by (induction xs arbitrary: a) auto

lemma tiles_bounds:
  "tiles a bs e \<Longrightarrow> a \<le> e \<and> (\<forall>b \<in> set bs. a \<le> unat (adr b) \<and> unat (adr b) + unat (len b) \<le> e)"
  by (induction bs arbitrary: a) fastforce+

lemma tiles_order:
  assumes "tiles a (xs @ b # ys) e"
  shows "\<And>x. x \<in> set xs \<Longrightarrow> unat (adr x) + unat (len x) \<le> unat (adr b)"
    and "\<And>y. y \<in> set ys \<Longrightarrow> unat (adr b) + unat (len b) \<le> unat (adr y)"
  using assms tiles_bounds [of a xs] tiles_bounds [of "unat (adr b) + unat (len b)" ys e]
  by (auto simp: tiles_append)

lemma tiles_len: "tiles a bs e \<Longrightarrow> b \<in> set bs \<Longrightarrow> 16 \<le> unat (len b) \<and> 8 dvd unat (len b)"
  by (induction bs arbitrary: a) auto

lemma tiles_other_adr:
  assumes "tiles a (xs @ b # ys) e" "x \<in> set xs \<union> set ys"
  shows "adr x \<noteq> adr b"
proof -
  have "16 \<le> unat (len x)" "16 \<le> unat (len b)" using tiles_len [OF assms(1)] assms(2) by auto
  with tiles_order [OF assms(1), of x] assms(2) show ?thesis by fastforce
qed

lemma tiles_distinct: "tiles a bs e \<Longrightarrow> distinct (map adr bs)"
proof (induction bs arbitrary: a)
  case (Cons b bs)
  then show ?case using tiles_other_adr [of a "[]" b bs e] by (auto simp: image_iff) metis
qed simp

definition used_bytes :: "ablk list \<Rightarrow> u32" where
  "used_bytes bs = (\<Sum>b\<leftarrow>bs. if free b then 0 else len b)"

definition heap_inv :: "'a heap_state_scheme \<Rightarrow> ablk list \<Rightarrow> bool" where
  "heap_inv s bs \<longleftrightarrow>
     bs \<noteq> [] \<and> heap_start s \<noteq> 0 \<and> 8 dvd unat (heap_start s) \<and> heap_virt_start s = heap_start s \<and>
     unat (heap_start s) + unat (heap_size s) < 2 ^ 32 \<and>
     seg (hblk s) 0 bs 0 \<and>
     tiles (unat (heap_start s)) bs (unat (heap_start s) + unat (heap_size s)) \<and>
     heap_end s = last_adr 0 bs \<and> heap_used s = BLOCK_HEADER_SIZE + used_bytes bs"

subsection \<open>Searching\<close>

abbreviation fits :: "u32 \<Rightarrow> ablk \<Rightarrow> bool" where
  "fits n b \<equiv> free b \<and> len b \<ge> n + BLOCK_HEADER_SIZE"

lemma find_from_seg:
  assumes "seg h p bs 0" "\<forall>b \<in> set bs. adr b \<noteq> 0"
  shows "find_from h n (first_adr bs 0) =
    Some (case find (fits n) bs of None \<Rightarrow> 0 | Some b \<Rightarrow> adr b)"
  using assms
proof (induction bs arbitrary: p)
  case Nil
  then show ?case by (subst find_from.simps) simp
next
  case (Cons b bs)
  then show ?case by (subst first_adr_def, subst find_from.simps) auto
qed

lemma heap_adr_nonzero:
  assumes "heap_inv s bs" "b \<in> set bs"
  shows "adr b \<noteq> 0"
proof -
  have "unat (heap_start s) \<le> unat (adr b)" "heap_start s \<noteq> 0"
    using assms tiles_bounds by (auto simp: heap_inv_def)
  then show ?thesis by (metis unat_0 le_zero_eq unat_eq_zero)
qed

lemma find_free_block_first:
  assumes "heap_inv s bs"
  shows "find_free_block n s = Some (case find (fits n) bs of None \<Rightarrow> 0 | Some b \<Rightarrow> adr b)"
proof -
  have "first_adr bs 0 = heap_start s"
    using assms by (cases bs) (auto simp: heap_inv_def word_eq_iff_unat_u32)
  with find_from_seg [of "hblk s" 0 bs n] heap_adr_nonzero [OF assms] assms show ?thesis
    by (simp add: find_free_block_def heap_inv_def)
qed

subsection \<open>Taking a block\<close>

definition take_abs :: "u32 \<Rightarrow> ablk \<Rightarrow> ablk list" where
  "take_abs n b =
     (if len b \<ge> n + BLOCK_HEADER_SIZE + MIN_BLOCK_SIZE
      then [Blk (adr b) (n + BLOCK_HEADER_SIZE) False,
            Blk (adr b + (n + BLOCK_HEADER_SIZE)) (len b - (n + BLOCK_HEADER_SIZE)) True]
      else [Blk (adr b) (len b) False])"

text \<open>Replacing the middle of a segment: the neighbours keep their own data.\<close>

lemma seg_replace:
  assumes "seg h p (xs @ cs @ ys) q" "cs \<noteq> []" "bs \<noteq> []" "adr (hd bs) = adr (hd cs)"
    and "\<And>x. x \<in> set xs \<Longrightarrow> h' (adr x) = h (adr x)"
    and "seg h' (last_adr p xs) bs (first_adr ys q)"
    and "\<And>y zs. ys = y # zs \<Longrightarrow> h' (adr y) = (h (adr y))\<lparr>prev_blk := last_adr p bs\<rparr>"
    and "\<And>y. y \<in> set (tl ys) \<Longrightarrow> h' (adr y) = h (adr y)"
  shows "seg h' p (xs @ bs @ ys) q"
proof -
  obtain b bs' where cs: "cs = b # bs'" using assms(2) by (cases cs) auto
  have h: "seg h p xs (adr b)" "seg h (last_adr (last_adr p xs) cs) ys q"
    using assms(1) by (auto simp: seg_append cs)
  have "seg h' p xs (adr b)" using seg_cong [of xs h' h] assms(5) h(1) by blast
  moreover have "first_adr (bs @ ys) q = adr b" using assms(3,4) cs by (cases bs) auto
  moreover have "seg h' (last_adr (last_adr p xs) bs) ys q"
  proof (cases ys)
    case (Cons y zs)
    have "seg h' (adr y) zs q" using seg_cong [of zs h' h] assms(8) h(2) Cons by auto
    moreover have "last_adr (last_adr p xs) bs = last_adr p bs"
      using assms(3) by (simp add: last_adr_def)
    ultimately show ?thesis using assms(7) [OF Cons] h(2) Cons by (simp add: hdr_def)
  qed simp
  ultimately show ?thesis using assms(6) by (simp add: seg_append)
qed

lemmas seg_replace1 = seg_replace [where cs = "[b]" for b, simplified]

lemma heap_inv_mid:
  assumes "heap_inv s (xs @ b # ys)"
  shows "hblk s (adr b) = hdr (last_adr 0 xs) (first_adr ys 0) b"
    and "seg (hblk s) 0 (xs @ b # ys) 0"
    and "unat (adr b) + unat (len b) < 2 ^ 32" and "16 \<le> unat (len b)" and "8 dvd unat (len b)"
    and "adr b \<noteq> 0" and "\<And>x. x \<in> set xs \<union> set ys \<Longrightarrow> adr x \<noteq> adr b"
    and "first_adr ys 0 = 0 \<longleftrightarrow> ys = []" and "last_adr 0 xs = 0 \<longleftrightarrow> xs = []"
    and "tiles (unat (heap_start s)) (xs @ b # ys) (unat (heap_start s) + unat (heap_size s))"
proof -
  show sg: "seg (hblk s) 0 (xs @ b # ys) 0"
    and ti: "tiles (unat (heap_start s)) (xs @ b # ys) (unat (heap_start s) + unat (heap_size s))"
    using assms by (auto simp: heap_inv_def)
  show "hblk s (adr b) = hdr (last_adr 0 xs) (first_adr ys 0) b" using sg by (simp add: seg_append)
  show "unat (adr b) + unat (len b) < 2 ^ 32" using tiles_bounds [OF ti] assms by (auto simp: heap_inv_def)
  show "16 \<le> unat (len b)" "8 dvd unat (len b)" using tiles_len [OF ti] by auto
  show "adr b \<noteq> 0" using heap_adr_nonzero [OF assms] by simp
  show "\<And>x. x \<in> set xs \<union> set ys \<Longrightarrow> adr x \<noteq> adr b" using tiles_other_adr [OF ti] by blast
  show "first_adr ys 0 = 0 \<longleftrightarrow> ys = []"
    using heap_adr_nonzero [OF assms] by (cases ys) auto
  show "last_adr 0 xs = 0 \<longleftrightarrow> xs = []"
    using heap_adr_nonzero [OF assms] by (cases xs rule: rev_cases) auto
qed

lemma tiles_inside:
  assumes "tiles a (xs @ b # ys) e" "x \<in> set xs \<union> set ys"
    and "unat (adr b) \<le> unat c" "unat c < unat (adr b) + unat (len b)"
  shows "adr x \<noteq> c"
proof -
  have "16 \<le> unat (len x)" using tiles_len [OF assms(1)] assms(2) by auto
  then show ?thesis using tiles_order [OF assms(1), of x] assms(2-4) by fastforce
qed

lemma first_adr_in: "ys \<noteq> [] \<Longrightarrow> first_adr ys q \<in> adr ` set ys"
  by (cases ys) auto

lemma first_adr_other: "ys \<noteq> [] \<Longrightarrow> (\<And>x. x \<in> set ys \<Longrightarrow> adr x \<noteq> a) \<Longrightarrow> first_adr ys q \<noteq> a"
  by (cases ys) auto

text \<open>The header store after a split.\<close>

lemma take_block_split:
  fixes s :: "'a heap_state_scheme"
  assumes inv: "heap_inv s (xs @ b # ys)" and n: "unat n + 48 < 2 ^ 32"
    and big: "len b \<ge> n + BLOCK_HEADER_SIZE + MIN_BLOCK_SIZE"
  defines "tot \<equiv> n + BLOCK_HEADER_SIZE"
  shows "hblk (snd (take_block (adr b) n s)) =
      (if ys = [] then hblk s
       else (hblk s)(first_adr ys 0 := (hblk s (first_adr ys 0))\<lparr>prev_blk := adr b + tot\<rparr>))
        (adr b + tot := hdr (adr b) (first_adr ys 0) (Blk (adr b + tot) (len b - tot) True),
         adr b := hdr (last_adr 0 xs) (adr b + tot) (Blk (adr b) tot False)) \<and>
      heap_end (snd (take_block (adr b) n s)) = (if ys = [] then adr b + tot else heap_end s) \<and>
      heap_used (snd (take_block (adr b) n s)) = heap_used s + tot"
    and "unat tot = unat n + 16" and "unat (adr b + tot) = unat (adr b) + unat tot"
    and "unat (len b - tot) = unat (len b) - unat tot" and "unat tot + 32 \<le> unat (len b)"
proof -
  note m = heap_inv_mid [OF inv]
  show tot: "unat tot = unat n + 16" using n by (simp add: tot_def c_consts unat_add_no_wrap)
  then have "unat (tot + MIN_BLOCK_SIZE) = unat n + 48" using n by (simp add: c_consts unat_add_no_wrap)
  then show len: "unat tot + 32 \<le> unat (len b)"
    using big tot by (simp add: tot_def word_le_nat_alt c_consts)
  show new: "unat (adr b + tot) = unat (adr b) + unat tot"
    using len m(3) by (simp add: unat_add_no_wrap)
  show "unat (len b - tot) = unat (len b) - unat tot"
    using len by (simp add: unat_sub_no_wrap word_le_nat_alt)
  have ne: "adr b + tot \<noteq> adr b" using new tot by (metis add_eq_self_zero add_is_0 zero_neq_numeral)
  have nx: "first_adr ys 0 \<noteq> adr b + tot" "first_adr ys 0 \<noteq> adr b" if ne_ys: "ys \<noteq> []"
  proof -
    obtain y where y: "first_adr ys 0 = adr y" "y \<in> set xs \<union> set ys"
      using first_adr_in [OF ne_ys, of 0] by blast
    show "first_adr ys 0 \<noteq> adr b + tot" "first_adr ys 0 \<noteq> adr b"
      using tiles_inside [OF m(10) y(2), of "adr b + tot"] m(7) [OF y(2)] new len y(1) by simp_all
  qed
  have last: "adr b = heap_end s \<longleftrightarrow> ys = []"
    using inv m(7) [of "last ys"] by (cases "ys = []") (auto simp: heap_inv_def last_adr_def)
  have hb: "hblk s (adr b) = \<lparr>size = len b, is_free = of_bool (free b), next_blk = first_adr ys 0,
      prev_blk = last_adr 0 xs\<rparr>" using m(1) by (simp add: hdr_def)
  have big': "tot + MIN_BLOCK_SIZE \<le> len b" using big by (simp add: tot_def)
  show "hblk (snd (take_block (adr b) n s)) =
      (if ys = [] then hblk s
       else (hblk s)(first_adr ys 0 := (hblk s (first_adr ys 0))\<lparr>prev_blk := adr b + tot\<rparr>))
        (adr b + tot := hdr (adr b) (first_adr ys 0) (Blk (adr b + tot) (len b - tot) True),
         adr b := hdr (last_adr 0 xs) (adr b + tot) (Blk (adr b) tot False)) \<and>
      heap_end (snd (take_block (adr b) n s)) = (if ys = [] then adr b + tot else heap_end s) \<and>
      heap_used (snd (take_block (adr b) n s)) = heap_used s + tot"
  proof (cases "ys = []")
    case True
    then show ?thesis
      using ne big' hb last
      by (simp add: take_block_def split_block_def upd_blk_def Let_def tot_def [symmetric] hdr_def
          fun_upd_twist [of "adr b"])
  next
    case False
    with ne nx big' hb last m(8) show ?thesis
      by (simp add: take_block_def split_block_def upd_blk_def Let_def tot_def [symmetric] hdr_def
          fun_eq_iff)
  qed
qed

lemma take_block_whole:
  assumes inv: "heap_inv s (xs @ b # ys)"
    and small: "\<not> len b \<ge> n + BLOCK_HEADER_SIZE + MIN_BLOCK_SIZE"
  shows "hblk (snd (take_block (adr b) n s)) =
      (hblk s)(adr b := hdr (last_adr 0 xs) (first_adr ys 0) (Blk (adr b) (len b) False)) \<and>
      heap_end (snd (take_block (adr b) n s)) = heap_end s \<and>
      heap_used (snd (take_block (adr b) n s)) = heap_used s + len b"
  using small
  by (simp add: take_block_def split_block_def upd_blk_def Let_def heap_inv_mid(1) [OF inv] hdr_def)

lemma used_bytes_append [simp]: "used_bytes (xs @ ys) = used_bytes xs + used_bytes ys"
  by (simp add: used_bytes_def)

lemma used_bytes_Cons [simp]: "used_bytes (b # bs) = (if free b then 0 else len b) + used_bytes bs"
  by (simp add: used_bytes_def)

lemma used_bytes_Nil [simp]: "used_bytes [] = 0"
  by (simp add: used_bytes_def)

text \<open>\<open>heap_only s s'\<close>: only the block list and the usage counter differ.\<close>

definition heap_only :: "'a heap_state_scheme \<Rightarrow> 'a heap_state_scheme \<Rightarrow> bool" where
  "heap_only s s' \<longleftrightarrow> (\<exists>h e u. s' = s\<lparr>hblk := h, heap_end := e, heap_used := u\<rparr>)"

lemma heap_onlyI [intro]: "s' = s\<lparr>hblk := h, heap_end := e, heap_used := u\<rparr> \<Longrightarrow> heap_only s s'"
  unfolding heap_only_def by blast

lemma heap_only_refl [simp, intro]: "heap_only s s"
  by (rule heap_onlyI [where h = "hblk s" and e = "heap_end s" and u = "heap_used s"]) simp

lemma heap_only_trans [trans]: "heap_only s s' \<Longrightarrow> heap_only s' s'' \<Longrightarrow> heap_only s s''"
  by (auto simp: heap_only_def) blast

lemma heap_only_upd [simp, intro]:
  "heap_only s t \<Longrightarrow> heap_only s (upd_blk a f t)"
  "heap_only s t \<Longrightarrow> heap_only s (t\<lparr>heap_end := e\<rparr>)"
  "heap_only s t \<Longrightarrow> heap_only s (t\<lparr>heap_used := u\<rparr>)"
proof -
  have "heap_only t (upd_blk a f t)"
    by (rule heap_onlyI [where h = "(hblk t)(a := f (hblk t a))" and e = "heap_end t"
          and u = "heap_used t"]) (simp add: upd_blk_def)
  moreover have "heap_only t (t\<lparr>heap_end := e\<rparr>)"
    by (rule heap_onlyI [where h = "hblk t" and e = e and u = "heap_used t"]) simp
  moreover have "heap_only t (t\<lparr>heap_used := u\<rparr>)"
    by (rule heap_onlyI [where h = "hblk t" and e = "heap_end t" and u = u]) simp
  ultimately show "heap_only s t \<Longrightarrow> heap_only s (upd_blk a f t)"
    "heap_only s t \<Longrightarrow> heap_only s (t\<lparr>heap_end := e\<rparr>)"
    "heap_only s t \<Longrightarrow> heap_only s (t\<lparr>heap_used := u\<rparr>)" by (blast intro: heap_only_trans)+
qed

lemma heap_only_fields:
  "heap_only s s' \<Longrightarrow> heap_start s' = heap_start s" "heap_only s s' \<Longrightarrow> heap_size s' = heap_size s"
  "heap_only s s' \<Longrightarrow> heap_virt_start s' = heap_virt_start s"
  by (auto simp: heap_only_def)

lemma take_block_heap_only: "heap_only s (snd (take_block a n s))"
  by (simp add: take_block_def split_block_def Let_def)

lemmas take_block_keeps = heap_only_fields [OF take_block_heap_only]

lemma take_block_refines:
  assumes inv: "heap_inv s (xs @ b # ys)" and fit: "fits n b"
    and n: "unat n + 48 < 2 ^ 32" "8 dvd unat n"
  shows "fst (take_block (adr b) n s) = adr b + BLOCK_HEADER_SIZE"
    and "heap_inv (snd (take_block (adr b) n s)) (xs @ take_abs n b @ ys)"
proof -
  show "fst (take_block (adr b) n s) = adr b + BLOCK_HEADER_SIZE" by (simp add: take_block_def Let_def)
  note m = heap_inv_mid [OF inv]
  have base: "heap_start s \<noteq> 0" "8 dvd unat (heap_start s)" "heap_virt_start s = heap_start s"
      "unat (heap_start s) + unat (heap_size s) < 2 ^ 32" "heap_end s = last_adr 0 (xs @ b # ys)"
      "heap_used s = BLOCK_HEADER_SIZE + used_bytes (xs @ b # ys)"
    using inv by (auto simp: heap_inv_def)
  show "heap_inv (snd (take_block (adr b) n s)) (xs @ take_abs n b @ ys)"
  proof (cases "len b \<ge> n + BLOCK_HEADER_SIZE + MIN_BLOCK_SIZE")
    case True
    define tot where "tot = n + BLOCK_HEADER_SIZE"
    note sp = take_block_split [OF inv n(1) True, folded tot_def]
    have ab: "take_abs n b = [Blk (adr b) tot False, Blk (adr b + tot) (len b - tot) True]"
      using True by (simp add: take_abs_def tot_def)
    define s' where "s' = snd (take_block (adr b) n s)"
    have h': "hblk s' = (if ys = [] then hblk s
               else (hblk s)(first_adr ys 0 := (hblk s (first_adr ys 0))\<lparr>prev_blk := adr b + tot\<rparr>))
        (adr b + tot := hdr (adr b) (first_adr ys 0) (Blk (adr b + tot) (len b - tot) True),
         adr b := hdr (last_adr 0 xs) (adr b + tot) (Blk (adr b) tot False))"
      and rest: "heap_end s' = (if ys = [] then adr b + tot else heap_end s)"
        "heap_used s' = heap_used s + tot" "heap_start s' = heap_start s" "heap_size s' = heap_size s"
        "heap_virt_start s' = heap_virt_start s"
      using sp(1) take_block_keeps [of "adr b" n s] unfolding s'_def by auto
    have new: "adr x \<noteq> adr b + tot" if "x \<in> set xs \<union> set ys" for x
      using tiles_inside [OF m(10) that] sp(2,3,5) by simp
    have new_b: "adr b + tot \<noteq> adr b" using sp(2,3) by (metis add_eq_self_zero add_is_0 zero_neq_numeral)
    have dist: "distinct (map adr (xs @ b # ys))" by (rule tiles_distinct [OF m(10)])
    have "seg (hblk s') 0 (xs @ take_abs n b @ ys) 0"
    proof (rule seg_replace1 [OF m(2)])
      show "hblk s' (adr x) = hblk s (adr x)" if "x \<in> set xs" for x
        using that new [of x] m(7) [of x] dist first_adr_in [of ys 0] by (auto simp: h')
      show "hblk s' (adr y) = (hblk s (adr y))\<lparr>prev_blk := last_adr 0 (take_abs n b)\<rparr>"
        if "ys = y # zs" for y zs
        using that new [of y] m(7) [of y] by (simp add: h' ab)
      show "hblk s' (adr y) = hblk s (adr y)" if "y \<in> set (tl ys)" for y
        using that new [of y] m(7) [of y] dist by (cases ys) (auto simp: h' image_iff)
    qed (use new_b in \<open>simp_all add: ab h'\<close>)
    moreover have "tiles (unat (heap_start s)) (xs @ take_abs n b @ ys)
        (unat (heap_start s) + unat (heap_size s))"
      using m(10) sp n m(5) by (auto simp: tiles_append ab)
    moreover have "heap_end s' = last_adr 0 (xs @ take_abs n b @ ys)"
      using base(5) by (simp add: rest ab last_adr_def)
    moreover have "used_bytes (xs @ take_abs n b @ ys) = used_bytes (xs @ b # ys) + tot"
      using fit by (simp add: ab)
    ultimately show ?thesis
      unfolding s'_def [symmetric] heap_inv_def rest using base by (simp add: ab)
  next
    case False
    have ab: "take_abs n b = [Blk (adr b) (len b) False]" using False by (simp add: take_abs_def)
    define s' where "s' = snd (take_block (adr b) n s)"
    have h': "hblk s' = (hblk s)(adr b := hdr (last_adr 0 xs) (first_adr ys 0) (Blk (adr b) (len b) False))"
      and rest: "heap_end s' = heap_end s"
        "heap_used s' = heap_used s + len b" "heap_start s' = heap_start s" "heap_size s' = heap_size s"
        "heap_virt_start s' = heap_virt_start s"
      using take_block_whole [OF inv False] take_block_keeps [of "adr b" n s] unfolding s'_def by auto
    have "seg (hblk s') 0 (xs @ take_abs n b @ ys) 0"
    proof (rule seg_replace1 [OF m(2)])
      show "hblk s' (adr x) = hblk s (adr x)" if "x \<in> set xs" for x
        using that m(7) [of x] by (auto simp: h')
      show "hblk s' (adr y) = (hblk s (adr y))\<lparr>prev_blk := last_adr 0 (take_abs n b)\<rparr>"
        if "ys = y # zs" for y zs
        using that m(2) m(7) [of y] by (simp add: h' ab seg_append hdr_def)
      show "hblk s' (adr y) = hblk s (adr y)" if "y \<in> set (tl ys)" for y
        using that m(7) [of y] by (cases ys) (auto simp: h')
    qed (simp_all add: ab h')
    moreover have "tiles (unat (heap_start s)) (xs @ take_abs n b @ ys)
        (unat (heap_start s) + unat (heap_size s))"
      using m(10) by (auto simp: tiles_append ab)
    moreover have "heap_end s' = last_adr 0 (xs @ take_abs n b @ ys)"
      using base(5) by (simp add: rest ab last_adr_def)
    moreover have "used_bytes (xs @ take_abs n b @ ys) = used_bytes (xs @ b # ys) + len b"
      using fit by (simp add: ab)
    ultimately show ?thesis
      unfolding s'_def [symmetric] heap_inv_def rest using base by (simp add: ab)
  qed
qed


subsection \<open>Releasing a block\<close>

text \<open>Two neighbouring free blocks become one; the header of the second is abandoned.\<close>

lemma coalesce:
  assumes inv: "heap_inv s (xs @ b # c # ys)" and "free b" "free c" and only: "heap_only s s'"
    and b: "hblk s' (adr b) = hdr (last_adr 0 xs) (first_adr ys 0) (Blk (adr b) (len b + len c) True)"
    and y: "\<And>y zs. ys = y # zs \<Longrightarrow> hblk s' (adr y) = (hblk s (adr y))\<lparr>prev_blk := adr b\<rparr>"
    and other: "\<And>x. x \<in> set xs \<union> set (tl ys) \<Longrightarrow> hblk s' (adr x) = hblk s (adr x)"
    and e: "heap_end s' = (if ys = [] then adr b else heap_end s)" and u: "heap_used s' = heap_used s"
  shows "heap_inv s' (xs @ Blk (adr b) (len b + len c) True # ys)"
proof -
  note m = heap_inv_mid [OF inv]
  have sg: "seg (hblk s) 0 (xs @ [b, c] @ ys) 0" using m(2) by simp
  have seg': "seg (hblk s') 0 (xs @ [Blk (adr b) (len b + len c) True] @ ys) 0"
    by (rule seg_replace [OF sg]) (use b y other in simp_all)
  have adj: "unat (adr c) = unat (adr b) + unat (len b)" "16 \<le> unat (len c)" "8 dvd unat (len c)"
    using m(10) by (auto simp: tiles_append)
  have "unat (adr c) + unat (len c) < 2 ^ 32"
    using heap_inv_mid(3) [of s "xs @ [b]" c ys] inv by simp
  then have "unat (len b + len c) = unat (len b) + unat (len c)"
    using adj(1) by (simp add: unat_add_no_wrap)
  then have "tiles (unat (heap_start s)) (xs @ Blk (adr b) (len b + len c) True # ys)
      (unat (heap_start s) + unat (heap_size s))"
    using m(10) by (auto simp: tiles_append add.assoc)
  with seg' inv e u assms(2,3) show ?thesis
    by (simp add: heap_inv_def heap_only_fields [OF only] last_adr_def)
qed

lemma mark_free_refines:
  assumes inv: "heap_inv s (xs @ b # ys)" and used: "\<not> free b"
  shows "heap_inv (upd_blk (adr b) (\<lambda>h. h\<lparr>is_free := 1\<rparr>)
           (s\<lparr>heap_used := heap_used s - size (hblk s (adr b))\<rparr>)) (xs @ Blk (adr b) (len b) True # ys)"
proof -
  define s' where "s' = upd_blk (adr b) (\<lambda>h. h\<lparr>is_free := 1\<rparr>)
    (s\<lparr>heap_used := heap_used s - size (hblk s (adr b))\<rparr>)"
  note m = heap_inv_mid [OF inv]
  have h': "hblk s' = (hblk s)(adr b := hdr (last_adr 0 xs) (first_adr ys 0) (Blk (adr b) (len b) True))"
    and rest: "heap_end s' = heap_end s" "heap_used s' = heap_used s - len b"
      "heap_start s' = heap_start s" "heap_size s' = heap_size s"
      "heap_virt_start s' = heap_virt_start s"
    by (simp_all add: s'_def upd_blk_def m(1) hdr_def)
  have "seg (hblk s') 0 (xs @ [Blk (adr b) (len b) True] @ ys) 0"
  proof (rule seg_replace1 [OF m(2)])
    show "hblk s' (adr x) = hblk s (adr x)" if "x \<in> set xs" for x
      using that m(7) [of x] by (auto simp: h')
    show "hblk s' (adr y) = (hblk s (adr y))\<lparr>prev_blk := last_adr 0 [Blk (adr b) (len b) True]\<rparr>"
      if "ys = y # zs" for y zs
      using that m(2) m(7) [of y] by (simp add: h' seg_append hdr_def)
    show "hblk s' (adr y) = hblk s (adr y)" if "y \<in> set (tl ys)" for y
      using that m(7) [of y] by (cases ys) (auto simp: h')
  qed (simp_all add: h')
  moreover have "tiles (unat (heap_start s)) (xs @ Blk (adr b) (len b) True # ys)
        (unat (heap_start s) + unat (heap_size s))"
    using m(10) by (auto simp: tiles_append)
  ultimately show ?thesis
    using inv used unfolding s'_def [symmetric] heap_inv_def rest by (simp add: last_adr_def)
qed


lemma merge_next_refines:
  assumes inv: "heap_inv s (xs @ b # ys)" and "free b"
  shows "heap_inv (merge_next (adr b) s)
     (case ys of [] \<Rightarrow> xs @ b # ys
      | c # zs \<Rightarrow> if free c then xs @ Blk (adr b) (len b + len c) True # zs else xs @ b # ys)"
proof (cases ys)
  case Nil
  then show ?thesis using inv heap_inv_mid(1) [OF inv] by (simp add: merge_next_def)
next
  case (Cons c zs)
  note m = heap_inv_mid [OF inv]
  have c: "hblk s (adr c) = hdr (adr b) (first_adr zs 0) c" "adr c \<noteq> 0" "adr c \<noteq> adr b"
    using m(2) m(7) [of c] heap_adr_nonzero [OF inv] Cons by (auto simp: seg_append)
  show ?thesis
  proof (cases "free c")
    case False
    then show ?thesis using inv Cons m(1) c by (simp add: merge_next_def)
  next
    case True
    define s' where "s' = merge_next (adr b) s"
    note mc = heap_inv_mid [of s "xs @ [b]" c zs]
    have inv': "heap_inv s (xs @ b # c # zs)" using inv Cons by simp
    then have zc: "first_adr zs 0 = 0 \<longleftrightarrow> zs = []" using mc(8) by simp
    have zb: "first_adr zs 0 \<noteq> adr b" if "zs \<noteq> []"
      by (rule first_adr_other [OF that m(7)]) (simp add: Cons)
    have h': "hblk s' = (if zs = [] then hblk s else
          (hblk s)(first_adr zs 0 := (hblk s (first_adr zs 0))\<lparr>prev_blk := adr b\<rparr>))
          (adr b := hdr (last_adr 0 xs) (first_adr zs 0) (Blk (adr b) (len b + len c) True))"
      and e: "heap_end s' = (if zs = [] then adr b else heap_end s)" "heap_used s' = heap_used s"
      using m(1) c zc zb True Cons \<open>free b\<close>
      by (simp_all add: s'_def merge_next_def upd_blk_def Let_def hdr_def fun_eq_iff)
    have "heap_only s s'" by (simp add: s'_def merge_next_def Let_def)
    then have "heap_inv s' (xs @ Blk (adr b) (len b + len c) True # zs)"
    proof (rule coalesce [OF inv' \<open>free b\<close> True])
      show "hblk s' (adr y) = (hblk s (adr y))\<lparr>prev_blk := adr b\<rparr>" if "zs = y # ws" for y ws
        using that m(7) [of y] Cons by (simp add: h')
      show "hblk s' (adr x) = hblk s (adr x)" if "x \<in> set xs \<union> set (tl zs)" for x
        using that m(7) [of x] Cons tiles_distinct [OF m(10)] first_adr_in [of zs 0]
        by (cases zs) (auto simp: h' image_iff)
    qed (simp_all add: h' e)
    then show ?thesis using Cons True by (simp add: s'_def)
  qed
qed

lemma merge_prev_refines:
  assumes inv: "heap_inv s (xs @ b # ys)" and "free b"
  shows "heap_inv (merge_prev (adr b) s)
     (if xs \<noteq> [] \<and> free (last xs)
      then butlast xs @ Blk (adr (last xs)) (len (last xs) + len b) True # ys else xs @ b # ys)"
proof (cases xs rule: rev_cases)
  case Nil
  then show ?thesis using inv heap_inv_mid(1) [OF inv] by (simp add: merge_prev_def)
next
  case (snoc ws p)
  note m = heap_inv_mid [OF inv]
  have inv': "heap_inv s (ws @ p # b # ys)" using inv snoc by simp
  note mp = heap_inv_mid [OF inv']
  have p: "hblk s (adr p) = hdr (last_adr 0 ws) (adr b) p" "adr p \<noteq> 0" "adr p \<noteq> adr b"
    using mp(1,6) mp(7) [of b] by auto
  show ?thesis
  proof (cases "free p")
    case False
    then show ?thesis using inv snoc m(1) p by (simp add: merge_prev_def)
  next
    case True
    define s' where "s' = merge_prev (adr b) s"
    have zb: "first_adr ys 0 \<noteq> adr b" "first_adr ys 0 \<noteq> adr p" if "ys \<noteq> []"
      by (rule first_adr_other [OF that m(7)], simp) (rule first_adr_other [OF that mp(7)], simp)
    have h': "hblk s' = (if ys = [] then hblk s else
          (hblk s)(first_adr ys 0 := (hblk s (first_adr ys 0))\<lparr>prev_blk := adr p\<rparr>))
          (adr p := hdr (last_adr 0 ws) (first_adr ys 0) (Blk (adr p) (len p + len b) True))"
      and e: "heap_end s' = (if ys = [] then adr p else heap_end s)" "heap_used s' = heap_used s"
      using m(1) p m(8) zb True snoc \<open>free b\<close>
      by (simp_all add: s'_def merge_prev_def upd_blk_def Let_def hdr_def fun_eq_iff)
    have "heap_only s s'" by (simp add: s'_def merge_prev_def Let_def)
    then have "heap_inv s' (ws @ Blk (adr p) (len p + len b) True # ys)"
    proof (rule coalesce [OF inv' True \<open>free b\<close>])
      show "hblk s' (adr y) = (hblk s (adr y))\<lparr>prev_blk := adr p\<rparr>" if "ys = y # zs" for y zs
        using that mp(7) [of y] by (simp add: h')
      show "hblk s' (adr x) = hblk s (adr x)" if "x \<in> set ws \<union> set (tl ys)" for x
        using that mp(7) [of x] tiles_distinct [OF mp(10)] first_adr_in [of ys 0]
        by (cases ys) (auto simp: h' image_iff)
    qed (simp_all add: h' e)
    then show ?thesis using snoc True by (simp add: s'_def)
  qed
qed


definition free_abs :: "ablk list \<Rightarrow> ablk \<Rightarrow> ablk list \<Rightarrow> ablk list" where
  "free_abs xs b ys =
     (let (n, zs) = (case ys of [] \<Rightarrow> (len b, ys)
                     | c # zs \<Rightarrow> if free c then (len b + len c, zs) else (len b, ys))
      in if xs \<noteq> [] \<and> free (last xs)
         then butlast xs @ Blk (adr (last xs)) (len (last xs) + n) True # zs
         else xs @ Blk (adr b) n True # zs)"

lemma kfree_refines:
  assumes inv: "heap_inv s (xs @ b # ys)" and used: "\<not> free b"
  shows "heap_inv (kfree (adr b + BLOCK_HEADER_SIZE) s) (free_abs xs b ys)"
proof -
  note m = heap_inv_mid [OF inv]
  let ?s1 = "upd_blk (adr b) (\<lambda>h. h\<lparr>is_free := 1\<rparr>)
               (s\<lparr>heap_used := heap_used s - size (hblk s (adr b))\<rparr>)"
  let ?s2 = "merge_next (adr b) ?s1"
  have inv1: "heap_inv ?s1 (xs @ Blk (adr b) (len b) True # ys)"
    by (rule mark_free_refines [OF inv used])
  have "adr b + BLOCK_HEADER_SIZE \<noteq> 0"
  proof -
    have "unat (adr b + BLOCK_HEADER_SIZE) = unat (adr b) + 16"
      using m(3,4) by (simp add: c_consts unat_add_no_wrap)
    then show ?thesis by (metis add_is_0 unat_0 zero_neq_numeral)
  qed
  moreover have "\<not> adr b < heap_start s" "adr b < heap_start s + heap_size s"
    using tiles_bounds [OF m(10)] m(4) inv
    by (auto simp: heap_inv_def word_less_nat_alt unat_add_no_wrap)
  moreover have "is_free (hblk s (adr b)) = 0" using m(1) used by simp
  ultimately have kf: "kfree (adr b + BLOCK_HEADER_SIZE) s = merge_prev (adr b) ?s2"
    by (simp add: kfree_def Let_def merge_free_blocks_def)
  obtain n zs where nz: "(case ys of [] \<Rightarrow> (len b, ys)
      | c # zs \<Rightarrow> if free c then (len b + len c, zs) else (len b, ys)) = (n, zs)" by fastforce
  have "heap_inv ?s2 (xs @ Blk (adr b) n True # zs)"
    using merge_next_refines [OF inv1] nz by (auto split: list.splits if_splits)
  from merge_prev_refines [OF this] show ?thesis
    unfolding kf free_abs_def nz by (simp only: ablk.sel Let_def prod.case)
qed

lemma kfree_heap_only: "heap_only s (kfree p s)"
  by (auto simp: kfree_def Let_def merge_free_blocks_def merge_next_def merge_prev_def)

subsection \<open>Growing the heap\<close>

lemma tables_only_heap:
  assumes "tables_only s s'"
  shows "hblk s' = hblk s" "heap_start s' = heap_start s" "heap_end s' = heap_end s"
    "heap_size s' = heap_size s" "heap_used s' = heap_used s" "heap_virt_start s' = heap_virt_start s"
  using assms by (auto simp: tables_only_def)

lemma heap_inv_tables: "tables_only s s' \<Longrightarrow> heap_inv s' bs = heap_inv s bs"
  by (simp add: heap_inv_def tables_only_heap)

lemma expand_refines:
  assumes inv: "heap_inv s bs" and room: "unat (heap_start s) + unat (heap_size s) + 4096 < 2 ^ 32"
  shows "heap_inv (expand_heap phys s) (bs @ [Blk (heap_start s + heap_size s) PAGE_SIZE True])"
proof -
  define t where "t = paging_map_page (heap_virt_start s + heap_size s) phys (PAGE_PRESENT OR PAGE_WRITE) s"
  have to: "tables_only s t" by (simp add: t_def)
  have inv': "heap_inv t bs" using inv heap_inv_tables [OF to] by simp
  define a where "a = heap_start s + heap_size s"
  have a: "unat a = unat (heap_start s) + unat (heap_size s)"
    using room by (simp add: a_def unat_add_no_wrap)
  have v: "heap_virt_start s = heap_start s" using inv by (simp add: heap_inv_def)
  obtain xs b where bs: "bs = xs @ [b]" using inv by (cases bs rule: rev_cases) (auto simp: heap_inv_def)
  note m = heap_inv_mid [of t xs b "[]", OF inv' [unfolded bs]]
  have last: "heap_end t = adr b" using inv' bs by (simp add: heap_inv_def)
  have out: "adr x \<noteq> a" if "x \<in> set bs" for x
  proof -
    have "unat (adr x) + unat (len x) \<le> unat a" "16 \<le> unat (len x)"
      using inv that tiles_bounds [of _ bs] tiles_len [of _ bs] a by (fastforce simp: heap_inv_def)+
    then show ?thesis by fastforce
  qed
  define s' where "s' = expand_heap phys s"
  have h': "hblk s' = (hblk t)(a := hdr (adr b) 0 (Blk a PAGE_SIZE True),
        adr b := (hblk t (adr b))\<lparr>next_blk := a\<rparr>)"
    and rest: "heap_end s' = a" "heap_size s' = heap_size t + PAGE_SIZE" "heap_start s' = heap_start t"
      "heap_virt_start s' = heap_virt_start t" "heap_used s' = heap_used t"
    using last m(6) out [of b] bs unfolding s'_def expand_heap_def Let_def t_def [symmetric]
    unfolding v a_def [symmetric]
    by (simp_all add: upd_blk_def hdr_def)
  have "seg (hblk s') 0 (xs @ [b, Blk a PAGE_SIZE True] @ []) 0"
  proof (rule seg_replace1 [of "hblk t" 0 xs b "[]" 0])
    show "hblk s' (adr x) = hblk t (adr x)" if "x \<in> set xs" for x
      using that out [of x] m(7) [of x] bs by (simp add: h')
  qed (use m(1,2) out [of b] bs in \<open>simp_all add: h' hdr_def\<close>)
  moreover have "unat (heap_size s + PAGE_SIZE) = unat (heap_size s) + 4096"
    using room by (simp add: c_consts unat_add_no_wrap)
  moreover have "tiles (unat (heap_start s)) (bs @ [Blk a PAGE_SIZE True])
      (unat (heap_start s) + (unat (heap_size s) + 4096))"
    using inv a by (auto simp: heap_inv_def tiles_append c_consts)
  moreover have "used_bytes (bs @ [Blk a PAGE_SIZE True]) = used_bytes bs" by simp
  ultimately show ?thesis
    using inv room bs unfolding s'_def [symmetric] a_def [symmetric]
    by (simp add: heap_inv_def rest tables_only_heap [OF to] last_adr_def)
qed

subsection \<open>Allocation\<close>

lemma round8_unat:
  assumes "unat n + 7 < 2 ^ 32"
  shows "unat (round8 n) = (unat n + 7) div 8 * 8"
proof -
  have "(NOT 7 :: u32) = NOT (mask 3)" by (simp add: mask_eq_exp_minus_1)
  then have "round8 n = push_bit 3 (drop_bit 3 (n + 7))"
    by (auto simp: round8_def bit_eq_iff bit_simps)
  then have "unat (round8 n) = unat (8 * ((n + 7) div 8))"
    by (simp add: push_bit_eq_mult drop_bit_eq_div mult.commute)
  also have "\<dots> = 8 * (unat (n + 7) div 8)"
  proof -
    have "unat ((n + 7) div 8) = unat (n + 7) div 8" by (simp add: unat_div_u32)
    moreover have "8 * (unat (n + 7) div 8) \<le> unat (n + 7)" by simp
    ultimately show ?thesis using unat_lt_u32 [of "n + 7"] by (simp add: unat_mult_no_wrap)
  qed
  finally show ?thesis using assms by (simp add: unat_add_no_wrap)
qed

lemma round8_bounds:
  assumes "unat n + 7 < 2 ^ 32"
  shows "unat n \<le> unat (round8 n)" "8 dvd unat (round8 n)" "unat (round8 n) \<le> unat n + 7"
proof -
  have "(unat n + 7) div 8 * 8 + (unat n + 7) mod 8 = unat n + 7" by simp
  moreover have "(unat n + 7) mod 8 \<le> 7" using mod_less_divisor [of 8 "unat n + 7"] by linarith
  ultimately show "unat n \<le> unat (round8 n)" "unat (round8 n) \<le> unat n + 7"
    unfolding round8_unat [OF assms] by linarith+
  show "8 dvd unat (round8 n)" unfolding round8_unat [OF assms] by simp
qed

lemma find_extract:
  "(case find P bs of None \<Rightarrow> 0 | Some b \<Rightarrow> adr b) =
     (case List.extract P bs of None \<Rightarrow> 0 | Some (xs, b, ys) \<Rightarrow> adr b)"
  by (induction bs) (auto simp: extract_Cons_code extract_Nil_code split: option.splits)

lemma extract_parts:
  "List.extract P bs = Some (xs, b, ys) \<Longrightarrow> bs = xs @ b # ys \<and> P b \<and> (\<forall>x \<in> set xs. \<not> P x)"
  by (auto simp: extract_Some_iff)

lemma extract_snoc_none:
  "List.extract P bs = None \<Longrightarrow>
   List.extract P (bs @ [b]) = (if P b then Some (bs, b, []) else None)"
  by (induction bs) (auto simp: extract_Cons_code extract_Nil_code split: option.splits if_splits)

text \<open>The three ways \<open>kmalloc\<close> ends for a request that does not overflow.\<close>

definition can_grow :: "'a heap_state_scheme \<Rightarrow> bool" where
  "can_grow s \<longleftrightarrow> unat (heap_start s) + unat (heap_size s) + 4096 < 2 ^ 32"

lemma kmalloc_fit:
  assumes inv: "heap_inv s bs" and n: "n \<noteq> 0" "unat n + 55 < 2 ^ 32"
    and ex: "List.extract (fits (round8 n)) bs = Some (xs, b, ys)"
  shows "\<exists>s'. kmalloc n s = Some (adr b + BLOCK_HEADER_SIZE, s') \<and> heap_only s s' \<and>
    heap_inv s' (xs @ take_abs (round8 n) b @ ys)"
proof -
  have bs: "bs = xs @ b # ys" "fits (round8 n) b" using extract_parts [OF ex] by auto
  have r: "unat (round8 n) + 48 < 2 ^ 32" "8 dvd unat (round8 n)" using round8_bounds [of n] n(2) by auto
  have "find_free_block (round8 n) s = Some (adr b)"
    unfolding find_free_block_first [OF inv] find_extract ex by simp
  moreover have "adr b \<noteq> 0" using heap_adr_nonzero [OF inv, of b] bs by simp
  ultimately have "kmalloc n s = Some (take_block (adr b) (round8 n) s)"
    using n(1) by (simp add: kmalloc_def Let_def)
  with take_block_refines [OF inv [unfolded bs(1)] bs(2) r] take_block_heap_only [of s "adr b" "round8 n"]
  show ?thesis by (metis prod.collapse)
qed

lemma kmalloc_no_fit:
  assumes inv: "heap_inv s bs" and n: "n \<noteq> 0" "unat n + 55 < 2 ^ 32" and grow: "can_grow s"
    and ex: "List.extract (fits (round8 n)) bs = None"
  obtains (refused) s1 where "pmm_alloc_page s = (0, s1)" "kmalloc n s = Some (0, s1)" "heap_inv s1 bs"
  | (grown) phys s1 s2 where "pmm_alloc_page s = (phys, s1)" "phys \<noteq> 0"
      "s2 = expand_heap phys s1" "heap_inv s2 (bs @ [Blk (heap_start s + heap_size s) PAGE_SIZE True])"
      "kmalloc n s = (if round8 n + BLOCK_HEADER_SIZE \<le> PAGE_SIZE
         then Some (take_block (heap_start s + heap_size s) (round8 n) s2) else Some (0, s2))"
proof -
  obtain phys s1 where al: "pmm_alloc_page s = (phys, s1)" by fastforce
  have to: "tables_only s s1" by (rule tables_only_alloc [OF al])
  have inv1: "heap_inv s1 bs" using inv heap_inv_tables [OF to] by simp
  have f1: "find_free_block (round8 n) s = Some 0"
    unfolding find_free_block_first [OF inv] find_extract ex by simp
  show thesis
  proof (cases "phys = 0")
    case True
    with al f1 n(1) have "kmalloc n s = Some (0, s1)" by (simp add: kmalloc_def Let_def)
    then show thesis using refused al inv1 True by simp
  next
    case False
    define s2 where "s2 = expand_heap phys s1"
    define c where "c = Blk (heap_start s + heap_size s) PAGE_SIZE True"
    have inv2: "heap_inv s2 (bs @ [c])"
      using expand_refines [OF inv1, of phys] grow
      by (simp add: s2_def c_def can_grow_def tables_only_heap [OF to])
    have f2: "find_free_block (round8 n) s2 = Some (if fits (round8 n) c then adr c else 0)"
      unfolding find_free_block_first [OF inv2] find_extract extract_snoc_none [OF ex] by simp
    have "adr c \<noteq> 0" using heap_adr_nonzero [OF inv2, of c] by simp
    with f1 f2 al False n(1) have "kmalloc n s = (if round8 n + BLOCK_HEADER_SIZE \<le> PAGE_SIZE
         then Some (take_block (heap_start s + heap_size s) (round8 n) s2) else Some (0, s2))"
      by (auto simp: kmalloc_def Let_def s2_def [symmetric] c_def)
    then show thesis using grown al False s2_def inv2 c_def by blast
  qed
qed

subsection \<open>Live allocations\<close>

text \<open>The pointers handed out and not yet released, with their usable lengths.\<close>

definition live_of :: "ablk list \<Rightarrow> (u32 \<times> nat) set" where
  "live_of bs = (\<lambda>b. (adr b + BLOCK_HEADER_SIZE, unat (len b) - 16)) ` {b \<in> set bs. \<not> free b}"

definition heap_live :: "'a heap_state_scheme \<Rightarrow> (u32 \<times> nat) set" where
  "heap_live s = (\<Union>bs \<in> {bs. heap_inv s bs}. live_of bs)"

definition heap_ok :: "'a heap_state_scheme \<Rightarrow> bool" where
  "heap_ok s \<longleftrightarrow> (\<exists>bs. heap_inv s bs)"

lemma live_of_simps [simp]:
  "live_of [] = {}"
  "live_of (b # bs) = (if free b then {} else {(adr b + BLOCK_HEADER_SIZE, unat (len b) - 16)}) \<union> live_of bs"
  "live_of (xs @ ys) = live_of xs \<union> live_of ys"
  by (auto simp: live_of_def)

text \<open>The list of blocks is determined by the store.\<close>

lemma seg_unique:
  assumes "seg h p bs 0" "seg h p' cs 0" "first_adr bs 0 = first_adr cs 0"
    and "\<forall>b \<in> set bs. adr b \<noteq> 0" "\<forall>b \<in> set cs. adr b \<noteq> 0"
  shows "bs = cs"
  using assms
proof (induction bs arbitrary: p p' cs)
  case Nil
  then show ?case by (cases cs) auto
next
  case (Cons b bs)
  then obtain c cs' where cs: "cs = c # cs'" by (cases cs) auto
  with Cons.prems have "hdr p (first_adr bs 0) b = hdr p' (first_adr cs' 0) c" by simp
  then have "len b = len c" "free b = free c" "first_adr bs 0 = first_adr cs' 0"
    by (auto simp: hdr_def split: if_splits)
  then show ?case using Cons.prems Cons.IH [of "adr b" "adr c" cs'] cs by (cases b, cases c) auto
qed

lemma heap_inv_unique:
  assumes "heap_inv s bs" "heap_inv s cs"
  shows "bs = cs"
proof -
  have first: "first_adr ds 0 = heap_start s" if "heap_inv s ds" for ds
    using that by (cases ds) (auto simp: heap_inv_def word_eq_iff_unat_u32)
  have sg: "seg (hblk s) 0 ds 0 \<and> (\<forall>b \<in> set ds. adr b \<noteq> 0)" if "heap_inv s ds" for ds
    using heap_adr_nonzero [OF that] that by (auto simp: heap_inv_def)
  show ?thesis
    by (rule seg_unique [of "hblk s" 0 bs 0 cs])
      (use first [OF assms(1)] first [OF assms(2)] sg [OF assms(1)] sg [OF assms(2)] in auto)
qed

lemma heap_live_eq: "heap_inv s bs \<Longrightarrow> heap_live s = live_of bs"
  using heap_inv_unique by (auto simp: heap_live_def)

lemma heap_inv_ok: "heap_inv s bs \<Longrightarrow> heap_ok s"
  by (auto simp: heap_ok_def)

lemma live_of_free_abs:
  "live_of (free_abs xs b ys) = live_of xs \<union> live_of ys"
proof -
  have *: "live_of (butlast xs) = live_of xs" if "xs \<noteq> []" "free (last xs)"
    using live_of_simps(3) [of "butlast xs" "[last xs]"] that by simp
  show ?thesis by (auto simp: free_abs_def Let_def * split: list.splits if_splits)
qed

lemma live_of_take_abs:
  assumes "fits n b" "unat n + 48 < 2 ^ 32"
  obtains k where "unat n \<le> k" "live_of (take_abs n b) = {(adr b + BLOCK_HEADER_SIZE, k)}"
proof -
  have "unat (n + BLOCK_HEADER_SIZE) = unat n + 16"
    using assms(2) by (simp add: c_consts unat_add_no_wrap)
  moreover from this have "unat n + 16 \<le> unat (len b)" using assms(1) by (simp add: word_le_nat_alt)
  ultimately show thesis
    using that [of "unat n"] that [of "unat (len b) - 16"]
    by (cases "len b \<ge> n + BLOCK_HEADER_SIZE + MIN_BLOCK_SIZE") (simp_all add: take_abs_def)
qed

lemma live_of_mid:
  assumes "heap_inv s (xs @ b # ys)"
  shows "(adr b + BLOCK_HEADER_SIZE, k) \<notin> live_of xs \<union> live_of ys"
  using heap_inv_mid(7) [OF assms] by (fastforce simp: live_of_def)

lemma live_of_apart:
  assumes inv: "heap_inv s bs" and p: "(p, k) \<in> live_of bs" "(q, l) \<in> live_of bs" "(p, k) \<noteq> (q, l)"
  shows "unat p + k \<le> unat q \<or> unat q + l \<le> unat p"
proof -
  obtain b c where bc: "b \<in> set bs" "p = adr b + BLOCK_HEADER_SIZE" "k = unat (len b) - 16"
    "c \<in> set bs" "q = adr c + BLOCK_HEADER_SIZE" "l = unat (len c) - 16"
    using p(1,2) by (auto simp: live_of_def)
  with p(3) have "b \<noteq> c" by auto
  have un: "unat (adr x + BLOCK_HEADER_SIZE) = unat (adr x) + 16 \<and> 16 \<le> unat (len x)" if x: "x \<in> set bs" for x
  proof -
    obtain xs ys where "bs = xs @ x # ys" using split_list [OF x] by blast
    with heap_inv_mid(3,4) [of s xs x ys] inv show ?thesis by (simp add: c_consts unat_add_no_wrap)
  qed
  obtain xs ys where bs: "bs = xs @ b # ys" using split_list [OF bc(1)] by blast
  then have "c \<in> set xs \<or> c \<in> set ys" using bc(4) \<open>b \<noteq> c\<close> by auto
  then show ?thesis
    using tiles_order [OF heap_inv_mid(10) [OF inv [unfolded bs]], of c] un [OF bc(1)] un [OF bc(4)] bc
    by auto
qed

lemma kmalloc_live:
  assumes "heap_inv s bs" "can_grow s" "n \<noteq> 0" "unat n + 55 < 2 ^ 32"
  shows "\<exists>p s' bs'. kmalloc n s = Some (p, s') \<and> heap_inv s' bs' \<and>
    (if p = 0 then live_of bs' = live_of bs
     else \<exists>k \<ge> unat n. (p, k) \<notin> live_of bs \<and> live_of bs' = insert (p, k) (live_of bs))"
proof -
  have r: "unat (round8 n) + 48 < 2 ^ 32" "8 dvd unat (round8 n)" "unat n \<le> unat (round8 n)"
    using round8_bounds [of n] assms(4) by auto
  have taken: "\<exists>k \<ge> unat n. (adr b + BLOCK_HEADER_SIZE, k) \<notin> live_of (xs @ b # ys) \<and>
      live_of (xs @ take_abs (round8 n) b @ ys) =
        insert (adr b + BLOCK_HEADER_SIZE, k) (live_of (xs @ b # ys)) \<and> adr b + BLOCK_HEADER_SIZE \<noteq> 0"
    if inv: "heap_inv t (xs @ b # ys)" and fit: "fits (round8 n) b" for t :: "'a heap_state_scheme" and xs b ys
  proof -
    obtain k where k: "unat (round8 n) \<le> k"
      "live_of (take_abs (round8 n) b) = {(adr b + BLOCK_HEADER_SIZE, k)}"
      using live_of_take_abs [OF fit r(1)] by blast
    have "unat (adr b + BLOCK_HEADER_SIZE) = unat (adr b) + 16"
      using heap_inv_mid(3,4) [OF inv] by (simp add: c_consts unat_add_no_wrap)
    then have "adr b + BLOCK_HEADER_SIZE \<noteq> 0" by (metis add_is_0 unat_0 zero_neq_numeral)
    then show ?thesis
      using live_of_mid [OF inv, of k] k r(3) fit by (intro exI [of _ k]) auto
  qed
  show ?thesis
  proof (cases "List.extract (fits (round8 n)) bs")
    case (Some e)
    obtain xs b ys where e: "e = (xs, b, ys)" by (cases e)
    note ex = Some [unfolded e]
    from extract_parts [OF ex] have bs: "bs = xs @ b # ys" "fits (round8 n) b" by auto
    from kmalloc_fit [OF assms(1,3,4) ex] obtain s' where
      "kmalloc n s = Some (adr b + BLOCK_HEADER_SIZE, s')" "heap_inv s' (xs @ take_abs (round8 n) b @ ys)"
      by blast
    then show ?thesis using taken [OF assms(1) [unfolded bs(1)] bs(2)] bs(1) by metis
  next
    case None
    from assms(1,3,4,2) None show ?thesis
    proof (cases rule: kmalloc_no_fit)
      case (refused s1)
      then show ?thesis by auto
    next
      case (grown phys s1 s2)
      define c where "c = Blk (heap_start s + heap_size s) PAGE_SIZE True"
      have inv2: "heap_inv s2 (bs @ c # [])" using grown(4) by (simp add: c_def)
      show ?thesis
      proof (cases "round8 n + BLOCK_HEADER_SIZE \<le> PAGE_SIZE")
        case True
        then have fit: "fits (round8 n) c" by (simp add: c_def)
        have "kmalloc n s = Some (take_block (adr c) (round8 n) s2)" using grown(5) True by (simp add: c_def)
        then have "kmalloc n s = Some (adr c + BLOCK_HEADER_SIZE, snd (take_block (adr c) (round8 n) s2))"
          using take_block_refines(1) [OF inv2 fit r(1,2)] by (metis prod.collapse)
        moreover have "live_of (bs @ c # []) = live_of bs" by (simp add: c_def)
        ultimately show ?thesis
          using take_block_refines(2) [OF inv2 fit r(1,2)] taken [OF inv2 fit] by metis
      next
        case False
        then have "kmalloc n s = Some (0, s2)" using grown(5) by simp
        moreover have "live_of (bs @ c # []) = live_of bs" by (simp add: c_def)
        ultimately show ?thesis using inv2 by metis
      qed
    qed
  qed
qed

lemma kfree_live:
  assumes inv: "heap_inv s bs" and p: "(p, k) \<in> live_of bs"
  shows "\<exists>bs'. heap_inv (kfree p s) bs' \<and> live_of bs' = live_of bs - {(p, k)} \<and>
    heap_used (kfree p s) = heap_used s - of_nat (k + 16)"
proof -
  obtain b where b: "b \<in> set bs" "\<not> free b" "p = adr b + BLOCK_HEADER_SIZE" "k = unat (len b) - 16"
    using p by (auto simp: live_of_def)
  obtain xs ys where bs: "bs = xs @ b # ys" using split_list [OF b(1)] by blast
  note inv' = inv [unfolded bs]
  have "len b = of_nat (k + 16)" using heap_inv_mid(4) [OF inv'] b(4) by simp
  moreover have "used_bytes (free_abs xs b ys) = used_bytes bs - len b"
  proof -
    have *: "used_bytes (butlast xs) = used_bytes xs" if "xs \<noteq> []" "free (last xs)"
      using used_bytes_append [of "butlast xs" "[last xs]"] that by simp
    show ?thesis using b(2) by (auto simp: bs free_abs_def Let_def * split: list.splits if_splits)
  qed
  moreover note k = kfree_refines [OF inv' b(2), folded b(3)]
  ultimately have "heap_used (kfree p s) = heap_used s - of_nat (k + 16)"
    using inv k by (simp add: heap_inv_def)
  then show ?thesis
    using k live_of_free_abs [of xs b ys] live_of_mid [OF inv', of k] b by (intro exI [of _ "free_abs xs b ys"])
      (auto simp: bs)
qed

lemma tiles_aligned: "tiles a bs e \<Longrightarrow> 8 dvd a \<Longrightarrow> b \<in> set bs \<Longrightarrow> 8 dvd unat (adr b)"
  by (induction bs arbitrary: a) auto

lemma live_of_place:
  assumes "heap_inv s bs" "(p, k) \<in> live_of bs"
  shows "8 dvd unat p" "unat (heap_start s) + 16 \<le> unat p"
    "unat p + k \<le> unat (heap_start s) + unat (heap_size s)"
proof -
  obtain b where b: "b \<in> set bs" "p = adr b + BLOCK_HEADER_SIZE" "k = unat (len b) - 16"
    using assms(2) by (auto simp: live_of_def)
  obtain xs ys where bs: "bs = xs @ b # ys" using split_list [OF b(1)] by blast
  note m = heap_inv_mid [OF assms(1) [unfolded bs]]
  have p: "unat p = unat (adr b) + 16" using m(3,4) by (simp add: b(2) c_consts unat_add_no_wrap)
  have start: "8 dvd unat (heap_start s)" using assms(1) by (simp add: heap_inv_def)
  have "8 dvd unat (adr b)" by (rule tiles_aligned [OF m(10) start]) simp
  then show "8 dvd unat p" using p by simp
  show "unat (heap_start s) + 16 \<le> unat p" "unat p + k \<le> unat (heap_start s) + unat (heap_size s)"
    using tiles_bounds [OF m(10)] m(4) p b(3) by auto
qed

subsection \<open>The interface of the heap\<close>

text \<open>
  What the users of the heap rely on. \<open>live s\<close> is the set of allocations handed out and not
  released, as pairs of pointer and usable length; \<open>room s\<close> says that the heap can still grow
  by a page.
\<close>

locale allocator =
  fixes alloc :: "u32 \<Rightarrow> 's \<Rightarrow> (u32 \<times> 's) option"
    and release :: "u32 \<Rightarrow> 's \<Rightarrow> 's"
    and ok :: "'s \<Rightarrow> bool"
    and room :: "'s \<Rightarrow> bool"
    and live :: "'s \<Rightarrow> (u32 \<times> nat) set"
  assumes alloc_ends: "ok s \<Longrightarrow> room s \<Longrightarrow> n \<noteq> 0 \<Longrightarrow> unat n + 55 < 2 ^ 32 \<Longrightarrow>
      \<exists>p s'. alloc n s = Some (p, s') \<and> ok s' \<and>
        (if p = 0 then live s' = live s
         else \<exists>k \<ge> unat n. (p, k) \<notin> live s \<and> live s' = insert (p, k) (live s))"
    and release_live: "ok s \<Longrightarrow> (p, k) \<in> live s \<Longrightarrow>
      ok (release p s) \<and> live (release p s) = live s - {(p, k)}"
    and live_apart: "ok s \<Longrightarrow> (p, k) \<in> live s \<Longrightarrow> (q, l) \<in> live s \<Longrightarrow> (p, k) \<noteq> (q, l) \<Longrightarrow>
      unat p + k \<le> unat q \<or> unat q + l \<le> unat p"
begin

lemma alloc_fresh:
  assumes "ok s" "room s" "n \<noteq> 0" "unat n + 55 < 2 ^ 32" "alloc n s = Some (p, s')" "p \<noteq> 0"
  obtains k where "unat n \<le> k" "ok s'" "(p, k) \<notin> live s" "live s' = insert (p, k) (live s)"
    "\<And>q l. (q, l) \<in> live s \<Longrightarrow> unat p + k \<le> unat q \<or> unat q + l \<le> unat p"
proof -
  from alloc_ends [OF assms(1-4)] assms(5,6) obtain k where
    k: "unat n \<le> k" "ok s'" "(p, k) \<notin> live s" "live s' = insert (p, k) (live s)" by auto
  have "unat p + k \<le> unat q \<or> unat q + l \<le> unat p" if "(q, l) \<in> live s" for q l
    using live_apart [OF k(2), of p k q l] k(3,4) that by auto
  with k show thesis using that by blast
qed

lemma alloc_release:
  assumes "ok s" "room s" "n \<noteq> 0" "unat n + 55 < 2 ^ 32" "alloc n s = Some (p, s')" "p \<noteq> 0"
  shows "ok (release p s') \<and> live (release p s') = live s"
proof -
  obtain k where k: "ok s'" "(p, k) \<notin> live s" "live s' = insert (p, k) (live s)"
    by (rule alloc_fresh [OF assms])
  from release_live [OF k(1), of p k] k(2,3) show ?thesis by simp
qed

end

interpretation kheap: allocator kmalloc kfree heap_ok can_grow heap_live
proof
  fix s :: "'a heap_state_scheme" and n p q k l
  assume ok: "heap_ok s"
  then obtain bs where inv: "heap_inv s bs" by (auto simp: heap_ok_def)
  note eq = heap_live_eq [OF inv]
  show "\<exists>p s'. kmalloc n s = Some (p, s') \<and> heap_ok s' \<and>
      (if p = 0 then heap_live s' = heap_live s
       else \<exists>k \<ge> unat n. (p, k) \<notin> heap_live s \<and> heap_live s' = insert (p, k) (heap_live s))"
    if "can_grow s" "n \<noteq> 0" "unat n + 55 < 2 ^ 32"
  proof -
    from kmalloc_live [OF inv that] obtain p s' bs' where
      k: "kmalloc n s = Some (p, s')" "heap_inv s' bs'"
        "if p = 0 then live_of bs' = live_of bs
         else \<exists>k \<ge> unat n. (p, k) \<notin> live_of bs \<and> live_of bs' = insert (p, k) (live_of bs)" by blast
    then show ?thesis using eq heap_live_eq [OF k(2)] heap_inv_ok [OF k(2)] by auto
  qed
  assume p: "(p, k) \<in> heap_live s"
  then obtain bs' where k: "heap_inv (kfree p s) bs'" "live_of bs' = live_of bs - {(p, k)}"
    using kfree_live [OF inv, of p k] eq by auto
  show "heap_ok (kfree p s) \<and> heap_live (kfree p s) = heap_live s - {(p, k)}"
    using k(2) eq heap_live_eq [OF k(1)] heap_inv_ok [OF k(1)] by simp
  show "unat p + k \<le> unat q \<or> unat q + l \<le> unat p" if "(q, l) \<in> heap_live s" "(p, k) \<noteq> (q, l)"
    using live_of_apart [OF inv, of p k q l] p that eq by simp
qed

lemma heap_init_inv:
  assumes "start \<noteq> 0" "8 dvd unat start" "16 \<le> unat sz" "8 dvd unat sz" "unat start + unat sz < 2 ^ 32"
  shows "heap_inv (heap_init start sz s) [Blk start sz True]"
  using assms by (simp add: heap_inv_def heap_init_def upd_blk_def Let_def hdr_def last_adr_def)

lemma unat_power_u32: "a < 32 \<Longrightarrow> unat (2 ^ a :: u32) = 2 ^ a"
proof -
  assume "a < 32"
  then have "(2 :: nat) ^ a < 2 ^ 32" by (intro power_strict_increasing) simp_all
  from unat_of_nat_u32 [OF this] show ?thesis by simp
qed
lemma clear_low_bits_unat:
  fixes x :: u32
  assumes "a < 32"
  shows "unat (x AND NOT (mask a)) = unat x div 2 ^ a * 2 ^ a"
proof -
  have "x AND NOT (mask a) = push_bit a (drop_bit a x)" by (auto simp: bit_eq_iff bit_simps)
  moreover have "unat x div 2 ^ a * 2 ^ a < 2 ^ 32"
    by (rule order_le_less_trans [OF div_times_less_eq_dividend]) (use unat_lt_u32 [of x] in simp)
  ultimately show ?thesis using unat_power_u32 [OF assms]
    by (simp add: push_bit_eq_mult drop_bit_eq_div unat_mult_no_wrap unat_div_u32)
qed

lemma find_from_self_loop:
  assumes "b \<noteq> 0" "is_free (h b) = 0" "next_blk (h b) = b"
  shows "find_from h n b = None"
proof -
  have "h' = h \<longrightarrow> c \<noteq> b" if "find_from h' n' c = Some y" for h' n' c y
    using that by (rule find_from.raw_induct [rotated]) (use assms in \<open>auto split: if_splits\<close>)
  then show ?thesis by (cases "find_from h n b") auto
qed

lemma wrap_request:
  "round8 0xFFFFFFF0 = 0xFFFFFFF0" "round8 0xFFFFFFF0 + BLOCK_HEADER_SIZE = 0" "0xFFFFFFF9 \<le> n \<Longrightarrow> round8 n = 0"
proof -
  show "round8 0xFFFFFFF0 = 0xFFFFFFF0" "round8 0xFFFFFFF0 + BLOCK_HEADER_SIZE = 0"
    by (simp_all add: round8_def c_consts)
  assume "0xFFFFFFF9 \<le> n"
  define m where "m = n - 0xFFFFFFF9"
  have m: "n + 7 = m" by (simp add: m_def)
  have "unat m < 8"
    using \<open>0xFFFFFFF9 \<le> n\<close> unat_lt_u32 [of n] by (simp add: m_def unat_sub_no_wrap word_le_nat_alt)
  moreover have "(NOT 7 :: u32) = NOT (mask 3)" by (simp add: mask_eq_exp_minus_1)
  ultimately have "unat (round8 n) = 0"
    using clear_low_bits_unat [of 3 m] by (simp add: round8_def m)
  then show "round8 n = 0" by (simp add: unat_eq_zero)
qed

subsection \<open>Properties of the heap\<close>

text \<open>The heap \<open>kmain\<close> creates, without the pages behind it.\<close>

definition demo_heap :: heap_state where
  "demo_heap = heap_init 0xC0000000 0x100000 (paging_state.extend demo_paging
     \<lparr>hblk = \<lambda>_. \<lparr>size = 0, is_free = 0, next_blk = 0, prev_blk = 0\<rparr>, hword = \<lambda>_. 0, heap_start = 0,
      heap_end = 0, heap_size = 0, heap_used = 0, heap_virt_start = 0\<rparr>)"

lemma demo_heap_inv: "heap_inv demo_heap [Blk 0xC0000000 0x100000 True]"
  unfolding demo_heap_def by (rule heap_init_inv) simp_all

lemma demo_heap_ok: "heap_ok demo_heap" "heap_live demo_heap = {}"
  using heap_inv_ok [OF demo_heap_inv] heap_live_eq [OF demo_heap_inv] by simp_all

lemma demo_heap_simps [simp]: "heap_start demo_heap = 0xC0000000" "heap_size demo_heap = 0x100000"
  "heap_used demo_heap = 16"
  by (simp_all add: demo_heap_def heap_init_def upd_blk_def Let_def c_consts)

lemma demo_heap_grow: "can_grow demo_heap"
  by (simp add: can_grow_def)

lemma demo_fit:
  "unat n + 55 < 2 ^ 32 \<Longrightarrow> unat n \<le> 1000 \<Longrightarrow>
   List.extract (fits (round8 n)) [Blk 0xC0000000 0x100000 True] =
     Some ([], Blk 0xC0000000 0x100000 True, [])"
  using round8_bounds [of n]
  by (simp add: extract_Cons_code c_consts word_le_nat_alt unat_add_no_wrap)





text \<open>
  C8: \<open>kmalloc\<close> refines first fit on the list of blocks. It takes the first free block that
  holds the rounded request and its header, cuts it in two when at least 32 bytes would remain,
  and leaves all other blocks as they are.
\<close>

theorem kmalloc_first_fit:
  assumes "heap_inv s bs" and "n \<noteq> 0" and "unat n + 55 < 2 ^ 32"
    and "List.extract (fits (round8 n)) bs = Some (xs, b, ys)"
  shows "\<exists>s'. kmalloc n s = Some (adr b + BLOCK_HEADER_SIZE, s') \<and> heap_only s s' \<and>
    heap_inv s' (xs @ (if len b \<ge> round8 n + BLOCK_HEADER_SIZE + MIN_BLOCK_SIZE
                       then [Blk (adr b) (round8 n + BLOCK_HEADER_SIZE) False,
                             Blk (adr b + (round8 n + BLOCK_HEADER_SIZE))
                               (len b - (round8 n + BLOCK_HEADER_SIZE)) True]
                       else [Blk (adr b) (len b) False]) @ ys)"
  using kmalloc_fit [OF assms] by (simp only: take_abs_def)

theorem kmalloc_first_fit_witness:
  "\<exists>s'. kmalloc 100 demo_heap = Some (0xC0000010, s') \<and>
     heap_inv s' [Blk 0xC0000000 120 False, Blk 0xC0000078 0xFFF88 True]"
proof -
  have r: "round8 100 = 104" by (simp add: round8_def)
  show ?thesis
    using kmalloc_first_fit [OF demo_heap_inv _ _ demo_fit, of 100] by (auto simp: r c_consts)
qed

text \<open>
  C29: when no block fits, \<open>kmalloc\<close> adds a single page, however large the request is, and does
  not join it with a free block before it. A request of more than 4080 bytes then still fails,
  but the page has been taken from the physical memory manager and stays in the heap.
\<close>

theorem kmalloc_large_request_fails:
  assumes "heap_inv s bs" and "can_grow s" and "unat n + 55 < 2 ^ 32" and "4080 < unat n"
    and "List.extract (fits (round8 n)) bs = None" and "pmm_inv M s" and "free_pages s \<noteq> {}"
  shows "\<exists>s'. kmalloc n s = Some (0, s') \<and>
    heap_inv s' (bs @ [Blk (heap_start s + heap_size s) PAGE_SIZE True]) \<and>
    pmm_alloc_page s \<noteq> (0, s)"
proof -
  have n: "n \<noteq> 0" using assms(4) by auto
  have al: "fst (pmm_alloc_page s) \<noteq> 0" using pmm_inv_alloc_zero [OF assms(6)] assms(7) by simp
  from assms(1) n assms(3,2,5) show ?thesis
  proof (cases rule: kmalloc_no_fit)
    case (refused s1)
    with al show ?thesis by simp
  next
    case (grown phys s1 s2)
    have "unat (round8 n + BLOCK_HEADER_SIZE) = unat (round8 n) + 16"
      using round8_bounds [of n] assms(3) by (simp add: c_consts unat_add_no_wrap)
    then have "\<not> round8 n + BLOCK_HEADER_SIZE \<le> PAGE_SIZE"
      using round8_bounds(1) [of n] assms(3,4) by (simp add: c_consts word_le_nat_alt)
    with grown al show ?thesis by auto
  qed
qed

theorem kmalloc_large_request_fails_witness:
  "\<exists>s'. kmalloc 0x200000 demo_heap = Some (0, s')"
proof -
  have r: "round8 0x200000 = 0x200000" by (simp add: round8_def)
  have "List.extract (fits (round8 0x200000)) [Blk 0xC0000000 0x100000 True] = None"
    by (simp add: r extract_Cons_code extract_Nil_code c_consts)
  moreover have "pmm_inv {1} demo_heap" "free_pages demo_heap \<noteq> {}"
    using demo_paging_simps(1,2)
    by (simp_all add: demo_heap_def heap_init_def upd_blk_def Let_def paging_state.extend_def
        free_pages_def page_used_def pmm_inv_def)
  ultimately show ?thesis
    using kmalloc_large_request_fails [OF demo_heap_inv demo_heap_grow, of "0x200000" "{1}"] by auto
qed

text \<open>
  C31: the size computations wrap. A request of \<open>0xFFFFFFF9\<close> bytes or more is rounded to 0 and is
  answered with a pointer to a block without a single usable byte.
\<close>

theorem kmalloc_round_overflow:
  assumes "heap_inv s (b # bs)" and "free b" and "48 \<le> len b" and "0xFFFFFFF9 \<le> n"
  shows "\<exists>s'. kmalloc n s = Some (adr b + BLOCK_HEADER_SIZE, s') \<and>
    (adr b + BLOCK_HEADER_SIZE, 0) \<in> heap_live s'"
proof -
  have r: "round8 n = 0" by (rule wrap_request(3) [OF assms(4)])
  have n: "n \<noteq> 0" using assms(4) by auto
  have fit: "fits 0 b" using assms(2,3) by (simp add: c_consts order_trans [of 16 48])
  have inv: "heap_inv s ([] @ b # bs)" using assms(1) by simp
  have "find_free_block 0 s = Some (adr b)"
    unfolding find_free_block_first [OF assms(1)] using fit by simp
  then have "kmalloc n s = Some (take_block (adr b) 0 s)"
    using n r heap_inv_mid(6) [OF inv] by (simp add: kmalloc_def Let_def)
  moreover have "take_abs 0 b = [Blk (adr b) 16 False, Blk (adr b + 16) (len b - 16) True]"
    using assms(3) by (simp add: take_abs_def c_consts)
  ultimately show ?thesis
    using take_block_refines [OF inv fit] heap_live_eq [OF take_block_refines(2) [OF inv fit]]
    by (cases "take_block (adr b) 0 s") simp
qed

theorem kmalloc_round_overflow_witness:
  "\<exists>s'. kmalloc 0xFFFFFFFF demo_heap = Some (0xC0000010, s') \<and> (0xC0000010, 0) \<in> heap_live s'"
  using kmalloc_round_overflow [OF demo_heap_inv, of "0xFFFFFFFF"] by (simp add: c_consts)

text \<open>
  C40: for a request of \<open>0xFFFFFFF0\<close> bytes the sum with the header size wraps to 0, the first free
  block is split at offset 0 and linked to itself. \<open>kmalloc\<close> returns a pointer, and every later
  request runs around that link forever.
\<close>

theorem kmalloc_wrap_hangs:
  assumes "heap_inv s (b # bs)" and "free b" and "32 \<le> len b" and "m \<noteq> 0"
  shows "\<exists>s'. kmalloc 0xFFFFFFF0 s = Some (adr b + BLOCK_HEADER_SIZE, s') \<and> kmalloc m s' = None"
proof -
  define s' where "s' = snd (take_block (adr b) 0xFFFFFFF0 s)"
  have inv: "heap_inv s ([] @ b # bs)" using assms(1) by simp
  note mid = heap_inv_mid [OF inv]
  have z: "0xFFFFFFF0 + BLOCK_HEADER_SIZE = 0" by (simp add: c_consts)
  have "find_free_block 0xFFFFFFF0 s = Some (adr b)"
    unfolding find_free_block_first [OF assms(1)] z using assms(2) by simp
  then have k: "kmalloc 0xFFFFFFF0 s = Some (adr b + BLOCK_HEADER_SIZE, s')"
    using mid(6) wrap_request(1) by (simp add: kmalloc_def Let_def s'_def take_block_def)
  have "is_free (hblk s' (adr b)) = 0 \<and> next_blk (hblk s' (adr b)) = adr b"
  proof -
    have "0xFFFFFFF0 + BLOCK_HEADER_SIZE + MIN_BLOCK_SIZE \<le> len b"
      unfolding z using assms(3) by (simp add: c_consts)
    then show ?thesis using z mid(1)
      by (simp add: s'_def take_block_def split_block_def upd_blk_def Let_def)
  qed
  moreover have "heap_start s' = adr b"
    using take_block_keeps(1) [of "adr b" "0xFFFFFFF0" s] assms(1)
    by (simp add: s'_def heap_inv_def word_eq_iff_unat_u32)
  ultimately have "find_free_block z s' = None" for z
    using find_from_self_loop [of "adr b" "hblk s'" z] mid(6) by (simp add: find_free_block_def)
  then have "kmalloc m s' = None" using assms(4) by (simp add: kmalloc_def Let_def)
  with k show ?thesis by blast
qed

theorem kmalloc_wrap_hangs_witness:
  "\<exists>s'. kmalloc 0xFFFFFFF0 demo_heap = Some (0xC0000010, s') \<and> kmalloc 1 s' = None"
  using kmalloc_wrap_hangs [OF demo_heap_inv, of 1] by (simp add: c_consts)

text \<open>
  C35: \<open>kfree\<close> ignores \<open>NULL\<close>, pointers whose header would lie outside the heap, and blocks that
  are free already: the state does not change.
\<close>

theorem kfree_ignores_invalid:
  assumes "heap_inv s bs"
    and "p = 0 \<or> unat (p - 16) < unat (heap_start s) \<or>
         unat (heap_start s) + unat (heap_size s) \<le> unat (p - 16) \<or>
         (\<exists>b \<in> set bs. free b \<and> p = adr b + BLOCK_HEADER_SIZE)"
  shows "kfree p s = s"
proof -
  have "unat (heap_start s + heap_size s) = unat (heap_start s) + unat (heap_size s)"
    using assms(1) by (simp add: heap_inv_def unat_add_no_wrap)
  moreover have "is_free (hblk s (adr b)) = 1" if b: "b \<in> set bs" "free b" for b
  proof -
    obtain xs ys where bs: "bs = xs @ b # ys" using split_list [OF b(1)] by blast
    from heap_inv_mid(1) [OF assms(1) [unfolded bs]] b(2) show ?thesis by simp
  qed
  ultimately show ?thesis
    using assms(2) by (auto simp: kfree_def Let_def c_consts word_less_nat_alt word_le_nat_alt)
qed

theorem kfree_ignores_invalid_witness: "kfree 0x1000 demo_heap = demo_heap"
  using kfree_ignores_invalid [OF demo_heap_inv, of "0x1000"] by simp

text \<open>
  C34: \<open>kmalloc_aligned\<close> with a power of two as alignment returns an address that is a multiple of
  it, the requested bytes from there on lie inside one fresh allocation, and the word before it
  holds that allocation's own pointer.
\<close>

theorem kmalloc_aligned_within:
  assumes "heap_ok s" and "can_grow s" and "a < 31" and "unat n + 2 ^ a + 60 < 2 ^ 32"
    and "kmalloc_aligned n (2 ^ a) s = Some (q, s')" and "q \<noteq> 0"
  shows "\<exists>p k. (p, k) \<in> heap_live s' \<and> (p, k) \<notin> heap_live s \<and> 2 ^ a dvd unat q \<and>
    unat p + 4 \<le> unat q \<and> unat q + unat n \<le> unat p + k \<and> hword s' (q - 4) = p"
proof -
  have A: "unat (2 ^ a :: u32) = 2 ^ a" using assms(3) by (intro unat_power_u32) simp
  define t where "t = n + 2 ^ a - 1 + 4"
  have t: "unat t = unat n + 2 ^ a + 3"
  proof -
    have "t = n + (2 ^ a + 3)" by (simp add: t_def)
    moreover have "unat ((2 :: u32) ^ a + 3) = 2 ^ a + 3"
      using A assms(4) by (simp add: unat_add_no_wrap)
    ultimately show ?thesis using assms(4) by (simp add: unat_add_no_wrap)
  qed
  then have t0: "t \<noteq> 0" "unat t + 55 < 2 ^ 32" using assms(4) by auto
  from assms(5) obtain p s1 where k: "kmalloc t s = Some (p, s1)"
    by (auto simp: kmalloc_aligned_def t_def [symmetric] split: bind_splits)
  have p0: "p \<noteq> 0" using assms(5,6) k by (auto simp: kmalloc_aligned_def t_def [symmetric] split: if_splits)
  have q: "q = (p + 4 + 2 ^ a - 1) AND NOT (mask a)" and s': "s' = s1\<lparr>hword := (hword s1)(q - 4 := p)\<rparr>"
    using assms(5) k p0
    by (auto simp: kmalloc_aligned_def t_def [symmetric] mask_eq_exp_minus_1 Let_def split: if_splits)
  obtain l where l: "unat t \<le> l" "heap_ok s1" "(p, l) \<notin> heap_live s" "heap_live s1 = insert (p, l) (heap_live s)"
    by (rule kheap.alloc_fresh [OF assms(1,2) t0 k p0])
  obtain bs where bs: "heap_inv s1 bs" using l(2) by (auto simp: heap_ok_def)
  have "(p, l) \<in> live_of bs" using l(4) heap_live_eq [OF bs] by simp
  then have "unat p + l < 2 ^ 32" using live_of_place(3) [OF bs] bs by (fastforce simp: heap_inv_def)
  then have "unat (p + (2 ^ a + 3)) = unat p + 2 ^ a + 3"
    using l(1) t A assms(4) by (simp add: unat_add_no_wrap)
  moreover have "q = (p + (2 ^ a + 3)) AND NOT (mask a)" using q by (simp add: algebra_simps)
  ultimately have qn: "unat q = (unat p + 2 ^ a + 3) div 2 ^ a * 2 ^ a"
    using clear_low_bits_unat [of a "p + (2 ^ a + 3)"] assms(3) by simp
  define r where "r = (unat p + 2 ^ a + 3) mod 2 ^ a"
  have "r < 2 ^ a" "unat q + r = unat p + 2 ^ a + 3"
    unfolding r_def qn by (simp, rule div_mult_mod_eq)
  then have "unat p + 4 \<le> unat q" "unat q + unat n \<le> unat p + l" using l(1) t by simp_all
  moreover have "heap_live s' = heap_live s1" by (simp add: s' heap_live_def heap_inv_def)
  ultimately show ?thesis using l(3,4) qn s' by (intro exI [of _ p] exI [of _ l]) simp
qed


theorem kmalloc_aligned_within_witness:
  "\<exists>q s'. kmalloc_aligned 10 (2 ^ 6) demo_heap = Some (q, s') \<and> q \<noteq> 0 \<and> 64 dvd unat q"
proof -
  obtain s1 where k: "kmalloc 77 demo_heap = Some (0xC0000010, s1)"
    using kmalloc_fit [OF demo_heap_inv _ _ demo_fit, of 77] by (auto simp: c_consts)
  then obtain s' where r: "kmalloc_aligned 10 (2 ^ 6) demo_heap = Some (0xC0000040, s')"
    by (simp add: kmalloc_aligned_def)
  from kmalloc_aligned_within [OF demo_heap_ok(1) demo_heap_grow _ _ r] r show ?thesis by auto
qed

end
