(* ===== verification/Timer.thy ===== *)
theory Timer
  imports Kheap
begin

text \<open>
  The programmable interval timer and the tick counter (\<^verbatim>\<open>src/src/timer.c\<close>). The interrupt
  routine \<open>timer_callback\<close> calls the scheduler and is defined with it. Halting the processor
  until the next interrupt is a parameter \<open>hlt\<close> of the waiting loops: it yields the state after
  that interrupt's handler has run, or \<^const>\<open>None\<close> when the processor never resumes.
\<close>

subsection \<open>State and operations\<close>

definition PIT_CHANNEL0 :: u16 where [c_consts]: "PIT_CHANNEL0 = 0x40"
definition PIT_COMMAND :: u16 where [c_consts]: "PIT_COMMAND = 0x43"

record timer_state = heap_state +
  ticks :: u32
  preemption_enabled :: bool
  time_slice :: u32
  slice_remaining :: u32

definition timer_init ::
  "device \<Rightarrow> u32 \<Rightarrow> 'a timer_state_scheme \<Rightarrow> c_fault + 'a timer_state_scheme" where
  "timer_init dev frequency s =
     (let s = register_interrupt_handler 32 Timer_Callback s
      in if frequency = 0 then Inl DivByZero
         else let divisor = 1193180 div frequency;
                  s = outb PIT_COMMAND 0x36 s;
                  low = ucast (divisor AND 0xFF);
                  high = ucast (drop_bit 8 divisor AND 0xFF);
                  s = outb PIT_CHANNEL0 low s;
                  s = outb PIT_CHANNEL0 high s
              in Inr (pic_clear_mask dev (ucast IRQ_TIMER) s))"

definition timer_get_ticks :: "'a timer_state_scheme \<Rightarrow> u32" where
  "timer_get_ticks s = ticks s"

type_synonym 's halt = "'s \<Rightarrow> 's option"

partial_function (option) wait_until ::
  "'a timer_state_scheme halt \<Rightarrow> u32 \<Rightarrow> 'a timer_state_scheme \<Rightarrow> 'a timer_state_scheme option" where
  "wait_until hlt end_tick s =
     (if ticks s < end_tick then Option.bind (hlt s) (wait_until hlt end_tick) else Some s)"

definition timer_wait ::
  "'a timer_state_scheme halt \<Rightarrow> u32 \<Rightarrow> 'a timer_state_scheme \<Rightarrow> 'a timer_state_scheme option" where
  "timer_wait hlt wait_ticks s = wait_until hlt (ticks s + wait_ticks) s"

definition timer_enable_preemption :: "'a timer_state_scheme \<Rightarrow> 'a timer_state_scheme" where
  "timer_enable_preemption s = s\<lparr>slice_remaining := time_slice s, preemption_enabled := True\<rparr>"

definition timer_disable_preemption :: "'a timer_state_scheme \<Rightarrow> 'a timer_state_scheme" where
  "timer_disable_preemption s = s\<lparr>preemption_enabled := False\<rparr>"

subsection \<open>The timer chip\<close>

text \<open>
  Channel 0 of the 8254 in low-byte/high-byte mode: a command resets the byte selector, then two
  writes to the channel give the reload value. \<open>pit_of\<close> reads the pending low byte and the
  reload value out of the port history.
\<close>

fun pit_of :: "io_event list \<Rightarrow> u8 option \<times> u16" where
  "pit_of [] = (None, 0)"
| "pit_of (Outb p v # h) =
     (if p = PIT_COMMAND then (None, snd (pit_of h))
      else if p = PIT_CHANNEL0 then
        (case fst (pit_of h) of
           None \<Rightarrow> (Some v, snd (pit_of h))
         | Some lo \<Rightarrow> (None, ucast lo OR push_bit 8 (ucast v)))
      else pit_of h)"
| "pit_of (e # h) = pit_of h"

lemma pit_bytes:
  "(ucast (ucast (d AND 0xFF) :: u8) OR push_bit 8 (ucast (ucast (drop_bit 8 d AND 0xFF) :: u8)) :: u16) =
     ucast d" for d :: u32
proof (rule bit_word_eqI)
  fix n :: nat
  assume n: "n < LENGTH(16)"
  have m: "(0xFF :: u32) = mask 8" by (simp add: mask_eq_exp_minus_1)
  show "bit (ucast (ucast (d AND 0xFF) :: u8) OR push_bit 8 (ucast (ucast (drop_bit 8 d AND 0xFF) :: u8)) :: u16) n
    \<longleftrightarrow> bit (ucast d :: u16) n"
    using n unfolding m by (cases "n < 8") (auto simp: bit_simps)
qed

lemma wait_until_ticks:
  assumes "\<And>s. ticks (h s) = ticks s + 1" and "unat (ticks s) + n < 2 ^ 32"
  shows "wait_until (\<lambda>s. Some (h s)) (ticks s + of_nat n) s = Some ((h ^^ n) s)"
  using assms(2)
proof (induction n arbitrary: s)
  case 0
  then show ?case by (subst wait_until.simps) simp
next
  case (Suc n)
  have un: "unat (of_nat (Suc n) :: u32) = Suc n" using Suc.prems by (intro unat_of_nat_u32) simp
  have "ticks s < ticks s + of_nat (Suc n)"
    using Suc.prems un by (simp add: word_less_nat_alt unat_add_no_wrap del: of_nat_Suc)
  then have "wait_until (\<lambda>s. Some (h s)) (ticks s + of_nat (Suc n)) s =
      wait_until (\<lambda>s. Some (h s)) (ticks s + of_nat (Suc n)) (h s)"
    by (subst wait_until.simps) (simp del: of_nat_Suc)
  moreover have "ticks s + of_nat (Suc n) = ticks (h s) + of_nat n" by (simp add: assms(1))
  moreover have "unat (ticks (h s)) + n < 2 ^ 32"
    using Suc.prems by (simp add: assms(1) unat_add_no_wrap)
  ultimately show ?case
    using Suc.IH [of "h s"] by (simp add: funpow_swap1 del: of_nat_Suc)
qed

subsection \<open>Properties of the timer\<close>

definition demo_timer :: timer_state where
  "demo_timer = heap_state.extend demo_heap
     \<lparr>ticks = 0, preemption_enabled = False, time_slice = 10, slice_remaining = 0\<rparr>"

lemma demo_ticks: "ticks demo_timer = 0"
  by (simp add: demo_timer_def heap_state.extend_def)

text \<open>
  C30: \<open>timer_init\<close> programs the interval timer with the quotient of its input clock by the
  frequency, cut to 16 bits, so exactly for every frequency from 19 Hz on, and installs the
  tick handler; for frequency 0 it divides by zero.
\<close>

theorem timer_init_programs_pit:
  "case timer_init dev f s of
     Inl e \<Rightarrow> e = DivByZero \<and> f = 0
   | Inr s' \<Rightarrow> f \<noteq> 0 \<and> pit_of (io_log s') = (None, of_nat (1193180 div unat f)) \<and>
       (if 19 \<le> unat f then unat (snd (pit_of (io_log s'))) = 1193180 div unat f else True) \<and>
       interrupt_handlers s' 32 = Some Timer_Callback"
proof (cases "f = 0")
  case True
  then show ?thesis by (simp add: timer_init_def)
next
  case False
  define d where "d = 1193180 div f"
  define s' where "s' = (case timer_init dev f s of Inl _ \<Rightarrow> s | Inr s' \<Rightarrow> s')"
  have res: "timer_init dev f s = Inr s'" using False by (simp add: s'_def timer_init_def Let_def)
  have un: "unat d = 1193180 div unat f" by (simp add: d_def unat_div_u32)
  have pit: "pit_of (io_log s') = (None, ucast d)"
    using False pit_bytes [of d]
    by (simp add: s'_def timer_init_def Let_def d_def [symmetric] pic_clear_mask_def port_io_defs c_consts
        split_beta)
  have cast: "ucast d = (of_nat (1193180 div unat f) :: u16)"
    unfolding un [symmetric] by simp
  have "unat (of_nat (1193180 div unat f) :: u16) = 1193180 div unat f" if "19 \<le> unat f"
  proof -
    have "1193180 div unat f \<le> 1193180 div 19" by (rule div_le_mono2) (use that in simp_all)
    then show ?thesis by (simp add: unat_of_nat)
  qed
  moreover have "interrupt_handlers s' 32 = Some Timer_Callback"
    using False by (simp add: s'_def timer_init_def Let_def pic_clear_mask_def port_io_defs
        register_interrupt_handler_def split_beta)
  ultimately show ?thesis using res pit cast False by simp
qed

text \<open>
  C38: \<open>timer_wait\<close> ends after exactly the requested number of ticks when every interrupt is a
  tick, unless the end of the wait passes \<open>2 ^ 32\<close> ticks: then it does not wait at all.
\<close>

theorem timer_wait_duration:
  assumes "\<And>t. ticks (h t) = ticks t + 1"
  shows "timer_wait (\<lambda>t. Some (h t)) n s =
    (if unat (ticks s) + unat n < 2 ^ 32 then Some ((h ^^ unat n) s) else Some s)"
proof (cases "unat (ticks s) + unat n < 2 ^ 32")
  case True
  then show ?thesis using wait_until_ticks [OF assms, of s "unat n"] by (simp add: timer_wait_def)
next
  case False
  then have "unat (ticks s + n) = unat (ticks s) + unat n - 2 ^ 32"
    using unat_lt_u32 [of "ticks s"] unat_lt_u32 [of n] by (simp add: unat_word_ariths mod_if)
  then have "\<not> ticks s < ticks s + n"
    using False unat_lt_u32 [of n] by (simp add: word_less_nat_alt)
  then show ?thesis using False by (simp add: timer_wait_def) (subst wait_until.simps, simp)
qed

theorem timer_wait_duration_witness:
  "ticks (the (timer_wait (\<lambda>t. Some (t\<lparr>ticks := ticks t + 1\<rparr>)) 3 demo_timer)) = 3 \<and>
   timer_wait (\<lambda>t. Some (t\<lparr>ticks := ticks t + 1\<rparr>)) 3 (demo_timer\<lparr>ticks := 0xFFFFFFFE\<rparr>) =
     Some (demo_timer\<lparr>ticks := 0xFFFFFFFE\<rparr>)"
proof -
  let ?h = "\<lambda>t :: timer_state. t\<lparr>ticks := ticks t + 1\<rparr>"
  have "timer_wait (\<lambda>t. Some (?h t)) 3 demo_timer = Some ((?h ^^ 3) demo_timer)"
    using timer_wait_duration [of ?h 3 demo_timer] demo_ticks by simp
  moreover have "timer_wait (\<lambda>t. Some (?h t)) 3 (demo_timer\<lparr>ticks := 0xFFFFFFFE\<rparr>) =
      Some (demo_timer\<lparr>ticks := 0xFFFFFFFE\<rparr>)"
    using timer_wait_duration [of ?h 3 "demo_timer\<lparr>ticks := 0xFFFFFFFE\<rparr>"] by simp
  ultimately show ?thesis using demo_ticks by (simp add: numeral_3_eq_3)
qed

end
