(* ===== verification/Keyboard.thy ===== *)
theory Keyboard
  imports Timer
begin

text \<open>
  The keyboard driver (\<^verbatim>\<open>src/src/keyboard.c\<close>): the interrupt routine puts characters into a ring
  of 256 cells, of which at most 255 are in use, and \<open>keyboard_get_char\<close> takes them out. The
  ring is shown to be a bounded queue; \<open>fifo\<close> is the interface of first-in first-out queues,
  which the ready queue of the scheduler implements too.
\<close>

subsection \<open>State and operations\<close>

definition KEYBOARD_DATA_PORT :: u16 where [c_consts]: "KEYBOARD_DATA_PORT = 0x60"
definition KEYBOARD_BUFFER_SIZE :: u32 where [c_consts]: "KEYBOARD_BUFFER_SIZE = 256"

record keyboard_state = timer_state +
  keyboard_buffer :: "u32 \<Rightarrow> char"
  buffer_start :: u32
  buffer_end :: u32

definition scancode_to_ascii :: "char list" where
  "scancode_to_ascii =
     [NUL, CHR 0x1B] @ ''1234567890-='' @ [BACKSPACE, CHR 0x09] @ ''qwertyuiop[]'' @ [NEWLINE, NUL]
     @ ''asdfghjkl;'' @ [CHR 0x27, CHR 0x60, NUL, CHR 0x5C] @ ''zxcvbnm,./'' @ [NUL, CHR ''*'', NUL, CHR '' '']
     @ replicate 16 NUL @ [CHR ''-'', NUL, NUL, NUL, CHR ''+''] @ replicate 49 NUL"

definition buffer_put :: "char \<Rightarrow> 'a keyboard_state_scheme \<Rightarrow> 'a keyboard_state_scheme" where
  "buffer_put c s =
     (let nxt = (buffer_end s + 1) mod KEYBOARD_BUFFER_SIZE
      in if nxt \<noteq> buffer_start s
         then s\<lparr>keyboard_buffer := (keyboard_buffer s)(buffer_end s := c), buffer_end := nxt\<rparr>
         else s)"

definition keyboard_callback ::
  "device \<Rightarrow> 'a keyboard_state_scheme \<Rightarrow> 'a keyboard_state_scheme" where
  "keyboard_callback dev s =
     (let (scancode, s) = inb dev KEYBOARD_DATA_PORT s
      in if scancode AND 0x80 \<noteq> 0 then s
         else let c = scancode_to_ascii ! unat scancode
              in if c \<noteq> NUL then buffer_put c s else s)"

definition keyboard_init :: "device \<Rightarrow> 'a keyboard_state_scheme \<Rightarrow> 'a keyboard_state_scheme" where
  "keyboard_init dev s =
     pic_clear_mask dev IRQ_KEYBOARD (register_interrupt_handler 33 Keyboard_Callback s)"

definition keyboard_has_input :: "'a keyboard_state_scheme \<Rightarrow> bool" where
  "keyboard_has_input s \<longleftrightarrow> buffer_start s \<noteq> buffer_end s"

text \<open>The loop that halts until there is a character.\<close>

partial_function (option) keyboard_wait ::
  "'a keyboard_state_scheme halt \<Rightarrow> 'a keyboard_state_scheme \<Rightarrow> 'a keyboard_state_scheme option" where
  "keyboard_wait hlt s =
     (if buffer_start s = buffer_end s then Option.bind (hlt s) (keyboard_wait hlt) else Some s)"

definition buffer_take :: "'a keyboard_state_scheme \<Rightarrow> char \<times> 'a keyboard_state_scheme" where
  "buffer_take s =
     (keyboard_buffer s (buffer_start s),
      s\<lparr>buffer_start := (buffer_start s + 1) mod KEYBOARD_BUFFER_SIZE\<rparr>)"

definition keyboard_get_char ::
  "'a keyboard_state_scheme halt \<Rightarrow> 'a keyboard_state_scheme \<Rightarrow>
   (char \<times> 'a keyboard_state_scheme) option" where
  "keyboard_get_char hlt s = do {
     s \<leftarrow> keyboard_wait hlt s;
     Some (buffer_take s)
   }"

subsection \<open>First-in first-out queues\<close>

fun take_many :: "('s \<Rightarrow> 'e \<times> 's) \<Rightarrow> nat \<Rightarrow> 's \<Rightarrow> 'e list \<times> 's" where
  "take_many get 0 s = ([], s)"
| "take_many get (Suc n) s = (let (x, s) = get s; (xs, s) = take_many get n s in (x # xs, s))"

fun admits_all :: "('e \<Rightarrow> 's \<Rightarrow> 's) \<Rightarrow> ('e \<Rightarrow> 's \<Rightarrow> bool) \<Rightarrow> 'e list \<Rightarrow> 's \<Rightarrow> bool" where
  "admits_all put admits [] s \<longleftrightarrow> True"
| "admits_all put admits (x # xs) s \<longleftrightarrow> admits x s \<and> admits_all put admits xs (put x s)"

locale fifo =
  fixes items :: "'s \<Rightarrow> 'e list"
    and put :: "'e \<Rightarrow> 's \<Rightarrow> 's"
    and get :: "'s \<Rightarrow> 'e \<times> 's"
    and ok :: "'s \<Rightarrow> bool"
    and admits :: "'e \<Rightarrow> 's \<Rightarrow> bool"
  assumes put_items: "ok s \<Longrightarrow> admits x s \<Longrightarrow> ok (put x s) \<and> items (put x s) = items s @ [x]"
    and get_items: "ok s \<Longrightarrow> items s = x # xs \<Longrightarrow>
          fst (get s) = x \<and> ok (snd (get s)) \<and> items (snd (get s)) = xs"
begin

lemma put_all:
  "ok s \<Longrightarrow> admits_all put admits xs s \<Longrightarrow> ok (fold put xs s) \<and> items (fold put xs s) = items s @ xs"
proof (induction xs arbitrary: s)
  case (Cons x xs)
  then show ?case using put_items [of s x] by auto
qed simp

lemma get_all:
  "ok s \<Longrightarrow> items s = xs @ ys \<Longrightarrow>
   fst (take_many get (length xs) s) = xs \<and> ok (snd (take_many get (length xs) s)) \<and>
   items (snd (take_many get (length xs) s)) = ys"
proof (induction xs arbitrary: s)
  case (Cons x xs)
  from get_items [of s x "xs @ ys"] Cons.prems Cons.IH [of "snd (get s)"] show ?case
    by (auto simp: split_beta Let_def)
qed simp

lemma in_order:
  assumes "ok s" "items s = []" "admits_all put admits xs s"
  shows "fst (take_many get (length xs) (fold put xs s)) = xs"
proof -
  from put_all [OF assms(1,3)] assms(2)
  have "ok (fold put xs s)" "items (fold put xs s) = xs @ []" by auto
  from get_all [OF this] show ?thesis by blast
qed

end

subsection \<open>The ring as a queue\<close>

definition ring_ok :: "'a keyboard_state_scheme \<Rightarrow> bool" where
  "ring_ok s \<longleftrightarrow> unat (buffer_start s) < 256 \<and> unat (buffer_end s) < 256"

definition ring_count :: "'a keyboard_state_scheme \<Rightarrow> nat" where
  "ring_count s = (unat (buffer_end s) + 256 - unat (buffer_start s)) mod 256"

definition ring_items :: "'a keyboard_state_scheme \<Rightarrow> string" where
  "ring_items s =
     map (\<lambda>i. keyboard_buffer s (of_nat ((unat (buffer_start s) + i) mod 256))) [0..<ring_count s]"

definition ring_admits :: "char \<Rightarrow> 'a keyboard_state_scheme \<Rightarrow> bool" where
  "ring_admits c s \<longleftrightarrow> length (ring_items s) < 255"

lemma length_ring_items [simp]: "length (ring_items s) = ring_count s"
  by (simp add: ring_items_def)

lemma next_index:
  assumes "unat e < 256"
  shows "unat ((e + 1) mod KEYBOARD_BUFFER_SIZE) = (unat e + 1) mod 256"
  using assms by (simp add: c_consts unat_mod_u32 unat_add_no_wrap)

lemma mod_succ: "x < 256 \<Longrightarrow> (x + 1) mod 256 = (if x = 255 then 0 else x + (1 :: nat))"
  by auto

lemma ring_step:
  fixes a e :: nat
  assumes "a < 256" "e < 256" "a \<noteq> e"
  shows "(if a \<le> e then e - a else e + 256 - a) =
    Suc (if (if a = 255 then 0 else a + 1) \<le> e then e - (if a = 255 then 0 else a + 1)
         else e + 256 - (if a = 255 then 0 else a + 1))"
  using assms by auto

lemma ring_count_if:
  assumes "ring_ok s"
  shows "ring_count s =
    (if unat (buffer_start s) \<le> unat (buffer_end s) then unat (buffer_end s) - unat (buffer_start s)
     else unat (buffer_end s) + 256 - unat (buffer_start s))"
proof (cases "unat (buffer_start s) \<le> unat (buffer_end s)")
  case True
  then have eq: "unat (buffer_end s) + 256 - unat (buffer_start s) =
      (unat (buffer_end s) - unat (buffer_start s)) + 256" by simp
  have "unat (buffer_end s) - unat (buffer_start s) < 256"
    using assms by (simp add: ring_ok_def less_imp_diff_less)
  then show ?thesis using True unfolding ring_count_def eq mod_add_self2 by simp
next
  case False
  then show ?thesis using assms by (simp add: ring_count_def ring_ok_def)
qed

lemma ring_count_cases:
  assumes "ring_ok s"
  shows "unat (buffer_start s) \<le> unat (buffer_end s) \<Longrightarrow>
           ring_count s = unat (buffer_end s) - unat (buffer_start s)"
    and "unat (buffer_end s) < unat (buffer_start s) \<Longrightarrow>
           ring_count s = unat (buffer_end s) + 256 - unat (buffer_start s)"
  by (simp_all add: ring_count_if [OF assms])

lemma ring_empty: "ring_ok s \<Longrightarrow> ring_items s = [] \<longleftrightarrow> buffer_start s = buffer_end s"
proof -
  assume ok: "ring_ok s"
  have "ring_count s = 0 \<longleftrightarrow> unat (buffer_start s) = unat (buffer_end s)"
    using ring_count_cases [OF ok] ok by (cases "unat (buffer_start s) \<le> unat (buffer_end s)")
      (auto simp: ring_ok_def)
  then show ?thesis by (simp add: ring_items_def word_eq_iff_unat_u32)
qed

text \<open>The cell behind the last item, and the condition under which \<open>buffer_put\<close> stores.\<close>

lemma ring_end:
  assumes "ring_ok s"
  shows "(unat (buffer_start s) + ring_count s) mod 256 = unat (buffer_end s)"
    and "(buffer_end s + 1) mod KEYBOARD_BUFFER_SIZE = buffer_start s \<longleftrightarrow> ring_count s = 255"
proof -
  let ?a = "unat (buffer_start s)" and ?e = "unat (buffer_end s)"
  have b: "?a < 256" "?e < 256" using assms by (simp_all add: ring_ok_def)
  show "(?a + ring_count s) mod 256 = ?e"
    using ring_count_cases [OF assms] b by (cases "?a \<le> ?e") simp_all
  have "(?e + 1) mod 256 = ?a \<longleftrightarrow> ring_count s = 255"
    using ring_count_cases [OF assms] b by (cases "?a \<le> ?e"; cases "?e = 255") auto
  then show "(buffer_end s + 1) mod KEYBOARD_BUFFER_SIZE = buffer_start s \<longleftrightarrow> ring_count s = 255"
    using next_index [OF b(2)] by (simp add: word_eq_iff_unat_u32)
qed

lemma ring_count_bound: "ring_count s < 256"
  by (simp add: ring_count_def)

lemma buffer_put_items:
  assumes ok: "ring_ok s"
  shows "ring_ok (buffer_put c s)"
    and "ring_items (buffer_put c s) = (if ring_count s < 255 then ring_items s @ [c] else ring_items s)"
proof -
  let ?a = "unat (buffer_start s)" and ?e = "unat (buffer_end s)"
  have b: "?a < 256" "?e < 256" using ok by (simp_all add: ring_ok_def)
  show "ring_ok (buffer_put c s)"
    using ok next_index [OF b(2)] by (simp add: buffer_put_def ring_ok_def Let_def)
  show "ring_items (buffer_put c s) = (if ring_count s < 255 then ring_items s @ [c] else ring_items s)"
  proof (cases "ring_count s < 255")
    case False
    then have "ring_count s = 255" using ring_count_bound [of s] by simp
    then show ?thesis using ring_end(2) [OF ok] by (simp add: buffer_put_def Let_def)
  next
    case True
    define t where "t = buffer_put c s"
    have t: "t = s\<lparr>keyboard_buffer := (keyboard_buffer s)(buffer_end s := c),
        buffer_end := (buffer_end s + 1) mod KEYBOARD_BUFFER_SIZE\<rparr>"
      using True ring_end(2) [OF ok] by (simp add: t_def buffer_put_def Let_def)
    have et: "unat (buffer_end t) = (if ?e = 255 then 0 else ?e + 1)" "buffer_start t = buffer_start s"
      using next_index [OF b(2)] mod_succ [OF b(2)] by (simp_all add: t)
    have "ring_ok t" using et b by (simp add: ring_ok_def)
    then have cnt: "ring_count t = Suc (ring_count s)"
      using True b et by (auto simp: ring_count_if [OF ok] ring_count_if split: if_splits)
    have last: "of_nat ((?a + ring_count s) mod 256) = buffer_end s"
      unfolding ring_end(1) [OF ok] by simp
    have other: "of_nat ((?a + i) mod 256) \<noteq> buffer_end s" if "i < ring_count s" for i
    proof -
      have "(?a + i) mod 256 \<noteq> ?e"
        using ring_count_cases [OF ok] b that
        by (cases "?a \<le> ?e"; cases "?a + i < 256") (auto simp: mod_if)
      moreover have "unat (of_nat ((?a + i) mod 256) :: u32) = (?a + i) mod 256"
        by (rule unat_of_nat_u32) (rule order_less_trans [OF mod_less_divisor], simp_all)
      ultimately show ?thesis by (metis)
    qed
    have "ring_items t = ring_items s @ [c]"
      unfolding ring_items_def cnt using last other by (simp add: t)
    then show ?thesis using True by (simp add: t_def)
  qed
qed

lemma buffer_take_items:
  assumes ok: "ring_ok s" and items: "ring_items s = x # xs"
  shows "fst (buffer_take s) = x \<and> ring_ok (snd (buffer_take s)) \<and> ring_items (snd (buffer_take s)) = xs"
proof -
  let ?a = "unat (buffer_start s)" and ?e = "unat (buffer_end s)"
  have b: "?a < 256" "?e < 256" using ok by (simp_all add: ring_ok_def)
  define t where "t = snd (buffer_take s)"
  have st: "unat (buffer_start t) = (?a + 1) mod 256" "buffer_end t = buffer_end s"
    "keyboard_buffer t = keyboard_buffer s"
    using next_index [OF b(1)] by (simp_all add: t_def buffer_take_def)
  have pos: "0 < ring_count s" using items length_ring_items [of s] by simp
  have ok': "ring_ok t" using b st by (simp add: ring_ok_def)
  have cnt: "ring_count s = Suc (ring_count t)"
  proof -
    have "?a \<noteq> ?e" using pos by (auto simp: ring_count_if [OF ok])
    from ring_step [OF b this] show ?thesis
      unfolding ring_count_if [OF ok] ring_count_if [OF ok'] st mod_succ [OF b(1)] .
  qed
  have "ring_items s = keyboard_buffer s (buffer_start s) # ring_items t"
  proof (rule nth_equalityI)
    show "length (ring_items s) = length (keyboard_buffer s (buffer_start s) # ring_items t)"
      using cnt by simp
    fix i assume i: "i < length (ring_items s)"
    have "((?a + 1) mod 256 + j) mod 256 = (?a + Suc j) mod 256" for j
      unfolding mod_add_left_eq by simp
    note eq = this
    show "ring_items s ! i = (keyboard_buffer s (buffer_start s) # ring_items t) ! i"
    proof (cases i)
      case 0
      then show ?thesis using b(1) cnt by (simp add: ring_items_def nth_append del: upt_Suc)
    next
      case (Suc j)
      then have j: "j < ring_count t" "Suc j < ring_count s" using i cnt by simp_all
      then have "ring_items s ! Suc j = keyboard_buffer s (of_nat ((?a + Suc j) mod 256))"
        by (simp add: ring_items_def del: upt_Suc)
      moreover have "ring_items t ! j = keyboard_buffer s (of_nat (((?a + 1) mod 256 + j) mod 256))"
        using j(1) unfolding ring_items_def st by simp
      ultimately show ?thesis using Suc eq by simp
    qed
  qed
  with items ok' show ?thesis by (simp add: t_def buffer_take_def)
qed

interpretation keys: fifo ring_items buffer_put buffer_take ring_ok ring_admits
proof
  fix s :: "'a keyboard_state_scheme" and x xs
  assume ok: "ring_ok s"
  show "ring_ok (buffer_put x s) \<and> ring_items (buffer_put x s) = ring_items s @ [x]"
    if "ring_admits x s"
    using buffer_put_items [OF ok] that by (simp add: ring_admits_def)
  show "fst (buffer_take s) = x \<and> ring_ok (snd (buffer_take s)) \<and> ring_items (snd (buffer_take s)) = xs"
    if "ring_items s = x # xs"
    by (rule buffer_take_items [OF ok that])
qed


lemma keyboard_wait_ready: "buffer_start s \<noteq> buffer_end s \<Longrightarrow> keyboard_wait hlt s = Some s"
  by (subst keyboard_wait.simps) simp

lemma keyboard_get_char_ready:
  "ring_ok s \<Longrightarrow> ring_items s \<noteq> [] \<Longrightarrow> keyboard_get_char hlt s = Some (buffer_take s)"
  by (simp add: keyboard_get_char_def ring_empty keyboard_wait_ready)

lemma scancode_table: "length scancode_to_ascii = 128"
  by (simp add: scancode_to_ascii_def)

lemma ring_admits_all:
  "ring_ok s \<Longrightarrow> length (ring_items s) + length cs \<le> 255 \<Longrightarrow> admits_all buffer_put ring_admits cs s"
proof (induction cs arbitrary: s)
  case (Cons c cs)
  then show ?case using buffer_put_items [of s c] length_ring_items [of "buffer_put c s"]
    by (simp add: ring_admits_def)
qed simp

lemmas ring_put_all = keys.put_all [OF _ ring_admits_all]

subsection \<open>Properties of the keyboard driver\<close>

definition demo_keyboard :: keyboard_state where
  "demo_keyboard = timer_state.extend demo_timer
     \<lparr>keyboard_buffer = \<lambda>_. NUL, buffer_start = 0, buffer_end = 0\<rparr>"

lemma demo_keyboard_ring: "ring_ok demo_keyboard" "ring_items demo_keyboard = []"
  by (simp_all add: demo_keyboard_def timer_state.extend_def ring_ok_def ring_items_def ring_count_def)

text \<open>
  a key press appends its character to the ring unless it has none or 255 characters are
  waiting; a key release and a full ring leave the waiting characters as they are. The scan code
  never reaches outside the translation table.
\<close>

theorem keyboard_callback_appends:
  assumes "ring_ok s"
  shows "let code = fst (inb dev KEYBOARD_DATA_PORT s); s' = keyboard_callback dev s
    in ring_ok s' \<and>
       ring_items s' =
         (if code < 128 \<and> scancode_to_ascii ! unat code \<noteq> NUL \<and> length (ring_items s) < 255
          then ring_items s @ [scancode_to_ascii ! unat code] else ring_items s) \<and>
       (code < 128 \<longrightarrow> unat code < length scancode_to_ascii)"
proof -
  define code where "code = fst (inb dev KEYBOARD_DATA_PORT s)"
  have "unat code < 256" using unsigned_less [where 'a = nat and w = code] by simp
  then have "unat code div 128 = (if unat code < 128 then 0 else 1)"
    by (auto intro!: div_nat_eqI)
  then have "bit (unat code) 7 \<longleftrightarrow> \<not> unat code < 128" by (simp add: bit_iff_odd)
  then have rel: "code AND 0x80 \<noteq> 0 \<longleftrightarrow> \<not> code < 128"
    using bit_iff_and_push_bit_not_eq_0 [of code 7] by (simp add: word_less_nat_alt bit_unsigned_iff)
  define t where "t = snd (inb dev KEYBOARD_DATA_PORT s)"
  have t: "ring_ok t" "ring_items t = ring_items s" "ring_count t = ring_count s"
    using assms(1) by (simp_all add: t_def inb_def Let_def ring_ok_def ring_items_def ring_count_def)
  have cb: "keyboard_callback dev s =
      (if code < 128 \<and> scancode_to_ascii ! unat code \<noteq> NUL
       then buffer_put (scancode_to_ascii ! unat code) t else t)"
    using rel by (auto simp: keyboard_callback_def code_def t_def split_beta Let_def)
  have "code < 128 \<longrightarrow> unat code < length scancode_to_ascii"
    unfolding scancode_table by (simp add: word_less_nat_alt)
  then show ?thesis
    unfolding Let_def code_def [symmetric] cb
    using buffer_put_items [OF t(1), of "scancode_to_ascii ! unat code"] t by auto
qed

theorem keyboard_callback_appends_witness:
  "ring_items (keyboard_callback (\<lambda>_ _. 0x1E) demo_keyboard) = ''a'' \<and>
   ring_items (keyboard_callback (\<lambda>_ _. 0x9E) demo_keyboard) = []"
proof -
  have "scancode_to_ascii ! 0x1E = CHR ''a''" by (simp add: scancode_to_ascii_def)
  then show ?thesis
    using keyboard_callback_appends [OF demo_keyboard_ring(1), of "\<lambda>_ _. 0x1E"]
      keyboard_callback_appends [OF demo_keyboard_ring(1), of "\<lambda>_ _. 0x9E"] demo_keyboard_ring(2)
    by (simp add: inb_def Let_def)
qed

text \<open>
  C27: characters come out of the ring in the order they went in: after up to 255 characters have
  been put into an empty ring, as many takes return exactly these characters in order.
\<close>

theorem keyboard_in_order:
  assumes "ring_ok s" and "ring_items s = []" and "length cs \<le> 255"
  shows "fst (take_many buffer_take (length cs) (fold buffer_put cs s)) = cs"
proof -
  have "admits_all buffer_put ring_admits cs s"
    by (rule ring_admits_all [OF assms(1)]) (simp only: assms(2,3) list.size add_0)
  from keys.in_order [OF assms(1,2) this] show ?thesis .
qed

theorem keyboard_in_order_witness:
  "fst (take_many buffer_take (length ''flows'') (fold buffer_put ''flows'' demo_keyboard)) = ''flows''"
  by (rule keyboard_in_order [OF demo_keyboard_ring]) simp

end
