(* ===== verification/Process.thy ===== *)
theory Process
  imports Keyboard
begin

text \<open>
  Processes and the scheduler (\<^verbatim>\<open>src/src/process.c\<close>, \<^verbatim>\<open>src/src/process.h\<close>), the context switch
  of \<^verbatim>\<open>src/src/switch.asm\<close>, and the timer interrupt that drives preemption
  (\<^verbatim>\<open>src/src/timer.c\<close>). A process is an index into the process table, a pointer to it an option.
  Kernel stacks are memory from the heap; their words are in the store \<open>hword\<close>. The processor's
  callee-saved registers, stack pointer and instruction pointer are part of the state, so that
  \<open>schedule\<close> yields the state in which the chosen process continues. Names are the characters
  before the terminating NUL. The addresses of the C functions \<open>idle_process\<close> and
  \<open>process_wrapper\<close> are parameters.
\<close>

subsection \<open>Data\<close>

definition MAX_PROCESSES :: nat where [c_consts]: "MAX_PROCESSES = 256"
definition KERNEL_STACK_SIZE :: u32 where [c_consts]: "KERNEL_STACK_SIZE = 4096"

datatype process_state_t =
  PROCESS_STATE_UNUSED | PROCESS_STATE_CREATED | PROCESS_STATE_READY | PROCESS_STATE_RUNNING
| PROCESS_STATE_BLOCKED | PROCESS_STATE_SLEEPING | PROCESS_STATE_TERMINATED

record cpu_context =
  x_edi :: u32
  x_esi :: u32
  x_ebx :: u32
  x_ebp :: u32
  x_eip :: u32

record process =
  pid :: u32
  pstate :: process_state_t
  p_context :: cpu_context
  p_esp :: u32
  kernel_stack :: u32
  page_directory :: u32
  sleep_until :: u32
  exit_code :: u32
  p_parent :: "nat option"
  p_next :: "nat option"
  p_name :: string

record cpu_regs =
  c_ebx :: u32
  c_esi :: u32
  c_edi :: u32
  c_ebp :: u32
  c_esp :: u32
  c_eip :: u32

record proc_state = keyboard_state +
  process_table :: "nat \<Rightarrow> process"
  current_process :: "nat option"
  ready_queue_head :: "nat option"
  ready_queue_tail :: "nat option"
  next_pid :: u32
  cpu :: cpu_regs

definition upd_proc ::
  "nat \<Rightarrow> (process \<Rightarrow> process) \<Rightarrow> 'a proc_state_scheme \<Rightarrow> 'a proc_state_scheme" where
  "upd_proc p f s = s\<lparr>process_table := (process_table s)(p := f (process_table s p))\<rparr>"

definition store32 :: "u32 \<Rightarrow> u32 \<Rightarrow> 'a heap_state_scheme \<Rightarrow> 'a heap_state_scheme" where
  "store32 a v s = s\<lparr>hword := (hword s)(a := v)\<rparr>"

subsection \<open>The ready queue\<close>

definition scheduler_init :: "'a proc_state_scheme \<Rightarrow> 'a proc_state_scheme" where
  "scheduler_init s = s\<lparr>ready_queue_head := None, ready_queue_tail := None\<rparr>"

definition scheduler_add :: "nat option \<Rightarrow> 'a proc_state_scheme \<Rightarrow> 'a proc_state_scheme" where
  "scheduler_add proc s =
     (case proc of
        None \<Rightarrow> s
      | Some p \<Rightarrow>
          (let s = upd_proc p (\<lambda>x. x\<lparr>p_next := None\<rparr>) s
           in case ready_queue_tail s of
                None \<Rightarrow> s\<lparr>ready_queue_head := Some p, ready_queue_tail := Some p\<rparr>
              | Some t \<Rightarrow>
                  (upd_proc t (\<lambda>x. x\<lparr>p_next := Some p\<rparr>) s)\<lparr>ready_queue_tail := Some p\<rparr>))"

text \<open>The search for the predecessor in \<open>scheduler_remove\<close>.\<close>

partial_function (option) find_prev ::
  "(nat \<Rightarrow> process) \<Rightarrow> nat \<Rightarrow> nat \<Rightarrow> nat option" where
  "find_prev tbl p prev =
     (case p_next (tbl prev) of
        None \<Rightarrow> Some prev
      | Some n \<Rightarrow> if n \<noteq> p then find_prev tbl p n else Some prev)"

definition scheduler_remove ::
  "nat option \<Rightarrow> 'a proc_state_scheme \<Rightarrow> 'a proc_state_scheme option" where
  "scheduler_remove proc s =
     (case (proc, ready_queue_head s) of
        (Some p, Some h) \<Rightarrow>
          if h = p then
            let s = s\<lparr>ready_queue_head := p_next (process_table s p)\<rparr>;
                s = (if ready_queue_head s = None then s\<lparr>ready_queue_tail := None\<rparr> else s)
            in Some (upd_proc p (\<lambda>x. x\<lparr>p_next := None\<rparr>) s)
          else do {
            prev \<leftarrow> find_prev (process_table s) p h;
            if p_next (process_table s prev) = Some p then
              let s = upd_proc prev (\<lambda>x. x\<lparr>p_next := p_next (process_table s p)\<rparr>) s;
                  s = (if ready_queue_tail s = Some p then s\<lparr>ready_queue_tail := Some prev\<rparr> else s)
              in Some (upd_proc p (\<lambda>x. x\<lparr>p_next := None\<rparr>) s)
            else Some s
          }
      | _ \<Rightarrow> Some s)"

definition wake_one :: "u32 \<Rightarrow> nat \<Rightarrow> 'a proc_state_scheme \<Rightarrow> 'a proc_state_scheme" where
  "wake_one current_tick i s =
     (if pstate (process_table s i) = PROCESS_STATE_SLEEPING \<and>
         current_tick \<ge> sleep_until (process_table s i)
      then scheduler_add (Some i) (upd_proc i (\<lambda>x. x\<lparr>pstate := PROCESS_STATE_READY\<rparr>) s)
      else s)"

definition wake_sleeping_processes :: "'a proc_state_scheme \<Rightarrow> 'a proc_state_scheme" where
  "wake_sleeping_processes s = fold (wake_one (timer_get_ticks s)) [0..<MAX_PROCESSES] s"

text \<open>Taking the next process off the queue, or the idle process when the queue is empty.\<close>

definition next_process :: "'a proc_state_scheme \<Rightarrow> nat \<times> 'a proc_state_scheme" where
  "next_process s =
     (case ready_queue_head s of
        Some n \<Rightarrow>
          (let s = s\<lparr>ready_queue_head := p_next (process_table s n)\<rparr>;
               s = (if ready_queue_head s = None then s\<lparr>ready_queue_tail := None\<rparr> else s)
           in (n, upd_proc n (\<lambda>x. x\<lparr>p_next := None\<rparr>) s))
      | None \<Rightarrow> (0, s))"

subsection \<open>Switching\<close>

text \<open>
  \<open>context_switch\<close> of \<^verbatim>\<open>switch.asm\<close>: save the callee-saved registers below the return address,
  store the stack pointer in the old process, load the new stack pointer, restore the registers
  and return to the address on the new stack.
\<close>

definition context_switch :: "nat \<Rightarrow> u32 \<Rightarrow> 'a proc_state_scheme \<Rightarrow> 'a proc_state_scheme" where
  "context_switch prev new_esp s =
     (let c = cpu s;
          e = c_esp c;
          s = store32 (e - 4) (c_ebx c) s;
          s = store32 (e - 8) (c_esi c) s;
          s = store32 (e - 12) (c_edi c) s;
          s = store32 (e - 16) (c_ebp c) s;
          s = upd_proc prev (\<lambda>x. x\<lparr>p_esp := e - 16\<rparr>) s;
          m = hword s
      in s\<lparr>cpu := \<lparr>c_ebx = m (new_esp + 12), c_esi = m (new_esp + 8), c_edi = m (new_esp + 4),
                   c_ebp = m new_esp, c_esp = new_esp + 20, c_eip = m (new_esp + 16)\<rparr>\<rparr>)"

definition schedule :: "'a proc_state_scheme \<Rightarrow> 'a proc_state_scheme" where
  "schedule s =
     (case current_process s of
        None \<Rightarrow> s
      | Some cur \<Rightarrow>
          (let s = wake_sleeping_processes s;
               (nxt, s) = next_process s
           in if nxt = cur then upd_proc cur (\<lambda>x. x\<lparr>pstate := PROCESS_STATE_RUNNING\<rparr>) s
              else
                let s = s\<lparr>current_process := Some nxt\<rparr>;
                    s = upd_proc nxt (\<lambda>x. x\<lparr>pstate := PROCESS_STATE_RUNNING\<rparr>) s;
                    s = (if page_directory (process_table s cur) \<noteq> page_directory (process_table s nxt)
                         then paging_switch (page_directory (process_table s nxt)) s else s)
                in context_switch cur (p_esp (process_table s nxt)) s))"

subsection \<open>Process operations\<close>

definition clear_slot :: "nat \<Rightarrow> 'a proc_state_scheme \<Rightarrow> 'a proc_state_scheme" where
  "clear_slot i = upd_proc i (\<lambda>x. x\<lparr>pstate := PROCESS_STATE_UNUSED, pid := 0\<rparr>)"

definition process_init :: "u32 \<Rightarrow> 'a proc_state_scheme \<Rightarrow> 'a proc_state_scheme option" where
  "process_init idle_process s =
     (let s = fold clear_slot [0..<MAX_PROCESSES] s;
          s = upd_proc 0 (\<lambda>x. x\<lparr>pid := 0, pstate := PROCESS_STATE_READY\<rparr>) s
      in do {
        (m, s) \<leftarrow> kmalloc KERNEL_STACK_SIZE s;
        let stack = m + KERNEL_STACK_SIZE;
            s = upd_proc 0 (\<lambda>x. x\<lparr>kernel_stack := stack, page_directory := paging_kernel_pd_phys s,
                                  p_parent := None, p_next := None\<rparr>) s;
            s = store32 (stack - 4) idle_process s;
            s = store32 (stack - 8) 0 s;
            s = store32 (stack - 12) 0 s;
            s = store32 (stack - 16) 0 s;
            s = store32 (stack - 20) 0 s;
            s = upd_proc 0 (\<lambda>x. x\<lparr>p_esp := stack - 20, p_name := ''idle''\<rparr>) s
        in Some (s\<lparr>current_process := Some 0\<rparr>)
      })"

definition find_free_slot :: "'a proc_state_scheme \<Rightarrow> nat option" where
  "find_free_slot s =
     find (\<lambda>i. pstate (process_table s i) = PROCESS_STATE_UNUSED) [1..<MAX_PROCESSES]"

text \<open>The two straight-line parts of \<open>process_create\<close>: claiming a slot, and building the stack.\<close>

definition claim_slot :: "nat \<Rightarrow> 'a proc_state_scheme \<Rightarrow> 'a proc_state_scheme" where
  "claim_slot p s =
     (let cur = current_process s;
          s = upd_proc p (\<lambda>x. x\<lparr>pid := next_pid s, pstate := PROCESS_STATE_CREATED, p_parent := cur,
                p_next := None, exit_code := 0, sleep_until := 0\<rparr>) s
      in s\<lparr>next_pid := next_pid s + 1\<rparr>)"

definition init_process_stack ::
  "u32 \<Rightarrow> string \<Rightarrow> u32 \<Rightarrow> nat \<Rightarrow> u32 \<Rightarrow> 'a proc_state_scheme \<Rightarrow> 'a proc_state_scheme" where
  "init_process_stack wrapper name entry p m s =
     (let stack = m + KERNEL_STACK_SIZE;
          s = upd_proc p (\<lambda>x. x\<lparr>kernel_stack := stack\<rparr>) s;
          s = store32 (stack - 4) entry s;
          s = store32 (stack - 8) 0 s;
          s = store32 (stack - 12) wrapper s;
          s = store32 (stack - 16) 0 s;
          s = store32 (stack - 20) 0 s;
          s = store32 (stack - 24) 0 s;
          s = store32 (stack - 28) 0 s
      in upd_proc p (\<lambda>x. x\<lparr>p_esp := stack - 28,
           p_name := take 31 (takeWhile (\<lambda>c. c \<noteq> NUL) name),
           pstate := PROCESS_STATE_READY\<rparr>) s)"

definition process_create ::
  "u32 \<Rightarrow> string \<Rightarrow> u32 \<Rightarrow> 'a proc_state_scheme \<Rightarrow> (nat option \<times> 'a proc_state_scheme) option" where
  "process_create wrapper name entry s =
     (case find_free_slot s of
        None \<Rightarrow> Some (None, s)
      | Some p \<Rightarrow>
          (let (pd, s) = paging_clone_pd (claim_slot p s);
               s = upd_proc p (\<lambda>x. x\<lparr>page_directory := pd\<rparr>) s
           in if pd = 0 then
                let s = kfree (kernel_stack (process_table s p) - KERNEL_STACK_SIZE) s
                in Some (None, upd_proc p (\<lambda>x. x\<lparr>pstate := PROCESS_STATE_UNUSED\<rparr>) s)
              else do {
                (m, s) \<leftarrow> kmalloc KERNEL_STACK_SIZE s;
                let s = upd_proc p (\<lambda>x. x\<lparr>kernel_stack := m\<rparr>) s
                in if m = 0 then
                     Some (None, upd_proc p (\<lambda>x. x\<lparr>pstate := PROCESS_STATE_UNUSED\<rparr>) s)
                   else
                     Some (Some p, scheduler_add (Some p)
                       (init_process_stack wrapper name entry p m s))
              }))"

definition process_exit :: "u32 \<Rightarrow> 'a proc_state_scheme \<Rightarrow> 'a proc_state_scheme" where
  "process_exit code s =
     (case current_process s of
        None \<Rightarrow> s
      | Some cur \<Rightarrow>
          if pid (process_table s cur) = 0 then s
          else let s = upd_proc cur (\<lambda>x. x\<lparr>exit_code := code, pstate := PROCESS_STATE_TERMINATED\<rparr>) s;
                   s = kfree (kernel_stack (process_table s cur) - KERNEL_STACK_SIZE) s
               in schedule s)"

text \<open>
  What a process starts with: its function \<open>entry\<close>, which may not return, and then \<open>process_exit\<close>. The idle
  process halts for ever.
\<close>

definition process_wrapper ::
  "('a proc_state_scheme \<Rightarrow> 'a proc_state_scheme option) \<Rightarrow> 'a proc_state_scheme \<Rightarrow> 'a proc_state_scheme option" where
  "process_wrapper entry s = map_option (process_exit 0) (entry s)"

partial_function (option) idle_process :: "'s halt \<Rightarrow> 's \<Rightarrow> 's option" where
  "idle_process hlt s = Option.bind (hlt s) (idle_process hlt)"

definition process_yield :: "'a proc_state_scheme \<Rightarrow> 'a proc_state_scheme" where
  "process_yield s =
     schedule
       (case current_process s of
          Some cur \<Rightarrow>
            if pstate (process_table s cur) = PROCESS_STATE_RUNNING
            then scheduler_add (Some cur) (upd_proc cur (\<lambda>x. x\<lparr>pstate := PROCESS_STATE_READY\<rparr>) s)
            else s
        | None \<Rightarrow> s)"

definition sleep_ticks :: "u32 \<Rightarrow> u32" where
  "sleep_ticks ms = (let t = (ms * 100) div 1000 in if t = 0 then 1 else t)"

definition process_sleep :: "u32 \<Rightarrow> 'a proc_state_scheme \<Rightarrow> 'a proc_state_scheme" where
  "process_sleep ms s =
     (case current_process s of
        None \<Rightarrow> s
      | Some cur \<Rightarrow>
          schedule (upd_proc cur (\<lambda>x. x\<lparr>sleep_until := timer_get_ticks s + sleep_ticks ms,
                                        pstate := PROCESS_STATE_SLEEPING\<rparr>) s))"

definition process_get_current :: "'a proc_state_scheme \<Rightarrow> nat option" where
  "process_get_current s = current_process s"

definition process_get_pid :: "'a proc_state_scheme \<Rightarrow> u32" where
  "process_get_pid s = (case current_process s of Some p \<Rightarrow> pid (process_table s p) | None \<Rightarrow> 0)"

subsection \<open>The timer interrupt\<close>

definition timer_callback :: "'a proc_state_scheme \<Rightarrow> 'a proc_state_scheme" where
  "timer_callback s =
     (let s = s\<lparr>ticks := ticks s + 1\<rparr>
      in if preemption_enabled s then
           let s = (if slice_remaining s > 0 then s\<lparr>slice_remaining := slice_remaining s - 1\<rparr> else s)
           in if slice_remaining s = 0 then
                let s = s\<lparr>slice_remaining := time_slice s\<rparr>
                in case process_get_current s of
                     Some cur \<Rightarrow> if pstate (process_table s cur) = PROCESS_STATE_RUNNING
                                then process_yield s else s
                   | None \<Rightarrow> s
              else s
         else s)"

subsection \<open>The ready queue as a list\<close>

fun chain :: "(nat \<Rightarrow> process) \<Rightarrow> nat option \<Rightarrow> nat list \<Rightarrow> bool" where
  "chain t h [] \<longleftrightarrow> h = None"
| "chain t h (p # ps) \<longleftrightarrow> h = Some p \<and> chain t (p_next (t p)) ps"

definition ready_rep :: "'a proc_state_scheme \<Rightarrow> nat list \<Rightarrow> bool" where
  "ready_rep s ps \<longleftrightarrow>
     chain (process_table s) (ready_queue_head s) ps \<and>
     ready_queue_tail s = (if ps = [] then None else Some (last ps)) \<and>
     distinct ps \<and> set ps \<subseteq> {..<MAX_PROCESSES}"

text \<open>Everything of a process but its link.\<close>

definition core :: "process \<Rightarrow> process" where
  "core p = p\<lparr>p_next := None\<rparr>"

definition same_core :: "'a proc_state_scheme \<Rightarrow> 'a proc_state_scheme \<Rightarrow> bool" where
  "same_core s s' \<longleftrightarrow> (\<forall>p. core (process_table s' p) = core (process_table s p))"

text \<open>Only the process table and the ends of the queue differ.\<close>

definition sched_only :: "'a proc_state_scheme \<Rightarrow> 'a proc_state_scheme \<Rightarrow> bool" where
  "sched_only s s' \<longleftrightarrow>
     (\<exists>t h l. s' = s\<lparr>process_table := t, ready_queue_head := h, ready_queue_tail := l\<rparr>)"

lemma sched_onlyI [intro]:
  "s' = s\<lparr>process_table := t, ready_queue_head := h, ready_queue_tail := l\<rparr> \<Longrightarrow> sched_only s s'"
  unfolding sched_only_def by blast

lemma sched_only_refl [simp, intro]: "sched_only s s"
  by (rule sched_onlyI [where t = "process_table s" and h = "ready_queue_head s"
        and l = "ready_queue_tail s"]) simp

lemma sched_only_trans [trans]: "sched_only s s' \<Longrightarrow> sched_only s' s'' \<Longrightarrow> sched_only s s''"
  by (auto simp: sched_only_def) blast

lemma sched_only_upd [simp, intro]:
  "sched_only s t \<Longrightarrow> sched_only s (upd_proc p f t)"
  "sched_only s t \<Longrightarrow> sched_only s (t\<lparr>ready_queue_head := h\<rparr>)"
  "sched_only s t \<Longrightarrow> sched_only s (t\<lparr>ready_queue_tail := h\<rparr>)"
proof -
  have "sched_only t (upd_proc p f t)"
    by (rule sched_onlyI [where t = "(process_table t)(p := f (process_table t p))"
          and h = "ready_queue_head t" and l = "ready_queue_tail t"]) (simp add: upd_proc_def)
  moreover have "sched_only t (t\<lparr>ready_queue_head := h\<rparr>)"
    by (rule sched_onlyI [where t = "process_table t" and h = h and l = "ready_queue_tail t"]) simp
  moreover have "sched_only t (t\<lparr>ready_queue_tail := h\<rparr>)"
    by (rule sched_onlyI [where t = "process_table t" and h = "ready_queue_head t" and l = h]) simp
  ultimately show "sched_only s t \<Longrightarrow> sched_only s (upd_proc p f t)"
    "sched_only s t \<Longrightarrow> sched_only s (t\<lparr>ready_queue_head := h\<rparr>)"
    "sched_only s t \<Longrightarrow> sched_only s (t\<lparr>ready_queue_tail := h\<rparr>)" by (blast intro: sched_only_trans)+
qed

lemma sched_only_fields:
  "sched_only s s' \<Longrightarrow> current_process s' = current_process s" "sched_only s s' \<Longrightarrow> ticks s' = ticks s"
  "sched_only s s' \<Longrightarrow> cpu s' = cpu s" "sched_only s s' \<Longrightarrow> hword s' = hword s"
  "sched_only s s' \<Longrightarrow> next_pid s' = next_pid s"
  by (auto simp: sched_only_def)

lemma upd_proc_simps [simp]:
  "process_table (upd_proc p f s) = (process_table s)(p := f (process_table s p))"
  "current_process (upd_proc p f s) = current_process s"
  "ready_queue_head (upd_proc p f s) = ready_queue_head s"
  "ready_queue_tail (upd_proc p f s) = ready_queue_tail s"
  "ticks (upd_proc p f s) = ticks s" "cpu (upd_proc p f s) = cpu s" "hword (upd_proc p f s) = hword s"
  by (simp_all add: upd_proc_def)

lemma core_next [simp]: "core (x\<lparr>p_next := n\<rparr>) = core x"
  by (simp add: core_def)

lemma core_fields:
  assumes "core x = core y"
  shows "pstate x = pstate y" "sleep_until x = sleep_until y" "page_directory x = page_directory y"
    "p_esp x = p_esp y" "pid x = pid y" "kernel_stack x = kernel_stack y"
  using assms by (cases x; cases y; simp add: core_def)+

lemma same_core_refl [simp]: "same_core s s"
  by (simp add: same_core_def)

lemma same_core_trans: "same_core s s' \<Longrightarrow> same_core s' s'' \<Longrightarrow> same_core s s''"
  by (simp add: same_core_def)

lemma chain_cong:
  "(\<And>p. p \<in> set ps \<Longrightarrow> p_next (t' p) = p_next (t p)) \<Longrightarrow> chain t' h ps = chain t h ps"
  by (induction ps arbitrary: h) auto

lemma chain_snoc:
  assumes "chain t h (ps @ [l])" "q \<notin> set (ps @ [l])" "distinct (ps @ [l])"
    and "\<And>p. p \<in> set ps \<Longrightarrow> p_next (t' p) = p_next (t p)"
    and "p_next (t' l) = Some q" "p_next (t' q) = None"
  shows "chain t' h (ps @ [l, q])"
  using assms by (induction ps arbitrary: h) auto

lemma chain_last: "chain t h ps \<Longrightarrow> ps \<noteq> [] \<Longrightarrow> p_next (t (last ps)) = None"
  by (induction ps arbitrary: h) auto

lemma scheduler_add_spec:
  assumes rep: "ready_rep s ps" and q: "q \<notin> set ps" "q < MAX_PROCESSES"
  shows "ready_rep (scheduler_add (Some q) s) (ps @ [q])" "same_core s (scheduler_add (Some q) s)"
    "sched_only s (scheduler_add (Some q) s)"
proof -
  show "same_core s (scheduler_add (Some q) s)"
    by (auto simp: scheduler_add_def Let_def same_core_def split: option.splits)
  show "sched_only s (scheduler_add (Some q) s)"
    by (auto simp: scheduler_add_def Let_def split: option.splits)
  show "ready_rep (scheduler_add (Some q) s) (ps @ [q])"
  proof (cases ps rule: rev_cases)
    case Nil
    then show ?thesis using rep q by (simp add: ready_rep_def scheduler_add_def Let_def)
  next
    case (snoc xs l)
    let ?s = "scheduler_add (Some q) s"
    have tl: "ready_queue_tail s = Some l" using rep snoc by (simp add: ready_rep_def)
    have "q \<noteq> l" using q snoc by auto
    have "chain (process_table ?s) (ready_queue_head s) (xs @ [l, q])"
      by (rule chain_snoc [of "process_table s"])
        (use rep q snoc tl \<open>q \<noteq> l\<close> in \<open>auto simp: ready_rep_def scheduler_add_def Let_def\<close>)
    then show ?thesis using rep q snoc tl by (simp add: ready_rep_def scheduler_add_def Let_def)
  qed
qed

lemma next_process_spec:
  assumes "ready_rep s (p # ps)"
  shows "fst (next_process s) = p" "ready_rep (snd (next_process s)) ps"
    "same_core s (snd (next_process s))" "sched_only s (snd (next_process s))"
proof -
  have h: "ready_queue_head s = Some p" "chain (process_table s) (p_next (process_table s p)) ps"
    "distinct (p # ps)" "set (p # ps) \<subseteq> {..<MAX_PROCESSES}"
    "ready_queue_tail s = (if ps = [] then Some p else Some (last ps))"
    using assms by (auto simp: ready_rep_def)
  show "fst (next_process s) = p" using h by (simp add: next_process_def Let_def)
  show "same_core s (snd (next_process s))" using h by (simp add: next_process_def Let_def same_core_def)
  show "sched_only s (snd (next_process s))" using h by (simp add: next_process_def Let_def)
  have "chain ((process_table s)(p := (process_table s p)\<lparr>p_next := None\<rparr>))
      (p_next (process_table s p)) ps"
    using h by (subst chain_cong [of _ _ "process_table s"]) auto
  moreover have "p_next (process_table s p) = None \<longleftrightarrow> ps = []" using h(2) by (cases ps) auto
  ultimately show "ready_rep (snd (next_process s)) ps"
    using h by (auto simp: ready_rep_def next_process_def Let_def)
qed

lemma next_process_empty: "ready_rep s [] \<Longrightarrow> next_process s = (0, s)"
  by (simp add: ready_rep_def next_process_def)

text \<open>The queue is an instance of the first-in first-out interface.\<close>

primrec follow :: "nat \<Rightarrow> (nat \<Rightarrow> process) \<Rightarrow> nat option \<Rightarrow> nat list" where
  "follow 0 t h = []"
| "follow (Suc n) t h = (case h of None \<Rightarrow> [] | Some p \<Rightarrow> p # follow n t (p_next (t p)))"

definition ready_list :: "'a proc_state_scheme \<Rightarrow> nat list" where
  "ready_list s = follow MAX_PROCESSES (process_table s) (ready_queue_head s)"

lemma follow_chain: "chain t h ps \<Longrightarrow> length ps \<le> n \<Longrightarrow> follow n t h = ps"
proof (induction ps arbitrary: n h)
  case Nil
  then show ?case by (cases n) auto
next
  case (Cons p ps)
  then show ?case by (cases n) auto
qed

lemma ready_rep_list: "ready_rep s ps \<Longrightarrow> ready_list s = ps"
proof -
  assume rep: "ready_rep s ps"
  then have "card (set ps) \<le> card {..<MAX_PROCESSES}" by (intro card_mono) (auto simp: ready_rep_def)
  then have "length ps \<le> MAX_PROCESSES" using rep by (simp add: ready_rep_def distinct_card)
  with rep show ?thesis by (simp add: ready_list_def ready_rep_def follow_chain)
qed

definition ready_ok :: "'a proc_state_scheme \<Rightarrow> bool" where
  "ready_ok s \<longleftrightarrow> ready_rep s (ready_list s)"

lemma ready_ok_rep: "ready_rep s ps \<Longrightarrow> ready_ok s"
  by (simp add: ready_ok_def ready_rep_list)

interpretation ready: fifo ready_list "\<lambda>p. scheduler_add (Some p)" next_process ready_ok
  "\<lambda>p s. p < MAX_PROCESSES \<and> p \<notin> set (ready_list s)"
proof
  fix s :: "'a proc_state_scheme" and p ps
  assume ok: "ready_ok s"
  then have rep: "ready_rep s (ready_list s)" by (simp add: ready_ok_def)
  show "ready_ok (scheduler_add (Some p) s) \<and> ready_list (scheduler_add (Some p) s) = ready_list s @ [p]"
    if "p < MAX_PROCESSES \<and> p \<notin> set (ready_list s)"
    using scheduler_add_spec(1) [OF rep, of p] that ready_rep_list ready_ok_rep by blast
  show "fst (next_process s) = p \<and> ready_ok (snd (next_process s)) \<and> ready_list (snd (next_process s)) = ps"
    if "ready_list s = p # ps"
    using next_process_spec [OF rep [unfolded that]] ready_rep_list ready_ok_rep by blast
qed

lemma find_prev_spec:
  "chain t (Some h) (h # ps) \<Longrightarrow> p \<noteq> h \<Longrightarrow>
   (p \<in> set ps \<longrightarrow> (\<exists>xs y ys. h # ps = xs @ y # p # ys \<and> find_prev t p h = Some y)) \<and>
   (p \<notin> set ps \<longrightarrow> find_prev t p h = Some (last (h # ps)))"
proof (induction ps arbitrary: h)
  case Nil
  then show ?case by (subst find_prev.simps) simp
next
  case (Cons n ns)
  then have nx: "p_next (t h) = Some n" "chain t (Some n) (n # ns)" by auto
  show ?case
  proof (cases "n = p")
    case True
    then have "find_prev t p h = Some h" using nx by (subst find_prev.simps) simp
    moreover have "h # n # ns = [] @ h # p # ns" using True by simp
    ultimately show ?thesis using True by (metis list.set_intros(1))
  next
    case False
    then have step: "find_prev t p h = find_prev t p n" using nx by (subst find_prev.simps) simp
    note IH = Cons.IH [OF nx(2)]
    have "\<exists>xs y ys. h # n # ns = xs @ y # p # ys \<and> find_prev t p h = Some y" if mem: "p \<in> set ns"
    proof -
      obtain xs y ys where "n # ns = xs @ y # p # ys" "find_prev t p n = Some y"
        using IH False mem by auto
      then have "h # n # ns = (h # xs) @ y # p # ys \<and> find_prev t p h = Some y" using step by simp
      then show ?thesis by blast
    qed
    then show ?thesis using IH False step by auto
  qed
qed

lemma chain_link: "chain t h (xs @ y # p # ys) \<Longrightarrow> p_next (t y) = Some p"
  by (induction xs arbitrary: h) auto

lemma chain_drop:
  assumes "chain t h (xs @ y # p # ys)" "distinct (xs @ y # p # ys)"
    and "\<And>q. q \<in> set xs \<union> set ys \<Longrightarrow> p_next (t' q) = p_next (t q)" "p_next (t' y) = p_next (t p)"
  shows "chain t' h (xs @ y # ys)"
  using assms
proof (induction xs arbitrary: h)
  case Nil
  then have "chain t (p_next (t p)) ys" by simp
  then have "chain t' (p_next (t p)) ys" using Nil.prems(3) chain_cong [of ys t' t] by simp
  then show ?case using Nil by simp
qed auto

lemma scheduler_remove_spec:
  assumes rep: "ready_rep s ps"
  shows "\<exists>s'. scheduler_remove (Some p) s = Some s' \<and> ready_rep s' (remove1 p ps) \<and>
    same_core s s' \<and> sched_only s s' \<and> (p \<notin> set ps \<longrightarrow> s' = s)"
proof (cases ps)
  case Nil
  then show ?thesis using rep by (simp add: scheduler_remove_def ready_rep_def)
next
  case (Cons h ns)
  have ch: "chain (process_table s) (Some h) (h # ns)" and hd: "ready_queue_head s = Some h"
    and dist: "distinct (h # ns)" and sub: "set (h # ns) \<subseteq> {..<MAX_PROCESSES}"
    and tl: "ready_queue_tail s = Some (last (h # ns))"
    using rep Cons by (auto simp: ready_rep_def)
  show ?thesis
  proof (cases "h = p")
    case True
    then have "scheduler_remove (Some p) s = Some (snd (next_process s))"
      using hd by (simp add: scheduler_remove_def next_process_def Let_def)
    then show ?thesis using next_process_spec [of s h ns] rep Cons True by simp
  next
    case False
    show ?thesis
    proof (cases "p \<in> set ns")
      case True
      then obtain xs y ys where sp: "h # ns = xs @ y # p # ys"
        "find_prev (process_table s) p h = Some y"
        using find_prev_spec [OF ch not_sym [OF False]] by blast
      have ne: "y \<noteq> p" using dist sp(1) by auto
      have ch': "chain (process_table s) (Some h) (xs @ y # p # ys)" "distinct (xs @ y # p # ys)"
        using ch dist sp(1) by simp_all
      have y: "p_next (process_table s y) = Some p"
        by (rule chain_link [OF ch'(1)])
      define s' where "s' = upd_proc p (\<lambda>x. x\<lparr>p_next := None\<rparr>)
        (if ready_queue_tail s = Some p
         then (upd_proc y (\<lambda>x. x\<lparr>p_next := p_next (process_table s p)\<rparr>) s)\<lparr>ready_queue_tail := Some y\<rparr>
         else upd_proc y (\<lambda>x. x\<lparr>p_next := p_next (process_table s p)\<rparr>) s)"
      have res: "scheduler_remove (Some p) s = Some s'"
        using hd False sp(2) y by (simp add: scheduler_remove_def Let_def s'_def)
      have "chain (process_table s') (Some h) (xs @ y # ys)"
        by (rule chain_drop [OF ch']) (use ch'(2) in \<open>auto simp: s'_def\<close>)
      moreover have "last (h # ns) = p \<longleftrightarrow> ys = []"
        using dist sp(1) by (cases ys rule: rev_cases) auto
      moreover have "remove1 p ps = xs @ y # ys"
        using dist sp(1) Cons ne by (auto simp: remove1_append)
      moreover have "last (h # ns) = last (xs @ y # ys)" if "ys \<noteq> []" using that sp(1) by simp
      ultimately have "ready_rep s' (remove1 p ps)"
        using sub dist sp(1) tl hd by (auto simp: ready_rep_def s'_def)
      moreover have "same_core s s'" by (auto simp: same_core_def s'_def)
      moreover have "sched_only s s'" by (simp add: s'_def)
      ultimately show ?thesis using res True Cons by auto
    next
      case out: False
      then have "find_prev (process_table s) p h = Some (last (h # ns))"
        using find_prev_spec [OF ch not_sym [OF False]] by blast
      moreover have "p_next (process_table s (last (h # ns))) = None" using chain_last [OF ch] by simp
      ultimately have "scheduler_remove (Some p) s = Some s"
        using hd False by (simp add: scheduler_remove_def)
      then show ?thesis using rep out Cons False by (simp add: remove1_idem)
    qed
  qed
qed

subsection \<open>Waking\<close>

definition woken :: "'a proc_state_scheme \<Rightarrow> nat list" where
  "woken s = filter (\<lambda>i. pstate (process_table s i) = PROCESS_STATE_SLEEPING \<and>
                         ticks s \<ge> sleep_until (process_table s i)) [0..<MAX_PROCESSES]"

text \<open>Waking makes exactly the processes in \<open>ws\<close> ready.\<close>

definition readied :: "nat set \<Rightarrow> 'a proc_state_scheme \<Rightarrow> 'a proc_state_scheme \<Rightarrow> bool" where
  "readied ws s s' \<longleftrightarrow>
     (\<forall>p. core (process_table s' p) =
          (if p \<in> ws then core ((process_table s p)\<lparr>pstate := PROCESS_STATE_READY\<rparr>)
           else core (process_table s p)))"

lemma core_ready:
  "core x = core y \<Longrightarrow>
   core (x\<lparr>pstate := PROCESS_STATE_READY\<rparr>) = core (y\<lparr>pstate := PROCESS_STATE_READY\<rparr>)"
  by (cases x; cases y) (simp add: core_def)

lemma wake_prefix:
  assumes rep: "ready_rep s ps" and rdy: "\<forall>p \<in> set ps. pstate (process_table s p) = PROCESS_STATE_READY"
    and n: "n \<le> MAX_PROCESSES"
  shows "let ws = filter (\<lambda>i. pstate (process_table s i) = PROCESS_STATE_SLEEPING \<and>
                         tick \<ge> sleep_until (process_table s i)) [0..<n];
             s' = fold (wake_one tick) [0..<n] s
         in ready_rep s' (ps @ ws) \<and> readied (set ws) s s' \<and> sched_only s s'"
  using n
proof (induction n)
  case 0
  then show ?case using rep by (simp add: readied_def)
next
  case (Suc n)
  define ws where "ws = filter (\<lambda>i. pstate (process_table s i) = PROCESS_STATE_SLEEPING \<and>
                         tick \<ge> sleep_until (process_table s i)) [0..<n]"
  define t where "t = fold (wake_one tick) [0..<n] s"
  have t: "ready_rep t (ps @ ws)" "readied (set ws) s t" "sched_only s t"
    using Suc by (simp_all add: t_def ws_def Let_def)
  have n: "n \<notin> set ws" by (simp add: ws_def)
  have core_n: "core (process_table t n) = core (process_table s n)" using t(2) n by (simp add: readied_def)
  note f = core_fields [OF core_n]
  show ?case
  proof (cases "pstate (process_table s n) = PROCESS_STATE_SLEEPING \<and> tick \<ge> sleep_until (process_table s n)")
    case False
    then have "wake_one tick n t = t" using f by (auto simp: wake_one_def)
    then show ?thesis using t False by (auto simp: Let_def t_def [symmetric] ws_def [symmetric])
  next
    case True
    define u where "u = upd_proc n (\<lambda>x. x\<lparr>pstate := PROCESS_STATE_READY\<rparr>) t"
    have repu: "ready_rep u (ps @ ws)"
    proof -
      have "chain (process_table u) (ready_queue_head t) (ps @ ws)"
        using t(1) by (subst chain_cong [of _ _ "process_table t"]) (auto simp: u_def ready_rep_def)
      then show ?thesis using t(1) by (simp add: u_def ready_rep_def)
    qed
    have "n \<notin> set (ps @ ws)" using rdy True n by auto
    note add = scheduler_add_spec [OF repu this]
    have w: "wake_one tick n t = scheduler_add (Some n) u"
      using True f by (simp add: wake_one_def u_def)
    have "readied (insert n (set ws)) s (scheduler_add (Some n) u)"
      unfolding readied_def
    proof
      fix p
      have "core (process_table (scheduler_add (Some n) u) p) = core (process_table u p)"
        using add(2) Suc.prems by (simp add: same_core_def)
      moreover have "core (process_table u p) =
          (if p = n then core ((process_table s n)\<lparr>pstate := PROCESS_STATE_READY\<rparr>)
           else core (process_table t p))"
        using core_ready [OF core_n] by (simp add: u_def)
      ultimately show "core (process_table (scheduler_add (Some n) u) p) =
          (if p \<in> insert n (set ws) then core ((process_table s p)\<lparr>pstate := PROCESS_STATE_READY\<rparr>)
           else core (process_table s p))"
        using t(2) by (simp add: readied_def)
    qed
    moreover have "sched_only s (scheduler_add (Some n) u)"
      using sched_only_trans [OF sched_only_upd(1) [OF t(3)] add(3) [unfolded u_def]] Suc.prems
      by (simp add: u_def)
    ultimately show ?thesis
      using add(1) Suc.prems True w
      by (simp add: Let_def t_def [symmetric] ws_def [symmetric])
  qed
qed

lemma wake_spec:
  assumes "ready_rep s ps" "\<forall>p \<in> set ps. pstate (process_table s p) = PROCESS_STATE_READY"
  shows "ready_rep (wake_sleeping_processes s) (ps @ woken s)"
    "readied (set (woken s)) s (wake_sleeping_processes s)" "sched_only s (wake_sleeping_processes s)"
  using wake_prefix [OF assms order_refl, of "ticks s"]
  by (simp_all add: Let_def wake_sleeping_processes_def woken_def timer_get_ticks_def)

subsection \<open>The scheduler's invariant\<close>

text \<open>
  \<open>sched_inv s ps\<close>: the queue holds the distinct processes \<open>ps\<close>, all ready; the current process is
  not among them and is running, or it is the idle process as set up at boot; no other process
  is running; and every ready process but the idle one waits in the queue. \<open>sched_pre\<close> is what
  holds when \<open>schedule\<close> is called: nobody is running.
\<close>

definition sched_inv :: "'a proc_state_scheme \<Rightarrow> nat list \<Rightarrow> bool" where
  "sched_inv s ps \<longleftrightarrow>
     ready_rep s ps \<and> (\<forall>p \<in> set ps. pstate (process_table s p) = PROCESS_STATE_READY) \<and>
     (\<exists>c < MAX_PROCESSES. current_process s = Some c \<and> c \<notin> set ps \<and>
        (pstate (process_table s c) = PROCESS_STATE_RUNNING \<or>
         c = 0 \<and> pstate (process_table s c) = PROCESS_STATE_READY) \<and>
        (\<forall>p < MAX_PROCESSES. p \<noteq> c \<longrightarrow> pstate (process_table s p) \<noteq> PROCESS_STATE_RUNNING) \<and>
        (\<forall>p < MAX_PROCESSES. p \<noteq> 0 \<and> p \<noteq> c \<and> pstate (process_table s p) = PROCESS_STATE_READY \<longrightarrow>
           p \<in> set ps))"

definition sched_pre :: "'a proc_state_scheme \<Rightarrow> nat list \<Rightarrow> nat \<Rightarrow> bool" where
  "sched_pre s ps c \<longleftrightarrow>
     ready_rep s ps \<and> (\<forall>p \<in> set ps. pstate (process_table s p) = PROCESS_STATE_READY) \<and>
     c < MAX_PROCESSES \<and> current_process s = Some c \<and>
     (\<forall>p < MAX_PROCESSES. pstate (process_table s p) \<noteq> PROCESS_STATE_RUNNING) \<and>
     (\<forall>p < MAX_PROCESSES. p \<noteq> 0 \<and> pstate (process_table s p) = PROCESS_STATE_READY \<longrightarrow> p \<in> set ps)"

text \<open>The process that \<open>schedule\<close> chooses.\<close>

definition chosen :: "nat list \<Rightarrow> nat" where
  "chosen q = (case q of [] \<Rightarrow> 0 | p # _ \<Rightarrow> p)"

lemma chosen_props:
  assumes "distinct q" "set q \<subseteq> {..<MAX_PROCESSES}"
  shows "chosen q < MAX_PROCESSES" "chosen q \<notin> set (tl q)"
  using assms by (cases q; auto simp: chosen_def c_consts)+

lemma chosen_mem: "p \<in> set q \<Longrightarrow> p \<noteq> chosen q \<Longrightarrow> p \<in> set (tl q)"
  by (cases q) (auto simp: chosen_def)

lemma woken_props:
  "distinct (woken s)" "set (woken s) \<subseteq> {..<MAX_PROCESSES}"
  "p \<in> set (woken s) \<Longrightarrow> pstate (process_table s p) = PROCESS_STATE_SLEEPING"
  by (auto simp: woken_def)

lemma next_process_chosen:
  assumes "ready_rep s q"
  shows "fst (next_process s) = chosen q" "ready_rep (snd (next_process s)) (tl q)"
    "same_core s (snd (next_process s))" "sched_only s (snd (next_process s))"
  using next_process_spec [of s] next_process_empty [of s] assms
  by (cases q; auto simp: chosen_def)+

lemma context_switch_sched [simp]:
  "ready_queue_head (context_switch p e s) = ready_queue_head s"
  "ready_queue_tail (context_switch p e s) = ready_queue_tail s"
  "current_process (context_switch p e s) = current_process s"
  "pstate (process_table (context_switch p e s) q) = pstate (process_table s q)"
  "p_next (process_table (context_switch p e s) q) = p_next (process_table s q)"
  by (simp_all add: context_switch_def Let_def store32_def upd_proc_def)

lemma ready_rep_cong:
  assumes "ready_rep s ps" "ready_queue_head s' = ready_queue_head s"
    "ready_queue_tail s' = ready_queue_tail s"
    "\<And>p. p \<in> set ps \<Longrightarrow> p_next (process_table s' p) = p_next (process_table s p)"
  shows "ready_rep s' ps"
  using assms chain_cong [of ps "process_table s'" "process_table s"] by (simp add: ready_rep_def)

lemma paging_switch_sched [simp]:
  "process_table (paging_switch d s) = process_table s" "ready_queue_head (paging_switch d s) = ready_queue_head s"
  "ready_queue_tail (paging_switch d s) = ready_queue_tail s"
  "current_process (paging_switch d s) = current_process s" "cpu (paging_switch d s) = cpu s"
  "hword (paging_switch d s) = hword s"
  by (simp_all add: paging_switch_def)

lemma schedule_spec:
  assumes pre: "sched_pre s ps c"
  shows "sched_inv (schedule s) (tl (ps @ woken s))"
    and "current_process (schedule s) = Some (chosen (ps @ woken s))"
    and "pstate (process_table (schedule s) p) =
      (if p = chosen (ps @ woken s) then PROCESS_STATE_RUNNING
       else if p \<in> set (woken s) then PROCESS_STATE_READY else pstate (process_table s p))"
proof -
  let ?q = "ps @ woken s"
  define n where "n = chosen ?q"
  define w where "w = wake_sleeping_processes s"
  define t where "t = snd (next_process w)"
  have rep: "ready_rep s ps" and rdy: "\<forall>p \<in> set ps. pstate (process_table s p) = PROCESS_STATE_READY"
    and c: "c < MAX_PROCESSES" "current_process s = Some c"
    and norun: "\<forall>p < MAX_PROCESSES. pstate (process_table s p) \<noteq> PROCESS_STATE_RUNNING"
    and inq: "\<forall>p < MAX_PROCESSES. p \<noteq> 0 \<and> pstate (process_table s p) = PROCESS_STATE_READY \<longrightarrow> p \<in> set ps"
    using pre by (simp_all add: sched_pre_def)
  note wk = wake_spec [OF rep rdy, folded w_def]
  note nx = next_process_chosen [OF wk(1), folded n_def t_def]
  have st: "pstate (process_table t p) =
      (if p \<in> set (woken s) then PROCESS_STATE_READY else pstate (process_table s p))" for p
  proof -
    have "pstate (process_table t p) = pstate (process_table w p)"
      using nx(3) by (intro core_fields(1)) (simp add: same_core_def)
    moreover have "core (process_table w p) =
        (if p \<in> set (woken s) then core ((process_table s p)\<lparr>pstate := PROCESS_STATE_READY\<rparr>)
         else core (process_table s p))" using wk(2) by (simp add: readied_def)
    then have "pstate (process_table w p) =
        (if p \<in> set (woken s) then PROCESS_STATE_READY else pstate (process_table s p))"
      using core_fields(1) [of "process_table w p"] by (auto split: if_splits dest: core_fields(1))
    ultimately show ?thesis by simp
  qed
  have cur: "current_process t = Some c"
    using sched_only_fields(1) [OF sched_only_trans [OF wk(3) nx(4)]] c(2) by simp
  define f where "f = schedule s"
  have pst: "pstate (process_table f p) = (if p = n then PROCESS_STATE_RUNNING else pstate (process_table t p))"
    and pnx: "p_next (process_table f p) = p_next (process_table t p)"
    and q: "ready_queue_head f = ready_queue_head t" "ready_queue_tail f = ready_queue_tail t"
    and cf: "current_process f = Some n" for p
    using c(2) cur nx(1)
    by (auto simp: f_def schedule_def w_def [symmetric] t_def [symmetric] split_beta Let_def)
  show "current_process (schedule s) = Some (chosen ?q)" using cf by (simp add: f_def n_def)
  show "pstate (process_table (schedule s) p) =
      (if p = chosen ?q then PROCESS_STATE_RUNNING
       else if p \<in> set (woken s) then PROCESS_STATE_READY else pstate (process_table s p))"
    using pst st by (simp add: f_def n_def)
  have rep': "ready_rep f (tl ?q)" by (rule ready_rep_cong [OF nx(2)]) (simp_all add: q pnx)
  have dist: "distinct ?q" "set ?q \<subseteq> {..<MAX_PROCESSES}" using wk(1) by (simp_all add: ready_rep_def)
  have n: "n < MAX_PROCESSES" "n \<notin> set (tl ?q)"
    unfolding n_def using chosen_props [OF dist] by simp_all
  have mem: "p \<in> set (tl ?q)" if "p \<in> set ?q" "p \<noteq> n" for p
    using chosen_mem [OF that(1)] that(2) by (simp add: n_def)
  have "pstate (process_table f p) = PROCESS_STATE_READY" if "p \<in> set (tl ?q)" for p
  proof -
    have "p \<in> set ?q" using that by (rule list.set_sel(2) [rotated]) (use that in auto)
    then show ?thesis using that n(2) rdy by (auto simp: pst st)
  qed
  moreover have "pstate (process_table f p) \<noteq> PROCESS_STATE_RUNNING" if "p < MAX_PROCESSES" "p \<noteq> n" for p
    using that norun by (simp add: pst st)
  moreover have "p \<in> set (tl ?q)"
    if "p < MAX_PROCESSES" "p \<noteq> 0" "p \<noteq> n" "pstate (process_table f p) = PROCESS_STATE_READY" for p
    using that inq by (intro mem) (auto simp: pst st split: if_splits)
  ultimately show "sched_inv (schedule s) (tl ?q)"
    using rep' n cf pst unfolding sched_inv_def f_def [symmetric] by auto
qed

end
