(* ===== verification/Scheduler.thy ===== *)
theory Scheduler
  imports Process
begin

text \<open>
  The scheduler at work: what the operations of \<^verbatim>\<open>src/src/process.c\<close> and the timer interrupt do
  to the invariant \<open>sched_inv\<close>, the states that can be reached by interleaving them, fairness,
  sleeping, and the stack frames that \<open>context_switch\<close> builds and consumes.
\<close>

subsection \<open>Frames of the memory services\<close>

text \<open>The heap and the page tables do not touch the fields that later components add.\<close>

lemma pmm_alloc_more: "paging_state.more (snd (pmm_alloc_page s)) = paging_state.more s"
  by (cases s rule: pmm_alloc_page_cases) (simp_all add: bitmap_set_def Let_def)

lemma tables_only_more: "tables_only s s' \<Longrightarrow> paging_state.more s' = paging_state.more s"
  by (auto simp: tables_only_def)

lemma heap_only_more: "heap_only s s' \<Longrightarrow> heap_state.more s' = heap_state.more s"
  by (auto simp: heap_only_def)

lemma paging_more_heap: "paging_state.more s = paging_state.more t \<Longrightarrow> heap_state.more s = heap_state.more t"
  by (cases s; cases t) simp

lemma clone_tables_only: "paging_clone_pd s = (d, s') \<Longrightarrow> tables_only s s'"
  by (auto simp: paging_clone_pd_def Let_def split: prod.splits if_splits
      intro: tables_only_trans [OF tables_only_alloc tables_only_fold])

lemma expand_heap_more: "heap_state.more (expand_heap a s) = heap_state.more s"
proof -
  have "heap_state.more (paging_map_page v a f s) = heap_state.more s" for v f
    by (rule paging_more_heap [OF tables_only_more]) simp
  then show ?thesis by (simp add: expand_heap_def Let_def upd_blk_def)
qed

lemma kmalloc_more:
  assumes "kmalloc n s = Some (m, s')"
  shows "heap_state.more s' = heap_state.more s"
proof -
  have tk: "heap_state.more (snd (take_block a k t)) = heap_state.more t" for a k and t :: "'a heap_state_scheme"
    by (rule heap_only_more [OF take_block_heap_only])
  have tk': "heap_state.more t' = heap_state.more t" if "take_block a k t = (m, t')"
    for a k and t t' :: "'a heap_state_scheme" using tk [of a k t] that by simp
  have "heap_state.more (snd (pmm_alloc_page s)) = heap_state.more s"
    by (rule paging_more_heap [OF pmm_alloc_more])
  then show ?thesis using assms
    by (auto simp: kmalloc_def Let_def split_beta bind_eq_Some_conv expand_heap_more
        split: if_splits dest!: tk')
qed

lemma kfree_more: "heap_state.more (kfree p s) = heap_state.more s"
  by (rule heap_only_more [OF kfree_heap_only])

lemma clone_more: "paging_clone_pd s = (d, s') \<Longrightarrow> heap_state.more s' = heap_state.more s"
  by (rule paging_more_heap [OF tables_only_more [OF clone_tables_only]])

text \<open>The part of the state that the scheduler reads.\<close>

definition same_sched :: "'a proc_state_scheme \<Rightarrow> 'a proc_state_scheme \<Rightarrow> bool" where
  "same_sched s t \<longleftrightarrow>
     process_table t = process_table s \<and> ready_queue_head t = ready_queue_head s \<and>
     ready_queue_tail t = ready_queue_tail s \<and> current_process t = current_process s \<and>
     ticks t = ticks s \<and> next_pid t = next_pid s"

lemma more_same_sched: "heap_state.more t = heap_state.more s \<Longrightarrow> same_sched s t"
  by (cases s; cases t) (simp add: same_sched_def)

lemmas memory_same_sched = more_same_sched [OF kmalloc_more] more_same_sched [OF kfree_more]
  more_same_sched [OF clone_more]

lemma same_sched_simps [simp]:
  "same_sched s t \<Longrightarrow> sched_inv t ps = sched_inv s ps"
  "same_sched s t \<Longrightarrow> sched_pre t ps c = sched_pre s ps c"
  "same_sched s t \<Longrightarrow> woken t = woken s"
  by (simp_all add: same_sched_def sched_inv_def sched_pre_def ready_rep_def woken_def)

subsection \<open>The operations keep the invariant\<close>

lemma ready_rep_upd:
  "(\<And>x. p_next (f x) = p_next x) \<Longrightarrow> ready_rep (upd_proc p f s) ps = ready_rep s ps"
  using chain_cong [of ps "process_table (upd_proc p f s)" "process_table s"]
  by (simp add: ready_rep_def)

lemma sched_inv_cur:
  "current_process s = Some c \<Longrightarrow> sched_inv s ps \<longleftrightarrow>
     ready_rep s ps \<and> (\<forall>p \<in> set ps. pstate (process_table s p) = PROCESS_STATE_READY) \<and>
     c < MAX_PROCESSES \<and> c \<notin> set ps \<and>
     (pstate (process_table s c) = PROCESS_STATE_RUNNING \<or>
      c = 0 \<and> pstate (process_table s c) = PROCESS_STATE_READY) \<and>
     (\<forall>p < MAX_PROCESSES. p \<noteq> c \<longrightarrow> pstate (process_table s p) \<noteq> PROCESS_STATE_RUNNING) \<and>
     (\<forall>p < MAX_PROCESSES. p \<noteq> 0 \<and> p \<noteq> c \<and> pstate (process_table s p) = PROCESS_STATE_READY \<longrightarrow>
        p \<in> set ps)"
  by (simp add: sched_inv_def)

lemma sched_invI:
  assumes "current_process s = Some c" "ready_rep s ps" "c < MAX_PROCESSES" "c \<notin> set ps"
    "\<And>p. p \<in> set ps \<Longrightarrow> pstate (process_table s p) = PROCESS_STATE_READY"
    "pstate (process_table s c) = PROCESS_STATE_RUNNING \<or>
      c = 0 \<and> pstate (process_table s c) = PROCESS_STATE_READY"
    "\<And>p. p < MAX_PROCESSES \<Longrightarrow> p \<noteq> c \<Longrightarrow> pstate (process_table s p) \<noteq> PROCESS_STATE_RUNNING"
    "\<And>p. p < MAX_PROCESSES \<Longrightarrow> p \<noteq> 0 \<Longrightarrow> p \<noteq> c \<Longrightarrow>
      pstate (process_table s p) = PROCESS_STATE_READY \<Longrightarrow> p \<in> set ps"
  shows "sched_inv s ps"
  unfolding sched_inv_cur [OF assms(1)] using assms(2-) by blast

lemma sched_invD:
  assumes "sched_inv s ps" "current_process s = Some c"
  shows "ready_rep s ps" "c < MAX_PROCESSES" "c \<notin> set ps"
    "\<And>p. p \<in> set ps \<Longrightarrow> pstate (process_table s p) = PROCESS_STATE_READY"
    "pstate (process_table s c) = PROCESS_STATE_RUNNING \<or>
      c = 0 \<and> pstate (process_table s c) = PROCESS_STATE_READY"
    "\<And>p. p < MAX_PROCESSES \<Longrightarrow> p \<noteq> c \<Longrightarrow> pstate (process_table s p) \<noteq> PROCESS_STATE_RUNNING"
    "\<And>p. p < MAX_PROCESSES \<Longrightarrow> p \<noteq> 0 \<Longrightarrow> p \<noteq> c \<Longrightarrow>
      pstate (process_table s p) = PROCESS_STATE_READY \<Longrightarrow> p \<in> set ps"
  using assms(1) unfolding sched_inv_cur [OF assms(2)] by blast+

lemma sched_inv_obtain:
  assumes "sched_inv s ps"
  obtains c where "current_process s = Some c" "c < MAX_PROCESSES" "c \<notin> set ps"
  using assms by (auto simp: sched_inv_def)

text \<open>The queue that \<open>schedule\<close> finds when the current process \<open>c\<close> yields.\<close>

definition yield_queue :: "'a proc_state_scheme \<Rightarrow> nat list \<Rightarrow> nat \<Rightarrow> nat list" where
  "yield_queue s ps c =
     (if pstate (process_table s c) = PROCESS_STATE_RUNNING then ps @ [c] else ps) @ woken s"

lemma yield_spec:
  assumes inv: "sched_inv s ps" and cur: "current_process s = Some c"
  shows "sched_inv (process_yield s) (tl (yield_queue s ps c))"
    and "current_process (process_yield s) = Some (chosen (yield_queue s ps c))"
    and "pstate (process_table (process_yield s) p) =
      (if p = chosen (yield_queue s ps c) then PROCESS_STATE_RUNNING
       else if p \<in> set (yield_queue s ps c) then PROCESS_STATE_READY
       else pstate (process_table s p))"
proof -
  have rep: "ready_rep s ps" and rdy: "\<forall>p \<in> set ps. pstate (process_table s p) = PROCESS_STATE_READY"
    and c: "c < MAX_PROCESSES" "c \<notin> set ps"
      "pstate (process_table s c) = PROCESS_STATE_RUNNING \<or>
       c = 0 \<and> pstate (process_table s c) = PROCESS_STATE_READY"
    and norun: "\<forall>p < MAX_PROCESSES. p \<noteq> c \<longrightarrow> pstate (process_table s p) \<noteq> PROCESS_STATE_RUNNING"
    and inq: "\<forall>p < MAX_PROCESSES. p \<noteq> 0 \<and> p \<noteq> c \<and>
      pstate (process_table s p) = PROCESS_STATE_READY \<longrightarrow> p \<in> set ps"
    using inv cur by (auto simp: sched_inv_def)
  define f where "f = (\<lambda>x :: process. x\<lparr>pstate := PROCESS_STATE_READY\<rparr>)"
  define t where "t = (if pstate (process_table s c) = PROCESS_STATE_RUNNING
                       then scheduler_add (Some c) (upd_proc c f s) else s)"
  define q where "q = (if pstate (process_table s c) = PROCESS_STATE_RUNNING then ps @ [c] else ps)"
  have y: "process_yield s = schedule t" using cur by (simp add: process_yield_def t_def f_def)
  have "ready_rep (upd_proc c f s) ps" using rep by (simp add: ready_rep_upd f_def)
  note add = scheduler_add_spec [OF this c(2,1)]
  have st: "pstate (process_table t p) =
      (if p = c then PROCESS_STATE_READY else pstate (process_table s p))" for p
    using c(3) add(2) core_fields(1) [of "process_table t p" "process_table (upd_proc c f s) p"]
    by (auto simp: t_def same_core_def f_def)
  have sl: "sleep_until (process_table t p) = sleep_until (process_table s p)" for p
    using add(2) core_fields(2) [of "process_table t p" "process_table (upd_proc c f s) p"]
    by (auto simp: t_def same_core_def f_def)
  have tk: "ticks t = ticks s" "current_process t = Some c"
    using sched_only_fields(1,2) [OF add(3)] cur by (auto simp: t_def)
  have "ready_rep t q" using add(1) rep by (auto simp: t_def q_def)
  moreover have "pstate (process_table t p) = PROCESS_STATE_READY" if "p \<in> set q" for p
    using that rdy st [of p] by (auto simp: q_def split: if_splits)
  moreover have "p \<in> set q" if "p < MAX_PROCESSES" "p \<noteq> 0" "pstate (process_table t p) = PROCESS_STATE_READY" for p
    using that st [of p] inq c(3) by (auto simp: q_def split: if_splits)
  ultimately have pre: "sched_pre t q c" using c(1) tk norun by (simp add: sched_pre_def st)
  have w: "woken t = woken s"
    unfolding woken_def st sl tk using c(3) by (intro filter_cong) auto
  have yq: "yield_queue s ps c = q @ woken t" by (simp add: yield_queue_def q_def w)
  show "sched_inv (process_yield s) (tl (yield_queue s ps c))"
    "current_process (process_yield s) = Some (chosen (yield_queue s ps c))"
    using schedule_spec(1,2) [OF pre] by (simp_all add: y yq)
  show "pstate (process_table (process_yield s) p) =
      (if p = chosen (yield_queue s ps c) then PROCESS_STATE_RUNNING
       else if p \<in> set (yield_queue s ps c) then PROCESS_STATE_READY
       else pstate (process_table s p))"
    using schedule_spec(3) [OF pre, of p] rdy c(3) by (auto simp: y yq w st q_def split: if_splits)
qed

text \<open>The current process leaves the processor for a state in which it cannot run.\<close>

lemma retire_pre:
  assumes inv: "sched_inv s ps" and cur: "current_process s = Some c"
    and st: "\<And>x. pstate (f x) \<noteq> PROCESS_STATE_READY" "\<And>x. pstate (f x) \<noteq> PROCESS_STATE_RUNNING"
    and nx: "\<And>x. p_next (f x) = p_next x"
  shows "sched_pre (upd_proc c f s) ps c"
  using assms by (auto simp: sched_inv_def sched_pre_def ready_rep_upd)

lemma sleep_spec:
  fixes s :: "'a proc_state_scheme" and ms :: u32
  assumes inv: "sched_inv s ps" and cur: "current_process s = Some c"
  defines "u \<equiv> ticks s + sleep_ticks ms"
  defines "t \<equiv> upd_proc c (\<lambda>x. x\<lparr>sleep_until := u, pstate := PROCESS_STATE_SLEEPING\<rparr>) s"
  shows "process_sleep ms s = schedule t" "sched_pre t ps c"
    "sched_inv (process_sleep ms s) (tl (ps @ woken t))"
    "current_process (process_sleep ms s) = Some (chosen (ps @ woken t))"
proof -
  show y: "process_sleep ms s = schedule t"
    using cur by (simp add: process_sleep_def t_def u_def timer_get_ticks_def)
  show pre: "sched_pre t ps c" unfolding t_def by (rule retire_pre [OF inv cur]) simp_all
  show "sched_inv (process_sleep ms s) (tl (ps @ woken t))"
    "current_process (process_sleep ms s) = Some (chosen (ps @ woken t))"
    using schedule_spec(1,2) [OF pre] by (simp_all add: y)
qed

lemma exit_spec:
  assumes inv: "sched_inv s ps" and cur: "current_process s = Some c"
    and pid: "pid (process_table s c) \<noteq> 0"
  shows "sched_inv (process_exit code s) (tl (ps @ woken s))"
    "current_process (process_exit code s) = Some (chosen (ps @ woken s))"
    "pstate (process_table (process_exit code s) p) =
      (if p = chosen (ps @ woken s) then PROCESS_STATE_RUNNING
       else if p \<in> set (woken s) then PROCESS_STATE_READY
       else if p = c then PROCESS_STATE_TERMINATED else pstate (process_table s p))"
proof -
  define t where "t = upd_proc c (\<lambda>x. x\<lparr>exit_code := code, pstate := PROCESS_STATE_TERMINATED\<rparr>) s"
  define k where "k = kfree (kernel_stack (process_table t c) - KERNEL_STACK_SIZE) t"
  have y: "process_exit code s = schedule k"
    using cur pid by (simp add: process_exit_def Let_def t_def k_def)
  have same: "same_sched t k" unfolding k_def by (rule memory_same_sched(2))
  have "sched_pre t ps c" unfolding t_def by (rule retire_pre [OF inv cur]) simp_all
  then have pre: "sched_pre k ps c" using same by simp
  have "pstate (process_table s c) \<noteq> PROCESS_STATE_SLEEPING"
    using sched_invD(5) [OF inv cur] by auto
  then have "woken t = woken s" unfolding woken_def t_def by (intro filter_cong) auto
  then have w: "woken k = woken s" by (simp add: same_sched_simps(3) [OF same])
  have st: "pstate (process_table k p) =
      (if p = c then PROCESS_STATE_TERMINATED else pstate (process_table s p))" for p
    using same by (simp add: same_sched_def t_def)
  show "sched_inv (process_exit code s) (tl (ps @ woken s))"
    "current_process (process_exit code s) = Some (chosen (ps @ woken s))"
    "pstate (process_table (process_exit code s) p) =
      (if p = chosen (ps @ woken s) then PROCESS_STATE_RUNNING
       else if p \<in> set (woken s) then PROCESS_STATE_READY
       else if p = c then PROCESS_STATE_TERMINATED else pstate (process_table s p))"
    using schedule_spec [OF pre] by (simp_all add: y w st)
qed

subsection \<open>Creating a process\<close>

lemma find_free_slot_Some:
  assumes "find_free_slot s = Some p"
  shows "0 < p" "p < MAX_PROCESSES" "pstate (process_table s p) = PROCESS_STATE_UNUSED"
  using assms by (auto simp: find_free_slot_def find_Some_iff)

lemma find_free_slot_None:
  "find_free_slot s = None \<longleftrightarrow>
   (\<forall>p. 0 < p \<and> p < MAX_PROCESSES \<longrightarrow> pstate (process_table s p) \<noteq> PROCESS_STATE_UNUSED)"
  by (auto simp: find_free_slot_def find_None_iff)

text \<open>Only slot \<open>p\<close> of the process table differs, and what the scheduler does not read.\<close>

definition only_slot :: "nat \<Rightarrow> 'a proc_state_scheme \<Rightarrow> 'a proc_state_scheme \<Rightarrow> bool" where
  "only_slot p s t \<longleftrightarrow>
     (\<forall>q. q \<noteq> p \<longrightarrow> process_table t q = process_table s q) \<and>
     ready_queue_head t = ready_queue_head s \<and> ready_queue_tail t = ready_queue_tail s \<and>
     current_process t = current_process s"

lemma only_slot_refl [simp]: "only_slot p s s"
  by (simp add: only_slot_def)

lemma only_slot_steps [simp]:
  "only_slot p s t \<Longrightarrow> only_slot p s (upd_proc p f t)"
  "only_slot p s t \<Longrightarrow> only_slot p s (store32 a v t)"
  "only_slot p s t \<Longrightarrow> only_slot p s (t\<lparr>next_pid := n\<rparr>)"
  by (simp_all add: only_slot_def store32_def)

lemma only_slot_same: "only_slot p s t \<Longrightarrow> same_sched t u \<Longrightarrow> only_slot p s u"
  by (simp add: only_slot_def same_sched_def)

lemma slot_inv:
  assumes inv: "sched_inv s ps" and p: "pstate (process_table s p) = PROCESS_STATE_UNUSED"
    and t: "only_slot p s t" "pstate (process_table t p) \<noteq> PROCESS_STATE_READY"
      "pstate (process_table t p) \<noteq> PROCESS_STATE_RUNNING"
  shows "sched_inv t ps"
proof -
  have t': "\<And>q. q \<noteq> p \<Longrightarrow> process_table t q = process_table s q"
    "ready_queue_head t = ready_queue_head s" "ready_queue_tail t = ready_queue_tail s"
    "current_process t = current_process s" using t(1) by (simp_all add: only_slot_def)
  obtain c where c: "current_process s = Some c" by (rule sched_inv_obtain [OF inv])
  then have c': "current_process t = Some c" using t'(4) by simp
  note i = sched_invD [OF inv c]
  have cp: "c \<noteq> p" and out: "p \<notin> set ps" using i(4) [of p] i(5) p by auto
  have rep: "ready_rep t ps" by (rule ready_rep_cong [OF i(1) t'(2,3)]) (metis t'(1) out)
  show ?thesis
  proof (rule sched_invI [OF c' rep i(2,3)])
    show "pstate (process_table t c) = PROCESS_STATE_RUNNING \<or>
        c = 0 \<and> pstate (process_table t c) = PROCESS_STATE_READY" using i(5) cp t'(1) by simp
  next
    fix q
    show "q \<in> set ps \<Longrightarrow> pstate (process_table t q) = PROCESS_STATE_READY"
      using i(4) [of q] out t'(1) by metis
    show "q < MAX_PROCESSES \<Longrightarrow> q \<noteq> c \<Longrightarrow> pstate (process_table t q) \<noteq> PROCESS_STATE_RUNNING"
      using i(6) [of q] t t'(1) by metis
    show "q \<in> set ps" if "q < MAX_PROCESSES" "q \<noteq> 0" "q \<noteq> c"
      "pstate (process_table t q) = PROCESS_STATE_READY"
      using i(7) [of q] t t'(1) that by metis
  qed
qed

lemma enqueue_inv:
  assumes inv: "sched_inv s ps" and p: "p < MAX_PROCESSES" "pstate (process_table s p) = PROCESS_STATE_UNUSED"
    and t: "only_slot p s t" "pstate (process_table t p) = PROCESS_STATE_READY"
  shows "sched_inv (scheduler_add (Some p) t) (ps @ [p])"
    "same_core t (scheduler_add (Some p) t)" "sched_only t (scheduler_add (Some p) t)"
proof -
  have t': "\<And>q. q \<noteq> p \<Longrightarrow> process_table t q = process_table s q"
    "ready_queue_head t = ready_queue_head s" "ready_queue_tail t = ready_queue_tail s"
    "current_process t = current_process s" using t(1) by (simp_all add: only_slot_def)
  let ?u = "scheduler_add (Some p) t"
  obtain c where c: "current_process s = Some c" by (rule sched_inv_obtain [OF inv])
  note i = sched_invD [OF inv c]
  have cp: "c \<noteq> p" and out: "p \<notin> set ps" using i(4) [of p] i(5) p by auto
  have "ready_rep t ps" by (rule ready_rep_cong [OF i(1) t'(2,3)]) (metis t'(1) out)
  note add = scheduler_add_spec [OF this out p(1)]
  show "same_core t ?u" "sched_only t ?u" by (rule add)+
  have st: "pstate (process_table ?u q) =
      (if q = p then PROCESS_STATE_READY else pstate (process_table s q))" for q
    using add(2) core_fields(1) [of "process_table ?u q" "process_table t q"] t(2) t'(1) [of q]
    by (auto simp: same_core_def)
  have c': "current_process ?u = Some c" using sched_only_fields(1) [OF add(3)] c t'(4) by simp
  show "sched_inv ?u (ps @ [p])"
  proof (rule sched_invI [OF c' add(1) i(2)])
    show "c \<notin> set (ps @ [p])" using i(3) cp by simp
    show "pstate (process_table ?u c) = PROCESS_STATE_RUNNING \<or>
        c = 0 \<and> pstate (process_table ?u c) = PROCESS_STATE_READY" using i(5) cp by (simp add: st)
  next
    fix q
    show "q \<in> set (ps @ [p]) \<Longrightarrow> pstate (process_table ?u q) = PROCESS_STATE_READY"
      using i(4) [of q] by (auto simp: st)
    show "q < MAX_PROCESSES \<Longrightarrow> q \<noteq> c \<Longrightarrow> pstate (process_table ?u q) \<noteq> PROCESS_STATE_RUNNING"
      using i(6) [of q] by (simp add: st)
    show "q \<in> set (ps @ [p])" if "q < MAX_PROCESSES" "q \<noteq> 0" "q \<noteq> c"
      "pstate (process_table ?u q) = PROCESS_STATE_READY"
      using i(7) [of q] that by (auto simp: st split: if_splits)
  qed
qed

lemma store32_simps [simp]:
  "process_table (store32 a v s) = process_table s" "ready_queue_head (store32 a v s) = ready_queue_head s"
  "ready_queue_tail (store32 a v s) = ready_queue_tail s"
  "current_process (store32 a v s) = current_process s" "cpu (store32 a v s) = cpu s"
  "hword (store32 a v s) = (hword s)(a := v)" "ticks (store32 a v s) = ticks s"
  "next_pid (store32 a v s) = next_pid s"
  by (simp_all add: store32_def)

lemma sched_only_core:
  assumes "sched_only s t" "same_core s t"
  shows "hword t = hword s" "pid (process_table t p) = pid (process_table s p)"
    "page_directory (process_table t p) = page_directory (process_table s p)"
    "kernel_stack (process_table t p) = kernel_stack (process_table s p)"
    "p_esp (process_table t p) = p_esp (process_table s p)"
proof -
  have c: "core (process_table t p) = core (process_table s p)" using assms(2) by (simp add: same_core_def)
  show "hword t = hword s" by (rule sched_only_fields [OF assms(1)])
  show "pid (process_table t p) = pid (process_table s p)"
    "page_directory (process_table t p) = page_directory (process_table s p)"
    "kernel_stack (process_table t p) = kernel_stack (process_table s p)"
    "p_esp (process_table t p) = p_esp (process_table s p)" using core_fields [OF c] by simp_all
qed

text \<open>
  The frame that a new process starts from: \<open>context_switch\<close> pops four zero registers and
  returns into \<open>process_wrapper\<close>, whose return address is 0 and whose argument is \<open>entry\<close>.
\<close>

definition start_frame :: "u32 \<Rightarrow> u32 \<Rightarrow> u32 \<Rightarrow> (u32 \<Rightarrow> u32) \<Rightarrow> bool" where
  "start_frame wrapper entry e m \<longleftrightarrow>
     m e = 0 \<and> m (e + 4) = 0 \<and> m (e + 8) = 0 \<and> m (e + 12) = 0 \<and>
     m (e + 16) = wrapper \<and> m (e + 20) = 0 \<and> m (e + 24) = entry"

text \<open>What a successful \<open>process_create\<close> leaves behind.\<close>

definition created :: "u32 \<Rightarrow> u32 \<Rightarrow> nat \<Rightarrow> 'a proc_state_scheme \<Rightarrow> 'a proc_state_scheme \<Rightarrow> bool" where
  "created wrapper entry p s s' \<longleftrightarrow>
     pid (process_table s' p) = next_pid s \<and> page_directory (process_table s' p) \<noteq> 0 \<and>
     p_esp (process_table s' p) = kernel_stack (process_table s' p) - 28 \<and>
     start_frame wrapper entry (p_esp (process_table s' p)) (hword s') \<and>
     (\<forall>q. q \<noteq> p \<longrightarrow> core (process_table s' q) = core (process_table s q))"

lemma init_stack_fields:
  "only_slot p s t \<Longrightarrow> only_slot p s (init_process_stack w name entry p m t)"
  "pstate (process_table (init_process_stack w name entry p m t) p) = PROCESS_STATE_READY"
  "pid (process_table (init_process_stack w name entry p m t) p) = pid (process_table t p)"
  "page_directory (process_table (init_process_stack w name entry p m t) p) = page_directory (process_table t p)"
  "kernel_stack (process_table (init_process_stack w name entry p m t) p) = m + KERNEL_STACK_SIZE"
  "p_esp (process_table (init_process_stack w name entry p m t) p) = m + KERNEL_STACK_SIZE - 28"
  by (simp_all add: init_process_stack_def Let_def)

lemma init_stack_frame:
  "start_frame w entry (m + KERNEL_STACK_SIZE - 28) (hword (init_process_stack w name entry p m t))"
  by (simp add: init_process_stack_def Let_def start_frame_def)

lemma create_cases:
  assumes slot: "find_free_slot s = Some p" and res: "process_create w name entry s = Some (r, s')"
  obtains (fail) "r = None" "only_slot p s s'" "pstate (process_table s' p) = PROCESS_STATE_UNUSED"
  | (ok) m t where "r = Some p" "only_slot p s t" "pid (process_table t p) = next_pid s"
      "page_directory (process_table t p) \<noteq> 0"
      "s' = scheduler_add (Some p) (init_process_stack w name entry p m t)"
proof -
  obtain pd s2 where cl: "paging_clone_pd (claim_slot p s) = (pd, s2)" by fastforce
  have "only_slot p s (claim_slot p s)" by (simp add: claim_slot_def Let_def)
  then have o2: "only_slot p s s2" by (rule only_slot_same [OF _ memory_same_sched(3) [OF cl]])
  have p2: "pid (process_table s2 p) = next_pid s"
    using memory_same_sched(3) [OF cl] by (simp add: same_sched_def claim_slot_def Let_def)
  define s3 where "s3 = upd_proc p (\<lambda>x. x\<lparr>page_directory := pd\<rparr>) s2"
  have o3: "only_slot p s s3" using o2 by (simp add: s3_def)
  show thesis
  proof (cases "pd = 0")
    case True
    then show thesis
      using res slot cl only_slot_same [OF o3 memory_same_sched(2)]
      by (intro fail) (auto simp: process_create_def Let_def s3_def)
  next
    case False
    then obtain m s4 where k: "kmalloc KERNEL_STACK_SIZE s3 = Some (m, s4)"
      and s': "(r, s') = (if m = 0 then (None, upd_proc p (\<lambda>x. x\<lparr>pstate := PROCESS_STATE_UNUSED\<rparr>)
            (upd_proc p (\<lambda>x. x\<lparr>kernel_stack := m\<rparr>) s4))
         else (Some p, scheduler_add (Some p) (init_process_stack w name entry p m
            (upd_proc p (\<lambda>x. x\<lparr>kernel_stack := m\<rparr>) s4))))"
      using res slot cl by (auto simp: process_create_def Let_def s3_def bind_eq_Some_conv split: if_splits)
    have o4: "only_slot p s s4" by (rule only_slot_same [OF o3 memory_same_sched(1) [OF k]])
    have f4: "pid (process_table s4 p) = next_pid s" "page_directory (process_table s4 p) = pd"
      using memory_same_sched(1) [OF k] p2 by (simp_all add: same_sched_def s3_def)
    show thesis
    proof (cases "m = 0")
      case True
      then show thesis using s' o4 by (intro fail) simp_all
    next
      case m: False
      show thesis
        by (rule ok [of "upd_proc p (\<lambda>x. x\<lparr>kernel_stack := m\<rparr>) s4" m])
          (use s' o4 m False f4 in simp_all)
    qed
  qed
qed

lemma create_spec:
  assumes inv: "sched_inv s ps" and res: "process_create w name entry s = Some (r, s')"
  shows "case r of None \<Rightarrow> sched_inv s' ps \<and> (\<forall>q. pstate (process_table s' q) = pstate (process_table s q))
    | Some p \<Rightarrow> find_free_slot s = Some p \<and> sched_inv s' (ps @ [p]) \<and> created w entry p s s'"
proof (cases "find_free_slot s")
  case None
  then show ?thesis using res inv by (simp add: process_create_def)
next
  case (Some p)
  note slot = find_free_slot_Some [OF Some]
  from Some res show ?thesis
  proof (cases rule: create_cases)
    case fail
    have "sched_inv s' ps" by (rule slot_inv [OF inv slot(3) fail(2)]) (simp_all add: fail)
    moreover have "pstate (process_table s' q) = pstate (process_table s q)" for q
      using fail(2,3) slot(3) by (cases "q = p") (simp_all add: only_slot_def)
    ultimately show ?thesis using fail(1) by simp
  next
    case (ok m t)
    let ?t = "init_process_stack w name entry p m t"
    note e = enqueue_inv [OF inv slot(2,3) init_stack_fields(1) [OF ok(2)] init_stack_fields(2)]
    note f = sched_only_core [OF e(3,2)]
    have "created w entry p s s'"
      using ok init_stack_fields(1) [OF ok(2), of w name entry m] e(2)
        init_stack_frame [of w entry m name p t]
      by (auto simp: created_def f init_stack_fields(3-) same_core_def only_slot_def)
    then show ?thesis using ok(1,5) e(1) Some by simp
  qed
qed

subsection \<open>Interleavings\<close>

text \<open>
  A step of the system is one call of a process operation by the current process, or one timer
  interrupt. A call that never returns (a search loop of the heap that does not end) is no step.
\<close>

inductive sched_step :: "u32 \<Rightarrow> 'a proc_state_scheme \<Rightarrow> 'a proc_state_scheme \<Rightarrow> bool"
  for wrapper :: u32 where
  yield: "sched_step wrapper s (process_yield s)"
| sleep: "sched_step wrapper s (process_sleep ms s)"
| exit: "sched_step wrapper s (process_exit code s)"
| create: "process_create wrapper name entry s = Some (r, s') \<Longrightarrow> sched_step wrapper s s'"
| tick: "sched_step wrapper s (timer_callback s)"

inductive_cases sched_stepE: "sched_step wrapper s s'"

lemma sched_inv_ready_list: "sched_inv s ps \<Longrightarrow> ready_list s = ps"
  by (auto simp: sched_inv_def intro: ready_rep_list)

lemma timer_sched_simps [simp]:
  "sched_inv (s\<lparr>ticks := k\<rparr>) ps = sched_inv s ps"
  "sched_inv (s\<lparr>slice_remaining := k\<rparr>) ps = sched_inv s ps"
  by (simp_all add: sched_inv_def ready_rep_def)

text \<open>The timer interrupt either counts, or counts and yields.\<close>

lemma timer_callback_cases:
  obtains (count) k where "timer_callback s = s\<lparr>ticks := ticks s + 1, slice_remaining := k\<rparr>"
  | (preempt) k where "timer_callback s = process_yield (s\<lparr>ticks := ticks s + 1, slice_remaining := k\<rparr>)"
proof -
  define k where "k = (if \<not> preemption_enabled s then slice_remaining s
    else if slice_remaining s \<le> 1 then time_slice s else slice_remaining s - 1)"
  let ?t = "s\<lparr>ticks := ticks s + 1, slice_remaining := k\<rparr>"
  have "timer_callback s = ?t \<or> timer_callback s = process_yield ?t"
  proof (cases "preemption_enabled s")
    case False
    then show ?thesis by (simp add: timer_callback_def k_def)
  next
    case True
    consider "slice_remaining s = 0" | "slice_remaining s = 1" | "slice_remaining s > 1"
      by (auto simp: word_less_nat_alt word_eq_iff_unat_u32) linarith
    then show ?thesis
      using True
      by cases (auto simp: timer_callback_def k_def Let_def process_get_current_def word_gt_0
          split: option.splits)
  qed
  with count preempt show thesis by blast
qed

lemma step_inv:
  assumes "sched_step w s s'" "sched_inv s ps"
  shows "\<exists>qs. sched_inv s' qs"
proof -
  obtain c where c: "current_process s = Some c" by (rule sched_inv_obtain [OF assms(2)])
  from assms(1) show ?thesis
  proof cases
    case yield
    then show ?thesis using yield_spec(1) [OF assms(2) c] by blast
  next
    case (sleep ms)
    then show ?thesis using sleep_spec(3) [OF assms(2) c] by blast
  next
    case (exit code)
    then show ?thesis using exit_spec(1) [OF assms(2) c] c assms(2) by (auto simp: process_exit_def)
  next
    case (create name entry r)
    then show ?thesis using create_spec [OF assms(2) create] by (cases r) auto
  next
    case tick
    show ?thesis
    proof (cases s rule: timer_callback_cases)
      case (count k)
      then show ?thesis using assms(2) tick by auto
    next
      case (preempt k)
      let ?t = "s\<lparr>ticks := ticks s + 1, slice_remaining := k\<rparr>"
      have "sched_inv ?t ps" "current_process ?t = Some c" using assms(2) c by simp_all
      from yield_spec(1) [OF this] show ?thesis using preempt tick by auto
    qed
  qed
qed

lemma clear_slots:
  "fold clear_slot [0..<n] s =
     s\<lparr>process_table := (\<lambda>i. if i < n
        then (process_table s i)\<lparr>pstate := PROCESS_STATE_UNUSED, pid := 0\<rparr> else process_table s i)\<rparr>"
  by (induction n) (auto simp: clear_slot_def upd_proc_def fun_eq_iff)

lemma boot_inv:
  assumes "process_init idle s = Some s'"
  shows "sched_inv (scheduler_init s') []" "pid (process_table s' 0) = 0"
    "current_process s' = Some 0"
    "\<And>p. 0 < p \<Longrightarrow> p < MAX_PROCESSES \<Longrightarrow> pstate (process_table s' p) = PROCESS_STATE_UNUSED"
proof -
  define t where "t = upd_proc 0 (\<lambda>x. x\<lparr>pid := 0, pstate := PROCESS_STATE_READY\<rparr>)
    (fold clear_slot [0..<MAX_PROCESSES] s)"
  obtain m u where k: "kmalloc KERNEL_STACK_SIZE t = Some (m, u)"
    and s': "current_process s' = Some 0"
      "pid (process_table s' 0) = pid (process_table u 0)"
      "p_next (process_table s' 0) = None"
      "\<And>p. pstate (process_table s' p) = pstate (process_table u p)"
    using assms by (auto simp: process_init_def Let_def t_def bind_eq_Some_conv)
  have tb: "process_table u = process_table t" using memory_same_sched(1) [OF k] by (simp add: same_sched_def)
  show "current_process s' = Some 0" by (rule s')
  show "pid (process_table s' 0) = 0" by (simp add: s' tb t_def)
  show un: "pstate (process_table s' p) = PROCESS_STATE_UNUSED" if "0 < p" "p < MAX_PROCESSES" for p
    using that by (simp add: s'(4) tb t_def clear_slots)
  have "pstate (process_table s' 0) = PROCESS_STATE_READY" by (simp add: s'(4) tb t_def)
  then show "sched_inv (scheduler_init s') []"
    using s'(1) un
    by (intro sched_invI [of _ 0]) (auto simp: scheduler_init_def ready_rep_def c_consts)
qed

lemma reachable_inv:
  assumes "(sched_step w)\<^sup>*\<^sup>* s s'" "sched_inv s ps"
  shows "\<exists>qs. sched_inv s' qs"
  using assms by (induction rule: rtranclp_induct) (auto dest: step_inv)

subsection \<open>Round robin\<close>

text \<open>What no scheduling operation changes.\<close>

definition sched_frame :: "'a proc_state_scheme \<Rightarrow> 'a proc_state_scheme \<Rightarrow> bool" where
  "sched_frame s t \<longleftrightarrow>
     ticks t = ticks s \<and> next_pid t = next_pid s \<and>
     preemption_enabled t = preemption_enabled s \<and> time_slice t = time_slice s \<and>
     slice_remaining t = slice_remaining s \<and>
     (\<forall>p. sleep_until (process_table t p) = sleep_until (process_table s p) \<and>
          pid (process_table t p) = pid (process_table s p) \<and>
          page_directory (process_table t p) = page_directory (process_table s p) \<and>
          kernel_stack (process_table t p) = kernel_stack (process_table s p))"

lemma sched_frame_refl [simp]: "sched_frame s s"
  by (simp add: sched_frame_def)

lemma sched_frame_trans: "sched_frame s t \<Longrightarrow> sched_frame t u \<Longrightarrow> sched_frame s u"
  by (simp add: sched_frame_def)

lemma scheduler_add_frame: "sched_frame s (scheduler_add (Some p) s)"
  by (auto simp: sched_frame_def scheduler_add_def Let_def upd_proc_def split: option.splits)

lemma upd_pstate_frame: "sched_frame s (upd_proc p (\<lambda>x. x\<lparr>pstate := st\<rparr>) s)"
  by (simp add: sched_frame_def upd_proc_def)

lemma wake_frame: "sched_frame s (wake_sleeping_processes s)"
proof -
  have one: "sched_frame t (wake_one k i t)" for k i and t :: "'a proc_state_scheme"
    using sched_frame_trans [OF upd_pstate_frame scheduler_add_frame] by (auto simp: wake_one_def)
  have "sched_frame t (fold (wake_one k) xs t)" for k xs and t :: "'a proc_state_scheme"
    by (induction xs arbitrary: t) (auto intro: sched_frame_trans one)
  then show ?thesis by (simp add: wake_sleeping_processes_def)
qed

lemma next_process_frame: "sched_frame s (snd (next_process s))"
  by (auto simp: sched_frame_def next_process_def Let_def upd_proc_def split: option.splits)

lemma switch_frames:
  "sched_frame s (context_switch p e s)" "sched_frame s (paging_switch d s)"
  "sched_frame s (s\<lparr>current_process := c\<rparr>)"
  by (simp_all add: sched_frame_def context_switch_def Let_def store32_def upd_proc_def paging_switch_def)

lemma schedule_frame: "sched_frame s (schedule s)"
proof (cases "current_process s")
  case (Some cur)
  obtain n t where nx: "next_process (wake_sleeping_processes s) = (n, t)" by fastforce
  have t: "sched_frame s t"
    using sched_frame_trans [OF wake_frame next_process_frame, of s] nx by simp
  define u where "u = upd_proc n (\<lambda>x. x\<lparr>pstate := PROCESS_STATE_RUNNING\<rparr>) (t\<lparr>current_process := Some n\<rparr>)"
  define v where "v = (if page_directory (process_table u cur) \<noteq> page_directory (process_table u n)
    then paging_switch (page_directory (process_table u n)) u else u)"
  have "sched_frame t u" unfolding u_def by (rule sched_frame_trans [OF switch_frames(3) upd_pstate_frame])
  moreover have "sched_frame u v" using switch_frames(2) [of u] by (simp add: v_def)
  ultimately have "sched_frame t v" by (rule sched_frame_trans)
  moreover have "schedule s = (if n = cur then upd_proc cur (\<lambda>x. x\<lparr>pstate := PROCESS_STATE_RUNNING\<rparr>) t
      else context_switch cur (p_esp (process_table v n)) v)"
    using Some nx by (simp add: schedule_def Let_def u_def v_def)
  ultimately have "sched_frame t (schedule s)"
    using upd_pstate_frame switch_frames(1) by (metis sched_frame_trans)
  with t show ?thesis by (rule sched_frame_trans)
qed (simp add: schedule_def)

lemma yield_frame: "sched_frame s (process_yield s)"
  unfolding process_yield_def
  by (rule sched_frame_trans [OF _ schedule_frame])
    (auto split: option.splits intro: sched_frame_trans [OF upd_pstate_frame scheduler_add_frame])

lemma yield_wakes_all:
  assumes inv: "sched_inv s ps" and cur: "current_process s = Some c"
  shows "woken (process_yield s) = []"
proof -
  have "\<not> (pstate (process_table (process_yield s) p) = PROCESS_STATE_SLEEPING \<and>
           ticks s \<ge> sleep_until (process_table s p))" if "p < MAX_PROCESSES" for p
    using that yield_spec(3) [OF inv cur, of p] by (auto simp: yield_queue_def woken_def split: if_splits)
  then show ?thesis
    using yield_frame [of s] unfolding woken_def filter_empty_conv by (simp add: sched_frame_def)
qed

lemma rotation:
  fixes s :: "'a proc_state_scheme" and ps :: "nat list" and c :: nat
  assumes inv: "sched_inv s ps" and cur: "current_process s = Some c"
    and run: "pstate (process_table s c) = PROCESS_STATE_RUNNING"
  defines "q \<equiv> ps @ c # woken s"
  defines "t k \<equiv> (process_yield ^^ Suc k) s"
  shows "sched_inv (t k) (tl (rotate k q)) \<and> current_process (t k) = Some (hd (rotate k q)) \<and>
    woken (t k) = [] \<and> pstate (process_table (t k) (hd (rotate k q))) = PROCESS_STATE_RUNNING"
proof (induction k)
  case 0
  have "yield_queue s ps c = q" using run by (simp add: yield_queue_def q_def)
  moreover have "chosen q = hd q" by (simp add: chosen_def q_def split: list.splits)
  ultimately show ?case
    using yield_spec [OF inv cur] yield_wakes_all [OF inv cur] by (simp add: t_def)
next
  case (Suc k)
  define r where "r = rotate k q"
  have ne: "r \<noteq> []" by (simp add: r_def q_def)
  have i: "sched_inv (t k) (tl r)" "current_process (t k) = Some (hd r)" "woken (t k) = []"
    "pstate (process_table (t k) (hd r)) = PROCESS_STATE_RUNNING"
    using Suc unfolding r_def by blast+
  have r': "rotate (Suc k) q = tl r @ [hd r]" using ne by (simp add: r_def rotate1_hd_tl)
  have "yield_queue (t k) (tl r) (hd r) = tl r @ [hd r]" using i(3,4) by (simp add: yield_queue_def)
  moreover have "chosen (tl r @ [hd r]) = hd (tl r @ [hd r])" by (simp add: chosen_def split: list.splits)
  moreover have "t (Suc k) = process_yield (t k)" by (simp add: t_def)
  ultimately show ?case
    using yield_spec [OF i(1,2)] yield_wakes_all [OF i(1,2)] by (simp only: r') simp
qed

subsection \<open>Saved contexts\<close>

text \<open>
  The words of the stack that a suspended process resumes from: \<open>saved c r e m\<close> says that memory
  \<open>m\<close> holds at \<open>e\<close> the callee-saved registers \<open>c\<close> with the return address \<open>r\<close> above them.
\<close>

definition saved :: "cpu_regs \<Rightarrow> u32 \<Rightarrow> u32 \<Rightarrow> (u32 \<Rightarrow> u32) \<Rightarrow> bool" where
  "saved c r e m \<longleftrightarrow>
     m e = c_ebp c \<and> m (e + 4) = c_edi c \<and> m (e + 8) = c_esi c \<and> m (e + 12) = c_ebx c \<and> m (e + 16) = r"

definition frame_words :: "u32 \<Rightarrow> u32 set" where
  "frame_words e = {e, e + 4, e + 8, e + 12, e + 16}"

definition saves :: "u32 \<Rightarrow> u32 set" where
  "saves e = {e - 4, e - 8, e - 12, e - 16}"

lemma context_switch_saves:
  "saved (cpu s) (hword s (c_esp (cpu s))) (c_esp (cpu s) - 16) (hword (context_switch p e s))"
  "p_esp (process_table (context_switch p e s) p) = c_esp (cpu s) - 16"
  "a \<notin> saves (c_esp (cpu s)) \<Longrightarrow> hword (context_switch p e s) a = hword s a"
  "p_esp (process_table (context_switch p e s) q) = (if q = p then c_esp (cpu s) - 16 else p_esp (process_table s q))"
  by (auto simp: context_switch_def Let_def saved_def saves_def)

lemma context_switch_restores:
  assumes "saved c r e (hword s)" "saves (c_esp (cpu s)) \<inter> frame_words e = {}"
  shows "cpu (context_switch p e s) =
    \<lparr>c_ebx = c_ebx c, c_esi = c_esi c, c_edi = c_edi c, c_ebp = c_ebp c, c_esp = e + 20, c_eip = r\<rparr>"
proof -
  have "hword (context_switch p e s) a = hword s a" if "a \<in> frame_words e" for a
    using assms(2) that by (intro context_switch_saves(3)) auto
  moreover have "cpu (context_switch p e s) = (let m = hword (context_switch p e s)
    in \<lparr>c_ebx = m (e + 12), c_esi = m (e + 8), c_edi = m (e + 4), c_ebp = m e, c_esp = e + 20, c_eip = m (e + 16)\<rparr>)"
    by (simp add: context_switch_def Let_def)
  ultimately show ?thesis using assms(1) by (simp add: saved_def frame_words_def)
qed

text \<open>The words a new process starts from, and the processor state at its first instruction.\<close>

definition start_words :: "u32 \<Rightarrow> u32 set" where
  "start_words e = frame_words e \<union> {e + 20, e + 24}"

definition enters :: "u32 \<Rightarrow> u32 \<Rightarrow> 'a proc_state_scheme \<Rightarrow> bool" where
  "enters f arg u \<longleftrightarrow>
     c_eip (cpu u) = f \<and> c_ebp (cpu u) = 0 \<and> c_ebx (cpu u) = 0 \<and> c_esi (cpu u) = 0 \<and>
     c_edi (cpu u) = 0 \<and> hword u (c_esp (cpu u)) = 0 \<and> hword u (c_esp (cpu u) + 4) = arg"

lemma start_frame_enters:
  assumes f: "start_frame w entry e m" and same: "\<forall>a \<in> start_words e. hword t a = m a"
    and dis: "saves (c_esp (cpu t)) \<inter> start_words e = {}"
  shows "enters w entry (context_switch q e t)"
proof -
  define u where "u = context_switch q e t"
  have w: "hword u a = m a" if "a \<in> start_words e" for a
  proof -
    have "a \<notin> saves (c_esp (cpu t))" using that dis by blast
    then show ?thesis using context_switch_saves(3) [of a t q e] bspec [OF same that] u_def by simp
  qed
  have "saved \<lparr>c_ebx = 0, c_esi = 0, c_edi = 0, c_ebp = 0, c_esp = 0, c_eip = 0\<rparr> w e (hword t)"
    using f same by (simp add: saved_def start_frame_def start_words_def frame_words_def)
  moreover have "saves (c_esp (cpu t)) \<inter> frame_words e = {}" using dis by (auto simp: start_words_def)
  ultimately have c: "cpu u = \<lparr>c_ebx = 0, c_esi = 0, c_edi = 0, c_ebp = 0, c_esp = e + 20, c_eip = w\<rparr>"
    using context_switch_restores [of _ w e t q] u_def by fastforce
  have "hword u (e + 20) = 0" "hword u (e + 24) = entry"
    using w [of "e + 20"] w [of "e + 24"] f by (simp_all add: start_words_def start_frame_def)
  moreover have "e + 20 + 4 = e + 24" by simp
  ultimately show ?thesis
    unfolding u_def [symmetric] enters_def c cpu_regs.simps by (simp only: simp_thms)
qed

subsection \<open>Sleeping\<close>

lemma sleep_ticks_value:
  assumes "unat ms * 100 < 2 ^ 32"
  shows "unat (sleep_ticks ms) = max 1 (unat ms div 10)"
proof -
  have "unat (ms * 100) = unat ms * 100" using assms by (simp add: no_wrap)
  then have "unat ((ms * 100) div 1000) = unat ms * 100 div 1000" by (simp add: unat_div_u32)
  also have "\<dots> = unat ms div 10" using div_mult_mult1 [of 100 "unat ms" 10] by (simp add: mult.commute)
  finally show ?thesis by (auto simp: sleep_ticks_def Let_def word_eq_iff_unat_u32 max_def)
qed

lemma chosen_neq: "p \<noteq> 0 \<Longrightarrow> p \<notin> set q \<Longrightarrow> p \<noteq> chosen q"
  by (cases q) (auto simp: chosen_def)

text \<open>
  A terminated process, or a sleeping one that is not due and not the idle process, is left alone
  by every step.
\<close>

definition parked :: "nat \<Rightarrow> process_state_t \<Rightarrow> u32 \<Rightarrow> 'a proc_state_scheme \<Rightarrow> bool" where
  "parked p st u s \<longleftrightarrow>
     0 < p \<and> p < MAX_PROCESSES \<and> st \<in> {PROCESS_STATE_SLEEPING, PROCESS_STATE_TERMINATED} \<and>
     pstate (process_table s p) = st \<and>
     (st = PROCESS_STATE_SLEEPING \<longrightarrow> sleep_until (process_table s p) = u)"

abbreviation before :: "process_state_t \<Rightarrow> u32 \<Rightarrow> 'a proc_state_scheme \<Rightarrow> bool" where
  "before st u s \<equiv> (st = PROCESS_STATE_SLEEPING \<longrightarrow> ticks s < u)"

lemma not_due: "parked p st u s \<Longrightarrow> before st u s \<Longrightarrow> p \<notin> set (woken s)"
  by (auto simp: woken_def parked_def)

lemma parked_other:
  assumes "sched_inv s ps" "current_process s = Some c" "parked p st u s"
  shows "p \<noteq> c" "p \<notin> set ps"
  using sched_invD(4) [OF assms(1,2), of p] sched_invD(5) [OF assms(1,2)] assms(3)
  by (auto simp: parked_def)

lemma schedule_keeps_parked:
  assumes pre: "sched_pre s ps c" and sl: "parked p st u s" and due: "before st u s"
  shows "parked p st u (schedule s)"
proof -
  have p: "p \<notin> set ps" "p \<notin> set (woken s)" "p \<noteq> 0"
    using pre sl due not_due [OF sl due] by (auto simp: sched_pre_def parked_def)
  then show ?thesis
    using sl schedule_spec(3) [OF pre, of p] chosen_neq [of p "ps @ woken s"] schedule_frame [of s]
    by (simp add: parked_def sched_frame_def)
qed

lemma yield_keeps_parked:
  assumes inv: "sched_inv s ps" and sl: "parked p st u s" and due: "before st u s"
  shows "parked p st u (process_yield s)"
proof -
  obtain c where c: "current_process s = Some c" by (rule sched_inv_obtain [OF inv])
  have p: "p \<notin> set (yield_queue s ps c)" "p \<noteq> 0"
    using parked_other [OF inv c sl] sl due not_due [OF sl due] by (auto simp: yield_queue_def parked_def)
  then show ?thesis
    using sl yield_spec(3) [OF inv c, of p] chosen_neq [of p "yield_queue s ps c"] yield_frame [of s]
    by (simp add: parked_def sched_frame_def)
qed

lemma exit_keeps_parked:
  assumes inv: "sched_inv s ps" and sl: "parked p st u s" and due: "before st u s"
  shows "parked p st u (process_exit code s)"
proof -
  obtain c where c: "current_process s = Some c" by (rule sched_inv_obtain [OF inv])
  show ?thesis
  proof (cases "pid (process_table s c) = 0")
    case True
    then show ?thesis using c sl by (simp add: process_exit_def)
  next
    case False
    define t where "t = upd_proc c (\<lambda>x. x\<lparr>exit_code := code, pstate := PROCESS_STATE_TERMINATED\<rparr>) s"
    define k where "k = kfree (kernel_stack (process_table t c) - KERNEL_STACK_SIZE) t"
    have y: "process_exit code s = schedule k"
      using c False by (simp add: process_exit_def Let_def t_def k_def)
    have same: "same_sched t k" unfolding k_def by (rule memory_same_sched(2))
    have "sched_pre t ps c" unfolding t_def by (rule retire_pre [OF inv c]) simp_all
    then have "sched_pre k ps c" using same by simp
    moreover have "parked p st u k" "before st u k"
      using same sl due parked_other(1) [OF inv c sl] by (simp_all add: same_sched_def parked_def t_def)
    ultimately show ?thesis unfolding y by (rule schedule_keeps_parked)
  qed
qed

lemma create_keeps_parked:
  assumes inv: "sched_inv s ps" and res: "process_create w name entry s = Some (r, s')" and sl: "parked p st u s"
  shows "parked p st u s'"
proof (cases "find_free_slot s")
  case None
  then show ?thesis using res sl by (simp add: process_create_def)
next
  case (Some q)
  have "p \<noteq> q" using find_free_slot_Some(3) [OF Some] sl by (auto simp: parked_def)
  from Some res show ?thesis
  proof (cases rule: create_cases)
    case fail
    then show ?thesis using sl \<open>p \<noteq> q\<close> by (simp add: parked_def only_slot_def)
  next
    case (ok m t)
    then have "created w entry q s s'" using create_spec [OF inv res] by simp
    then have "core (process_table s' p) = core (process_table s p)" using \<open>p \<noteq> q\<close> by (simp add: created_def)
    then show ?thesis using sl core_fields(1,2) [of "process_table s' p" "process_table s p"]
      by (simp add: parked_def)
  qed
qed

lemma step_keeps_parked:
  assumes step: "sched_step w s s'" and inv: "sched_inv s ps" and sl: "parked p st u s"
    and due: "before st u s" "before st u s'"
  shows "parked p st u s'"
proof -
  obtain c where c: "current_process s = Some c" by (rule sched_inv_obtain [OF inv])
  from step show ?thesis
  proof cases
    case yield
    then show ?thesis using yield_keeps_parked [OF inv sl due(1)] by simp
  next
    case (sleep ms)
    let ?t = "upd_proc c (\<lambda>x. x\<lparr>sleep_until := ticks s + sleep_ticks ms, pstate := PROCESS_STATE_SLEEPING\<rparr>) s"
    have "parked p st u ?t" using sl parked_other(1) [OF inv c sl] by (simp add: parked_def)
    from schedule_keeps_parked [OF sleep_spec(2) [OF inv c] this] show ?thesis
      using sleep sleep_spec(1) [OF inv c] due(1) by simp
  next
    case (exit code)
    then show ?thesis using exit_keeps_parked [OF inv sl due(1)] by simp
  next
    case (create name entry r)
    then show ?thesis using create_keeps_parked [OF inv _ sl] by blast
  next
    case tick
    show ?thesis
    proof (cases s rule: timer_callback_cases)
      case (count k)
      then show ?thesis using sl tick by (simp add: parked_def)
    next
      case (preempt k)
      let ?t = "s\<lparr>ticks := ticks s + 1, slice_remaining := k\<rparr>"
      have "ticks s' = ticks ?t" using yield_frame [of ?t] preempt tick by (simp add: sched_frame_def)
      moreover have "parked p st u ?t" "sched_inv ?t ps" using sl inv by (simp_all add: parked_def)
      ultimately show ?thesis using yield_keeps_parked [of ?t ps p st u] preempt tick due(2) by simp
    qed
  qed
qed

lemma parked_path:
  assumes "(\<lambda>x y. sched_step w x y \<and> before st u y)\<^sup>*\<^sup>* s s'" "sched_inv s ps" "parked p st u s" "before st u s"
  shows "parked p st u s' \<and> before st u s' \<and> (\<exists>qs. sched_inv s' qs)"
  using assms
proof (induction rule: rtranclp_induct)
  case (step y z)
  then obtain qs where y: "parked p st u y" "before st u y" "sched_inv y qs" by auto
  then show ?case using step_keeps_parked [of w y z qs p st u] step_inv [of w y z qs] step.hyps by blast
qed auto

subsection \<open>Properties of the scheduler\<close>

definition demo_process :: process where
  "demo_process = \<lparr>pid = 0, pstate = PROCESS_STATE_UNUSED,
     p_context = \<lparr>x_edi = 0, x_esi = 0, x_ebx = 0, x_ebp = 0, x_eip = 0\<rparr>,
     p_esp = 0, kernel_stack = 0, page_directory = 0, sleep_until = 0, exit_code = 0,
     p_parent = None, p_next = None, p_name = []\<rparr>"

definition demo_proc :: proc_state where
  "demo_proc = keyboard_state.extend demo_keyboard
     \<lparr>process_table = \<lambda>_. demo_process, current_process = None, ready_queue_head = None,
      ready_queue_tail = None, next_pid = 1,
      cpu = \<lparr>c_ebx = 1, c_esi = 2, c_edi = 3, c_ebp = 4, c_esp = 0x9000, c_eip = 5\<rparr>\<rparr>"

text \<open>Process 1 is running, process 2 is queued, process 3 sleeps until tick 5.\<close>

definition demo_sched :: proc_state where
  "demo_sched = demo_proc
     \<lparr>process_table := (\<lambda>_. demo_process)
        (0 := demo_process\<lparr>pstate := PROCESS_STATE_SLEEPING, sleep_until := 9\<rparr>,
         1 := demo_process\<lparr>pid := 1, pstate := PROCESS_STATE_RUNNING\<rparr>,
         2 := demo_process\<lparr>pid := 2, pstate := PROCESS_STATE_READY, p_esp := 0x8000\<rparr>,
         3 := demo_process\<lparr>pid := 3, pstate := PROCESS_STATE_SLEEPING, sleep_until := 5\<rparr>),
      current_process := Some 1, ready_queue_head := Some 2, ready_queue_tail := Some 2,
      time_slice := 2, slice_remaining := 2, preemption_enabled := True\<rparr>"

lemma demo_sched_simps [simp]:
  "current_process demo_sched = Some 1" "ticks demo_sched = 0" "preemption_enabled demo_sched"
  "slice_remaining demo_sched = 2" "time_slice demo_sched = 2"
  "process_table demo_sched 1 = demo_process\<lparr>pid := 1, pstate := PROCESS_STATE_RUNNING\<rparr>"
  "process_table demo_sched (Suc 0) = demo_process\<lparr>pid := 1, pstate := PROCESS_STATE_RUNNING\<rparr>"
  "process_table demo_sched 3 = demo_process\<lparr>pid := 3, pstate := PROCESS_STATE_SLEEPING, sleep_until := 5\<rparr>"
  "cpu demo_sched = \<lparr>c_ebx = 1, c_esi = 2, c_edi = 3, c_ebp = 4, c_esp = 0x9000, c_eip = 5\<rparr>"
  by (simp_all add: demo_sched_def demo_proc_def demo_keyboard_def demo_timer_def
      keyboard_state.extend_def timer_state.extend_def heap_state.extend_def)

lemma demo_sched_inv: "sched_inv demo_sched [2]"
  by (rule sched_invI [of _ 1])
    (auto simp: demo_sched_def demo_process_def ready_rep_def c_consts split: if_splits)

lemma demo_sched_woken: "woken demo_sched = []"
  by (auto simp: woken_def filter_empty_conv)
    (auto simp: demo_sched_def demo_proc_def demo_process_def demo_keyboard_def demo_timer_def
      keyboard_state.extend_def timer_state.extend_def heap_state.extend_def split: if_splits)

lemma demo_heap_fits:
  assumes "heap_inv s [Blk 0xC0000000 0x100000 True]"
  shows "\<exists>s'. kmalloc KERNEL_STACK_SIZE s = Some (0xC0000010, s')"
proof -
  have ex: "List.extract (fits (round8 KERNEL_STACK_SIZE)) [Blk 0xC0000000 0x100000 True] =
      Some ([], Blk 0xC0000000 0x100000 True, [])"
    by (simp add: round8_def extract_Cons_code c_consts)
  have "KERNEL_STACK_SIZE \<noteq> 0" "unat KERNEL_STACK_SIZE + 55 < 2 ^ 32" by (simp_all add: c_consts)
  from kmalloc_fit [OF assms this ex] show ?thesis by (auto simp: c_consts)
qed

lemma demo_proc_init: "\<exists>s'. process_init 0x1234 demo_proc = Some s'"
proof -
  let ?t = "upd_proc 0 (\<lambda>x. x\<lparr>pid := 0, pstate := PROCESS_STATE_READY\<rparr>)
    (fold clear_slot [0..<MAX_PROCESSES] demo_proc)"
  have inv: "heap_inv ?t [Blk 0xC0000000 0x100000 True]"
    using demo_heap_inv
    by (simp add: heap_inv_def clear_slots upd_proc_def demo_proc_def demo_keyboard_def demo_timer_def
        keyboard_state.extend_def timer_state.extend_def heap_state.extend_def)
  from demo_heap_fits [OF inv] obtain s' where "kmalloc KERNEL_STACK_SIZE ?t = Some (0xC0000010, s')" by blast
  then show ?thesis by (simp add: process_init_def Let_def)
qed

lemma demo_free_slot: "find_free_slot demo_sched = Some 4"
proof -
  have "[1..<MAX_PROCESSES] = 1 # 2 # 3 # 4 # [5..<MAX_PROCESSES]"
    by (simp add: c_consts upt_conv_Cons)
  then show ?thesis by (simp add: find_free_slot_def demo_sched_def demo_process_def)
qed

lemma demo_create: "\<exists>s'. process_create w name entry demo_sched = Some (Some 4, s')"
proof -
  let ?s = "claim_slot 4 demo_sched"
  have pm: "pmm_inv {1} ?s" "free_pages ?s \<noteq> {}"
    using demo_paging_simps
    by (simp_all add: claim_slot_def Let_def upd_proc_def demo_sched_def demo_proc_def demo_keyboard_def
        demo_timer_def keyboard_state.extend_def timer_state.extend_def heap_state.extend_def
        demo_heap_def heap_init_def upd_blk_def paging_state.extend_def pmm_inv_def free_pages_def page_used_def)
  obtain pd s2 where cl: "paging_clone_pd ?s = (pd, s2)" by fastforce
  have pd: "pd \<noteq> 0"
    using pmm_inv_alloc_zero [OF pm(1)] pm(2) cl
    by (auto simp: paging_clone_pd_def Let_def split: prod.splits if_splits)
  have "heap_inv ?s [Blk 0xC0000000 0x100000 True]"
    using demo_heap_inv
    by (simp add: heap_inv_def claim_slot_def Let_def upd_proc_def demo_sched_def demo_proc_def
        demo_keyboard_def demo_timer_def keyboard_state.extend_def timer_state.extend_def
        heap_state.extend_def)
  then have "heap_inv s2 [Blk 0xC0000000 0x100000 True]"
    using heap_inv_tables [OF clone_tables_only [OF cl]] by blast
  then have "heap_inv (upd_proc 4 (\<lambda>x. x\<lparr>page_directory := pd\<rparr>) s2) [Blk 0xC0000000 0x100000 True]"
    by (simp add: heap_inv_def upd_proc_def)
  from demo_heap_fits [OF this] show ?thesis
    using demo_free_slot cl pd by (auto simp: process_create_def Let_def)
qed

text \<open>
  C3: from boot on, whatever sequence of process creations, yields, sleeps, exits and timer
  interrupts happens, the ready queue is a duplicate-free list of ready processes linked from
  head to tail, the current process is not in it, no other process is running, and no ready
  process other than the idle one is missing from it.
\<close>

theorem scheduler_invariant:
  assumes "process_init idle s = Some s0"
    and "(sched_step wrapper)\<^sup>*\<^sup>* (scheduler_init s0) s'"
  shows "sched_inv s' (ready_list s')"
proof -
  obtain qs where "sched_inv s' qs" using reachable_inv [OF assms(2) boot_inv(1) [OF assms(1)]] by blast
  then show ?thesis using sched_inv_ready_list by metis
qed

theorem scheduler_invariant_witness:
  "\<exists>s0. process_init 0x1234 demo_proc = Some s0 \<and>
     sched_inv (timer_callback (process_yield (scheduler_init s0)))
       (ready_list (timer_callback (process_yield (scheduler_init s0))))"
proof -
  obtain s0 where s0: "process_init 0x1234 demo_proc = Some s0" using demo_proc_init by blast
  have "(sched_step 0)\<^sup>*\<^sup>* (scheduler_init s0) (timer_callback (process_yield (scheduler_init s0)))"
    by (meson rtranclp.rtrancl_refl rtranclp.rtrancl_into_rtrancl sched_step.yield sched_step.tick)
  from scheduler_invariant [OF s0 this] s0 show ?thesis by blast
qed

text \<open>
  C4: the scheduler is a round robin: when the running process and those after it keep yielding,
  the processes of the queue run in its order, followed by the process that yielded first and
  the sleepers that were due, and then the same order again; every one of them gets its turn
  within as many switches as there are such processes.
\<close>

theorem round_robin:
  assumes "sched_inv s ps" "current_process s = Some c"
    and "pstate (process_table s c) = PROCESS_STATE_RUNNING"
  defines "q \<equiv> ps @ c # woken s"
  shows "current_process ((process_yield ^^ Suc k) s) = Some (q ! (k mod length q))"
proof -
  have "hd (rotate k q) = q ! (k mod length q)"
    by (rule hd_rotate_conv_nth) (simp add: q_def)
  then show ?thesis using rotation [OF assms(1-3), of k] unfolding q_def by simp
qed

theorem round_robin_witness:
  "current_process (process_yield demo_sched) = Some 2 \<and>
   current_process (process_yield (process_yield demo_sched)) = Some 1"
  using round_robin [OF demo_sched_inv, of 1 0] round_robin [OF demo_sched_inv, of 1 1]
  by (simp add: demo_process_def demo_sched_woken)

text \<open>
  C5: a process that is switched away from resumes exactly where it stopped: as long as the frame
  that \<open>context_switch\<close> saved on its stack is intact, switching back to the stack pointer stored
  in the process table restores its callee-saved registers, returns to the address that its call
  of \<open>context_switch\<close> left on the stack, and pops that address.
\<close>

theorem context_switch_resumes:
  defines "resume s \<equiv> \<lparr>c_ebx = c_ebx (cpu s), c_esi = c_esi (cpu s), c_edi = c_edi (cpu s),
      c_ebp = c_ebp (cpu s), c_esp = c_esp (cpu s) + 4, c_eip = hword s (c_esp (cpu s))\<rparr>"
  assumes mem: "\<forall>a \<in> frame_words (c_esp (cpu s) - 16). hword t a = hword (context_switch p e s) a"
    and esp: "p_esp (process_table t p) = p_esp (process_table (context_switch p e s) p)"
    and dis: "saves (c_esp (cpu t)) \<inter> frame_words (c_esp (cpu s) - 16) = {}"
  shows "cpu (context_switch q (p_esp (process_table t p)) t) = resume s"
proof -
  have "saved (cpu s) (hword s (c_esp (cpu s))) (c_esp (cpu s) - 16) (hword t)"
    using context_switch_saves(1) [of s p e] mem by (simp add: saved_def frame_words_def)
  from context_switch_restores [OF this dis, of q] show ?thesis
    using esp context_switch_saves(2) [of p e s] by (simp add: resume_def)
qed

theorem context_switch_resumes_witness:
  "cpu (context_switch 2 (p_esp (process_table (context_switch 1 0x8000 demo_sched) 1))
     (context_switch 1 0x8000 demo_sched)) =
   \<lparr>c_ebx = 1, c_esi = 2, c_edi = 3, c_ebp = 4, c_esp = 0x9004, c_eip = hword demo_sched 0x9000\<rparr>"
proof -
  have "c_esp (cpu (context_switch 1 0x8000 demo_sched)) = 0x8014"
    by (simp add: context_switch_def Let_def)
  then show ?thesis
    using context_switch_resumes [of demo_sched "context_switch 1 0x8000 demo_sched" 1 "0x8000" 2]
    by (simp add: saves_def frame_words_def)
qed

text \<open>
  C6: \<open>process_create\<close> puts the new process, with the next process number, at the end of the
  queue, and builds a stack from which the first switch to it enters \<open>process_wrapper\<close> with
  all callee-saved registers 0, return address 0 and the entry point as its argument. When it
  fails, no process changes its state and the queue is as before.
\<close>

theorem process_create_starts:
  assumes inv: "sched_inv s ps" and res: "process_create wrapper name entry s = Some (r, s')"
  shows "case r of
      None \<Rightarrow> sched_inv s' ps \<and> (\<forall>q. pstate (process_table s' q) = pstate (process_table s q))
    | Some p \<Rightarrow> sched_inv s' (ps @ [p]) \<and> pstate (process_table s p) = PROCESS_STATE_UNUSED \<and>
        pid (process_table s' p) = next_pid s \<and>
        (let e = p_esp (process_table s' p) in \<forall>q t.
           (\<forall>a \<in> start_words e. hword t a = hword s' a) \<and> saves (c_esp (cpu t)) \<inter> start_words e = {} \<longrightarrow>
           enters wrapper entry (context_switch q e t))"
proof (cases r)
  case None
  then show ?thesis using create_spec [OF inv res] by simp
next
  case (Some p)
  have c: "find_free_slot s = Some p" "sched_inv s' (ps @ [p])" "created wrapper entry p s s'"
    using create_spec [OF inv res] Some by simp_all
  then have f: "start_frame wrapper entry (p_esp (process_table s' p)) (hword s')"
    "pid (process_table s' p) = next_pid s" unfolding created_def by blast+
  show ?thesis
    unfolding Some option.case Let_def
    using c(2) f(2) find_free_slot_Some(3) [OF c(1)] start_frame_enters [OF f(1)] by blast
qed

theorem process_create_starts_witness:
  "\<exists>s'. process_create 0x4444 ''init'' 0x5555 demo_sched = Some (Some 4, s') \<and> sched_inv s' [2, 4]"
proof -
  obtain s' where s': "process_create 0x4444 ''init'' 0x5555 demo_sched = Some (Some 4, s')"
    using demo_create by blast
  have "sched_inv s' ([2] @ [4])"
    using process_create_starts [OF demo_sched_inv s'] unfolding option.case by (rule conjunct1)
  with s' show ?thesis by simp
qed

text \<open>
  C24: a process that calls \<open>process_sleep\<close> for fewer than 42949673 milliseconds stays asleep, and
  therefore off the processor, in every interleaving in which the tick counter stays below its
  value at the call plus a tenth of the milliseconds (at least one tick).
\<close>

theorem process_sleep_not_early:
  assumes inv: "sched_inv s ps" and cur: "current_process s = Some c" and c: "0 < c"
    and ms: "unat ms * 100 < 2 ^ 32" and tk: "unat (ticks s) + max 1 (unat ms div 10) < 2 ^ 32"
    and path: "(\<lambda>x y. sched_step w x y \<and> unat (ticks y) < unat (ticks s) + max 1 (unat ms div 10))\<^sup>*\<^sup>*
      (process_sleep ms s) s'"
  shows "pstate (process_table s' c) = PROCESS_STATE_SLEEPING \<and> current_process s' \<noteq> Some c"
proof -
  define u where "u = ticks s + sleep_ticks ms"
  let ?t = "upd_proc c (\<lambda>x. x\<lparr>sleep_until := u, pstate := PROCESS_STATE_SLEEPING\<rparr>) s"
  have u: "unat u = unat (ticks s) + max 1 (unat ms div 10)"
    using sleep_ticks_value [OF ms] tk by (simp add: u_def no_wrap)
  have lt: "ticks x < u \<longleftrightarrow> unat (ticks x) < unat (ticks s) + max 1 (unat ms div 10)"
    for x :: "'a proc_state_scheme" by (simp add: word_less_nat_alt u)
  note sp = sleep_spec [OF inv cur, of ms, folded u_def]
  have now: "ticks s < u" by (simp add: lt)
  have "parked c PROCESS_STATE_SLEEPING u (schedule ?t)"
    by (rule schedule_keeps_parked [OF sp(2)])
      (use c sched_invD(2) [OF inv cur] now in \<open>simp_all add: parked_def\<close>)
  moreover have "ticks (process_sleep ms s) < u"
    using schedule_frame [of ?t] now by (simp add: sp(1) sched_frame_def)
  ultimately have "parked c PROCESS_STATE_SLEEPING u s' \<and> (\<exists>qs. sched_inv s' qs)"
    using parked_path [of w PROCESS_STATE_SLEEPING u "process_sleep ms s" s'] path sp(1,3)
    by (simp add: lt)
  then obtain qs where p: "parked c PROCESS_STATE_SLEEPING u s'" "sched_inv s' qs" by blast
  then show ?thesis using sched_invD(5) [OF p(2), of c] by (auto simp: parked_def)
qed

theorem process_sleep_not_early_witness:
  "pstate (process_table (process_sleep 30 demo_sched) 1) = PROCESS_STATE_SLEEPING \<and>
   current_process (process_sleep 30 demo_sched) \<noteq> Some 1"
  by (rule process_sleep_not_early [OF demo_sched_inv, where ms = 30 and w = 0]) simp_all

text \<open>
  C25: a process that has exited never runs again and its slot is never handed out again: in every
  state reached later the slot is still marked terminated. The process table therefore only ever
  creates 255 processes, whatever exits in between.
\<close>

theorem process_exit_is_final:
  assumes inv: "sched_inv s ps" and cur: "current_process s = Some c"
    and pid: "pid (process_table s c) \<noteq> 0" "0 < c"
    and path: "(sched_step w)\<^sup>*\<^sup>* (process_exit code s) s'"
  shows "pstate (process_table s' c) = PROCESS_STATE_TERMINATED \<and> current_process s' \<noteq> Some c \<and>
    find_free_slot s' \<noteq> Some c"
proof -
  let ?st = PROCESS_STATE_TERMINATED
  note ex = exit_spec [OF inv cur pid(1), of code]
  have "c \<notin> set (ps @ woken s)"
    using sched_invD(3,5) [OF inv cur] woken_props(3) [of c s] by auto
  then have "parked c ?st 0 (process_exit code s)"
    using ex(3) [of c] chosen_neq [of c "ps @ woken s"] pid(2) sched_invD(2) [OF inv cur]
    by (simp add: parked_def)
  then have "parked c ?st 0 s' \<and> (\<exists>qs. sched_inv s' qs)"
    using parked_path [of w ?st 0 "process_exit code s" s'] path ex(1) by simp
  then obtain qs where p: "parked c ?st 0 s'" "sched_inv s' qs" by blast
  then show ?thesis
    using sched_invD(5) [OF p(2), of c] find_free_slot_Some(3) [of s' c] by (auto simp: parked_def)
qed

theorem process_exit_is_final_witness:
  "pstate (process_table (process_exit 7 demo_sched) 1) = PROCESS_STATE_TERMINATED \<and>
   current_process (process_exit 7 demo_sched) \<noteq> Some 1"
  using process_exit_is_final [OF demo_sched_inv, of 1 0 7 "process_exit 7 demo_sched"]
  by (simp add: demo_process_def)

text \<open>A process whose function returns is terminated and leaves the processor; the idle process stays.\<close>

lemma process_wrapper_exits:
  assumes "entry s = Some t" "sched_inv t ps" "current_process t = Some c" "pid (process_table t c) \<noteq> 0" "0 < c"
  shows "\<exists>u. process_wrapper entry s = Some u \<and> sched_inv u (tl (ps @ woken t)) \<and>
    pstate (process_table u c) = PROCESS_STATE_TERMINATED \<and> current_process u \<noteq> Some c"
proof -
  note ex = exit_spec [OF assms(2-4), of 0]
  have "c \<notin> set (ps @ woken t)" using sched_invD(3,5) [OF assms(2,3)] woken_props(3) [of c t] by auto
  then have "c \<noteq> chosen (ps @ woken t)" "c \<notin> set (woken t)" using chosen_neq [of c "ps @ woken t"] assms(5) by auto
  then show ?thesis using assms(1) ex(1,2) ex(3) [of c] by (simp add: process_wrapper_def)
qed

lemma idle_process_never_returns: "idle_process hlt s \<noteq> Some t"
proof
  assume "idle_process hlt s = Some t"
  then show False by (rule idle_process.raw_induct [rotated]) (auto simp: bind_eq_Some_conv)
qed

lemma slice_counts:
  assumes "preemption_enabled s" "unat (slice_remaining s) = Suc n" "k \<le> n"
  shows "(timer_callback ^^ k) s =
    s\<lparr>ticks := ticks s + of_nat k, slice_remaining := slice_remaining s - of_nat k\<rparr>"
  using assms(3)
proof (induction k)
  case (Suc k)
  let ?r = "slice_remaining s - of_nat k"
  have k: "unat (of_nat k :: u32) = k" "unat (of_nat k :: u32) \<le> unat (slice_remaining s)"
    using Suc.prems assms(2) unat_lt_u32 [of "slice_remaining s"] by (simp_all add: unat_of_nat_u32)
  then have "unat ?r = Suc n - k" using assms(2) by (simp add: unat_sub word_le_nat_alt)
  then have r: "?r > 0" "?r \<noteq> 1" "?r \<noteq> 0"
    using Suc.prems by (auto simp: word_less_nat_alt word_eq_iff_unat_u32)
  have "(timer_callback ^^ Suc k) s = timer_callback
      (s\<lparr>ticks := ticks s + of_nat k, slice_remaining := ?r\<rparr>)" using Suc by simp
  also have "\<dots> = s\<lparr>ticks := ticks s + of_nat k + 1, slice_remaining := ?r - 1\<rparr>"
    using assms(1) r by (simp add: timer_callback_def)
  also have "\<dots> = s\<lparr>ticks := ticks s + of_nat (Suc k), slice_remaining := slice_remaining s - of_nat (Suc k)\<rparr>"
    by (simp add: algebra_simps)
  finally show ?case .
qed simp

text \<open>
  C26: with preemption enabled, a running process keeps the processor for exactly the rest of its
  time slice: the timer interrupts before that only count, and the one that ends the slice
  refills it and yields.
\<close>

theorem timer_preempts_after_slice:
  assumes pre: "preemption_enabled s" "unat (slice_remaining s) = Suc n"
    and cur: "current_process s = Some c" "pstate (process_table s c) = PROCESS_STATE_RUNNING"
  shows "(\<forall>k \<le> n. (timer_callback ^^ k) s =
        s\<lparr>ticks := ticks s + of_nat k, slice_remaining := slice_remaining s - of_nat k\<rparr>) \<and>
    (timer_callback ^^ Suc n) s =
      process_yield (s\<lparr>ticks := ticks s + of_nat (Suc n), slice_remaining := time_slice s\<rparr>)"
proof -
  let ?t = "s\<lparr>ticks := ticks s + of_nat n, slice_remaining := 1\<rparr>"
  have "slice_remaining s = of_nat (Suc n)" 
    using arg_cong [OF pre(2), of "of_nat :: nat \<Rightarrow> u32"] by simp
  then have t: "(timer_callback ^^ n) s = ?t" using slice_counts [OF pre order_refl] by simp
  have "timer_callback ?t =
      process_yield (s\<lparr>ticks := ticks s + of_nat n + 1, slice_remaining := time_slice s\<rparr>)"
    using pre(1) cur by (simp add: timer_callback_def process_get_current_def)
  then have "(timer_callback ^^ Suc n) s =
      process_yield (s\<lparr>ticks := ticks s + of_nat (Suc n), slice_remaining := time_slice s\<rparr>)"
    using t by (simp add: algebra_simps)
  then show ?thesis using slice_counts [OF pre] by blast
qed

theorem timer_preempts_after_slice_witness:
  "(timer_callback ^^ Suc 1) demo_sched = process_yield (demo_sched\<lparr>ticks := 2, slice_remaining := 2\<rparr>)"
proof -
  have n: "unat (slice_remaining demo_sched) = Suc 1" by simp
  have run: "pstate (process_table demo_sched 1) = PROCESS_STATE_RUNNING" by (simp add: demo_process_def)
  have tk: "ticks demo_sched + of_nat (Suc 1) = 2" by simp
  from timer_preempts_after_slice [OF demo_sched_simps(3) n demo_sched_simps(1) run, THEN conjunct2]
  show ?thesis unfolding tk demo_sched_simps(5) .
qed

end
