(* ===== verification/Ata.thy ===== *)
theory Ata
  imports Scheduler
begin

text \<open>
  The ATA disk driver (\<^verbatim>\<open>src/src/ata.c\<close>, \<^verbatim>\<open>src/src/ata.h\<close>), which talks to up to four drives by
  programmed input and output. Buffers are memory at virtual addresses: the byte store \<open>vmem\<close>.
  The waiting loops without a bound may not return, which is \<^const>\<open>None\<close>. The disk itself is not
  part of the program; \<open>disk_of\<close> below is the command protocol of an LBA28 drive as a machine
  that reads the port history.
\<close>

subsection \<open>Constants and state\<close>

definition MAX_DRIVES :: nat where [c_consts]: "MAX_DRIVES = 4"

definition ATA_PRIMARY_IO :: u16 where [c_consts]: "ATA_PRIMARY_IO = 0x1F0"
definition ATA_PRIMARY_CTRL :: u16 where [c_consts]: "ATA_PRIMARY_CTRL = 0x3F6"
definition ATA_SECONDARY_IO :: u16 where [c_consts]: "ATA_SECONDARY_IO = 0x170"
definition ATA_SECONDARY_CTRL :: u16 where [c_consts]: "ATA_SECONDARY_CTRL = 0x376"
definition ATA_MASTER :: u8 where [c_consts]: "ATA_MASTER = 0x00"
definition ATA_SLAVE :: u8 where [c_consts]: "ATA_SLAVE = 0x10"

definition ATA_REG_DATA :: u16 where [c_consts]: "ATA_REG_DATA = 0"
definition ATA_REG_SECCOUNT :: u16 where [c_consts]: "ATA_REG_SECCOUNT = 2"
definition ATA_REG_LBA_LO :: u16 where [c_consts]: "ATA_REG_LBA_LO = 3"
definition ATA_REG_LBA_MID :: u16 where [c_consts]: "ATA_REG_LBA_MID = 4"
definition ATA_REG_LBA_HI :: u16 where [c_consts]: "ATA_REG_LBA_HI = 5"
definition ATA_REG_DRIVE :: u16 where [c_consts]: "ATA_REG_DRIVE = 6"
definition ATA_REG_STATUS :: u16 where [c_consts]: "ATA_REG_STATUS = 7"
definition ATA_REG_COMMAND :: u16 where [c_consts]: "ATA_REG_COMMAND = 7"

definition ATA_CMD_READ_PIO :: u8 where [c_consts]: "ATA_CMD_READ_PIO = 0x20"
definition ATA_CMD_WRITE_PIO :: u8 where [c_consts]: "ATA_CMD_WRITE_PIO = 0x30"
definition ATA_CMD_IDENTIFY :: u8 where [c_consts]: "ATA_CMD_IDENTIFY = 0xEC"
definition ATA_CMD_FLUSH :: u8 where [c_consts]: "ATA_CMD_FLUSH = 0xE7"

definition ATA_SR_BSY :: u8 where [c_consts]: "ATA_SR_BSY = 0x80"
definition ATA_SR_DF :: u8 where [c_consts]: "ATA_SR_DF = 0x20"
definition ATA_SR_DRQ :: u8 where [c_consts]: "ATA_SR_DRQ = 0x08"
definition ATA_SR_ERR :: u8 where [c_consts]: "ATA_SR_ERR = 0x01"

record ata_drive =
  present :: bool
  is_atapi :: bool
  io_base :: u16
  ctrl_base :: u16
  drive_select :: u8
  sectors :: u32
  model :: "nat \<Rightarrow> char"
  serial :: "nat \<Rightarrow> char"

record ata_state = proc_state +
  vmem :: "u32 \<Rightarrow> u8"
  drives :: "nat \<Rightarrow> ata_drive"
  drive_count :: u8

definition upd_drive ::
  "nat \<Rightarrow> (ata_drive \<Rightarrow> ata_drive) \<Rightarrow> 'a ata_state_scheme \<Rightarrow> 'a ata_state_scheme" where
  "upd_drive i f s = s\<lparr>drives := (drives s)(i := f (drives s i))\<rparr>"

text \<open>A 16-bit store and load, low byte first.\<close>

definition store16 :: "u32 \<Rightarrow> u16 \<Rightarrow> 'a ata_state_scheme \<Rightarrow> 'a ata_state_scheme" where
  "store16 a w s = s\<lparr>vmem := (vmem s)(a := ucast w, a + 1 := ucast (drop_bit 8 w))\<rparr>"

definition load16 :: "u32 \<Rightarrow> 'a ata_state_scheme \<Rightarrow> u16" where
  "load16 a s = ucast (vmem s a) OR push_bit 8 (ucast (vmem s (a + 1)))"

subsection \<open>Waiting\<close>

partial_function (option) ata_wait_bsy ::
  "device \<Rightarrow> u16 \<Rightarrow> 'a io_state_scheme \<Rightarrow> 'a io_state_scheme option" where
  "ata_wait_bsy dev io s =
     (let r = inb dev (io + ATA_REG_STATUS) s
      in if fst r AND ATA_SR_BSY \<noteq> 0 then ata_wait_bsy dev io (snd r) else Some (snd r))"

partial_function (option) ata_wait_drq ::
  "device \<Rightarrow> u16 \<Rightarrow> 'a io_state_scheme \<Rightarrow> 'a io_state_scheme option" where
  "ata_wait_drq dev io s =
     (let r = inb dev (io + ATA_REG_STATUS) s
      in if fst r AND ATA_SR_DRQ = 0 then ata_wait_drq dev io (snd r) else Some (snd r))"

text \<open>The first argument counts the polls that are left.\<close>

fun poll_ready :: "nat \<Rightarrow> device \<Rightarrow> u16 \<Rightarrow> 'a io_state_scheme \<Rightarrow> bool \<times> 'a io_state_scheme" where
  "poll_ready 0 dev io s = (False, s)"
| "poll_ready (Suc timeout) dev io s =
     (let (status, s) = inb dev (io + ATA_REG_STATUS) s
      in if status AND ATA_SR_ERR \<noteq> 0 then (False, s)
         else if status AND ATA_SR_DF \<noteq> 0 then (False, s)
         else if status AND ATA_SR_BSY = 0 \<and> status AND ATA_SR_DRQ \<noteq> 0 then (True, s)
         else poll_ready timeout dev io s)"

definition ata_wait_ready :: "device \<Rightarrow> u16 \<Rightarrow> 'a io_state_scheme \<Rightarrow> bool \<times> 'a io_state_scheme" where
  "ata_wait_ready dev io s = poll_ready 100000 dev io s"

definition ata_soft_reset :: "u16 \<Rightarrow> 'a io_state_scheme \<Rightarrow> 'a io_state_scheme" where
  "ata_soft_reset ctrl s =
     (let s = outb ctrl 0x04 s;
          s = io_wait (io_wait (io_wait (io_wait s)));
          s = outb ctrl 0x00 s
      in io_wait s)"

subsection \<open>Identification\<close>

text \<open>The loop that waits for data or an error: true for data.\<close>

partial_function (option) identify_wait ::
  "device \<Rightarrow> u16 \<Rightarrow> 'a io_state_scheme \<Rightarrow> (bool \<times> 'a io_state_scheme) option" where
  "identify_wait dev io s =
     (let r = inb dev (io + ATA_REG_STATUS) s
      in if fst r AND ATA_SR_ERR \<noteq> 0 then Some (False, snd r)
         else if fst r AND ATA_SR_DRQ \<noteq> 0 then Some (True, snd r)
         else identify_wait dev io (snd r))"

fun inw_many :: "nat \<Rightarrow> device \<Rightarrow> u16 \<Rightarrow> 'a io_state_scheme \<Rightarrow> u16 list \<times> 'a io_state_scheme" where
  "inw_many 0 dev port s = ([], s)"
| "inw_many (Suc n) dev port s =
     (let (w, s) = inw dev port s; (ws, s) = inw_many n dev port s in (w # ws, s))"

definition word_char :: "u16 \<Rightarrow> char" where
  "word_char w = char_of (unat (w AND 0xFF))"

text \<open>Two characters per word, the high byte first.\<close>

definition swapped :: "u16 list \<Rightarrow> nat \<Rightarrow> nat \<Rightarrow> (nat \<Rightarrow> char) \<Rightarrow> nat \<Rightarrow> char" where
  "swapped data off n str =
     fold (\<lambda>i f. f(i * 2 := word_char (drop_bit 8 (data ! (off + i))),
                    i * 2 + 1 := word_char (data ! (off + i)))) [0..<n] str"

primrec trim_spaces :: "nat \<Rightarrow> (nat \<Rightarrow> char) \<Rightarrow> nat \<Rightarrow> char" where
  "trim_spaces 0 f = f"
| "trim_spaces (Suc i) f = (if f i = CHR '' '' then trim_spaces i (f(i := NUL)) else f)"

definition drive_info :: "u16 \<Rightarrow> u16 \<Rightarrow> u8 \<Rightarrow> u16 list \<Rightarrow> ata_drive \<Rightarrow> ata_drive" where
  "drive_info io ctrl sel data d =
     d\<lparr>present := True, is_atapi := False, io_base := io, ctrl_base := ctrl, drive_select := sel,
       sectors := push_bit 16 (ucast (data ! 61)) OR ucast (data ! 60),
       model := trim_spaces 40 ((swapped data 27 20 (model d))(40 := NUL)),
       serial := (swapped data 10 10 (serial d))(20 := NUL)\<rparr>"

definition ata_identify ::
  "device \<Rightarrow> u16 \<Rightarrow> u16 \<Rightarrow> u8 \<Rightarrow> nat \<Rightarrow> 'a ata_state_scheme \<Rightarrow> (bool \<times> 'a ata_state_scheme) option" where
  "ata_identify dev io ctrl drive_sel drive s =
     (let s = outb (io + ATA_REG_DRIVE) (0xA0 OR drive_sel) s;
          s = io_wait s;
          s = outb (io + ATA_REG_SECCOUNT) 0 s;
          s = outb (io + ATA_REG_LBA_LO) 0 s;
          s = outb (io + ATA_REG_LBA_MID) 0 s;
          s = outb (io + ATA_REG_LBA_HI) 0 s;
          s = outb (io + ATA_REG_COMMAND) ATA_CMD_IDENTIFY s;
          s = io_wait s;
          (status, s) = inb dev (io + ATA_REG_STATUS) s
      in if status = 0 then Some (False, s)
         else do {
           s \<leftarrow> ata_wait_bsy dev io s;
           let (lba_mid, s) = inb dev (io + ATA_REG_LBA_MID) s;
               (lba_hi, s) = inb dev (io + ATA_REG_LBA_HI) s
           in if lba_mid \<noteq> 0 \<or> lba_hi \<noteq> 0 then
                Some (False, upd_drive drive (\<lambda>d. d\<lparr>is_atapi := True\<rparr>) s)
              else do {
                (ok, s) \<leftarrow> identify_wait dev io s;
                if \<not> ok then Some (False, s)
                else let (data, s) = inw_many 256 dev (io + ATA_REG_DATA) s
                     in Some (True, upd_drive drive (drive_info io ctrl drive_sel data) s)
              }
         })"

definition ata_init :: "device \<Rightarrow> 'a ata_state_scheme \<Rightarrow> 'a ata_state_scheme option" where
  "ata_init dev s =
     (let s = s\<lparr>drive_count := 0\<rparr>;
          s = fold (\<lambda>i. upd_drive i (\<lambda>d. d\<lparr>present := False\<rparr>)) [0..<MAX_DRIVES] s;
          count = (\<lambda>(ok, s). if ok then s\<lparr>drive_count := drive_count s + 1\<rparr> else s)
      in do {
        r \<leftarrow> ata_identify dev ATA_PRIMARY_IO ATA_PRIMARY_CTRL ATA_MASTER 0 s;
        r \<leftarrow> ata_identify dev ATA_PRIMARY_IO ATA_PRIMARY_CTRL ATA_SLAVE 1 (count r);
        r \<leftarrow> ata_identify dev ATA_SECONDARY_IO ATA_SECONDARY_CTRL ATA_MASTER 2 (count r);
        r \<leftarrow> ata_identify dev ATA_SECONDARY_IO ATA_SECONDARY_CTRL ATA_SLAVE 3 (count r);
        Some (count r)
      })"

subsection \<open>Reading and writing\<close>

text \<open>The register writes that start a transfer.\<close>

definition ata_command ::
  "ata_drive \<Rightarrow> u32 \<Rightarrow> u8 \<Rightarrow> u8 \<Rightarrow> 'a io_state_scheme \<Rightarrow> 'a io_state_scheme" where
  "ata_command d lba count cmd s =
     (let io = io_base d;
          s = outb (io + ATA_REG_DRIVE) (0xE0 OR drive_select d OR ucast (drop_bit 24 lba AND 0x0F)) s;
          s = outb (io + ATA_REG_SECCOUNT) count s;
          s = outb (io + ATA_REG_LBA_LO) (ucast (lba AND 0xFF)) s;
          s = outb (io + ATA_REG_LBA_MID) (ucast (drop_bit 8 lba AND 0xFF)) s;
          s = outb (io + ATA_REG_LBA_HI) (ucast (drop_bit 16 lba AND 0xFF)) s
      in outb (io + ATA_REG_COMMAND) cmd s)"

definition read_word :: "device \<Rightarrow> u16 \<Rightarrow> u32 \<Rightarrow> nat \<Rightarrow> 'a ata_state_scheme \<Rightarrow> 'a ata_state_scheme" where
  "read_word dev io buf i s =
     (let (w, s) = inw dev (io + ATA_REG_DATA) s in store16 (buf + of_nat (2 * i)) w s)"

primrec read_sector_loop ::
  "nat \<Rightarrow> device \<Rightarrow> u16 \<Rightarrow> u32 \<Rightarrow> nat \<Rightarrow> 'a ata_state_scheme \<Rightarrow> bool \<times> 'a ata_state_scheme" where
  "read_sector_loop 0 dev io buf k s = (True, s)"
| "read_sector_loop (Suc n) dev io buf k s =
     (let (ok, s) = ata_wait_ready dev io s
      in if \<not> ok then (False, s)
         else read_sector_loop n dev io buf (Suc k)
                (fold (read_word dev io buf) [k * 256..<k * 256 + 256] s))"

definition ata_read_sectors ::
  "device \<Rightarrow> u8 \<Rightarrow> u32 \<Rightarrow> u8 \<Rightarrow> u32 \<Rightarrow> 'a ata_state_scheme \<Rightarrow> (bool \<times> 'a ata_state_scheme) option" where
  "ata_read_sectors dev drive lba count buffer s =
     (if unat drive \<ge> MAX_DRIVES \<or> \<not> present (drives s (unat drive)) then Some (False, s)
      else let d = drives s (unat drive)
           in do {
             s \<leftarrow> ata_wait_bsy dev (io_base d) s;
             let s = ata_command d lba count ATA_CMD_READ_PIO s
             in Some (read_sector_loop (unat count) dev (io_base d) buffer 0 s)
           })"

definition write_word :: "u16 \<Rightarrow> u32 \<Rightarrow> nat \<Rightarrow> 'a ata_state_scheme \<Rightarrow> 'a ata_state_scheme" where
  "write_word io buf i s = outw (io + ATA_REG_DATA) (load16 (buf + of_nat (2 * i)) s) s"

primrec write_sector_loop ::
  "nat \<Rightarrow> device \<Rightarrow> u16 \<Rightarrow> u32 \<Rightarrow> nat \<Rightarrow> 'a ata_state_scheme \<Rightarrow> 'a ata_state_scheme option" where
  "write_sector_loop 0 dev io buf k s = Some s"
| "write_sector_loop (Suc n) dev io buf k s = do {
     s \<leftarrow> ata_wait_drq dev io s;
     write_sector_loop n dev io buf (Suc k) (fold (write_word io buf) [k * 256..<k * 256 + 256] s)
   }"

definition ata_write_sectors ::
  "device \<Rightarrow> u8 \<Rightarrow> u32 \<Rightarrow> u8 \<Rightarrow> u32 \<Rightarrow> 'a ata_state_scheme \<Rightarrow> (bool \<times> 'a ata_state_scheme) option" where
  "ata_write_sectors dev drive lba count buffer s =
     (if unat drive \<ge> MAX_DRIVES \<or> \<not> present (drives s (unat drive)) then Some (False, s)
      else let d = drives s (unat drive)
           in do {
             s \<leftarrow> ata_wait_bsy dev (io_base d) s;
             let s = ata_command d lba count ATA_CMD_WRITE_PIO s
             in do {
               s \<leftarrow> write_sector_loop (unat count) dev (io_base d) buffer 0 s;
               let s = outb (io_base d + ATA_REG_COMMAND) ATA_CMD_FLUSH s
               in do {
                 s \<leftarrow> ata_wait_bsy dev (io_base d) s;
                 Some (True, s)
               }
             }
           })"

definition ata_get_drive :: "u8 \<Rightarrow> 'a ata_state_scheme \<Rightarrow> nat option" where
  "ata_get_drive drive s =
     (if unat drive \<ge> MAX_DRIVES then None
      else if present (drives s (unat drive)) then Some (unat drive) else None)"

definition ata_get_drive_count :: "'a ata_state_scheme \<Rightarrow> u8" where
  "ata_get_drive_count s = drive_count s"

subsection \<open>An LBA28 drive\<close>

text \<open>
  The machine behind the ports \<open>io\<close> to \<open>io + 7\<close>: the task file registers, the transfer in
  progress, and the contents of the medium as 16-bit words (256 to a sector). It is the master
  drive: while the slave is selected it ignores commands. A sector count of 0 means 256.
\<close>

datatype disk_mode = Idle | Reading | Writing

record disk =
  d_sel :: u8
  d_cnt :: u8
  d_lo :: u8
  d_mid :: u8
  d_hi :: u8
  d_mode :: disk_mode
  d_pos :: nat
  d_left :: nat
  d_store :: "nat \<Rightarrow> u16"

definition disk_lba :: "disk \<Rightarrow> nat" where
  "disk_lba d = unat (d_sel d AND 0x0F) * 2 ^ 24 + unat (d_hi d) * 2 ^ 16 + unat (d_mid d) * 2 ^ 8 + unat (d_lo d)"

definition disk_command :: "u8 \<Rightarrow> disk \<Rightarrow> disk" where
  "disk_command v d =
     (if bit (d_sel d) 4 then d
      else let m = (if v = 0x20 then Reading else if v = 0x30 then Writing else Idle)
           in d\<lparr>d_mode := m, d_pos := disk_lba d * 256,
                d_left := (if m = Idle then 0 else (if d_cnt d = 0 then 256 else unat (d_cnt d)) * 256)\<rparr>)"

definition disk_step :: "u16 \<Rightarrow> io_event \<Rightarrow> disk \<Rightarrow> disk" where
  "disk_step io e d =
     (case e of
        Outb p v \<Rightarrow>
          if p = io + 2 then d\<lparr>d_cnt := v\<rparr>
          else if p = io + 3 then d\<lparr>d_lo := v\<rparr>
          else if p = io + 4 then d\<lparr>d_mid := v\<rparr>
          else if p = io + 5 then d\<lparr>d_hi := v\<rparr>
          else if p = io + 6 then d\<lparr>d_sel := v\<rparr>
          else if p = io + 7 then disk_command v d else d
      | Inw p v \<Rightarrow>
          if p = io \<and> d_mode d = Reading \<and> d_left d > 0
          then d\<lparr>d_pos := d_pos d + 1, d_left := d_left d - 1\<rparr> else d
      | Outw p v \<Rightarrow>
          if p = io \<and> d_mode d = Writing \<and> d_left d > 0
          then d\<lparr>d_store := (d_store d)(d_pos d := v), d_pos := d_pos d + 1, d_left := d_left d - 1\<rparr>
          else d
      | Inb p v \<Rightarrow> d)"

fun disk_of :: "u16 \<Rightarrow> disk \<Rightarrow> io_event list \<Rightarrow> disk" where
  "disk_of io d0 [] = d0"
| "disk_of io d0 (e # h) = disk_step io e (disk_of io d0 h)"

text \<open>
  A device behaves as the drive: it is never busy, reports neither error nor fault, requests data
  exactly while a transfer has words left, and delivers the words of the medium in order.
\<close>

definition drive_at :: "u16 \<Rightarrow> disk \<Rightarrow> device \<Rightarrow> bool" where
  "drive_at io d0 dev \<longleftrightarrow>
     (\<forall>h. let d = disk_of io d0 h; st = (ucast (dev h (io + 7)) :: u8) in
        \<not> bit st 7 \<and> \<not> bit st 5 \<and> \<not> bit st 0 \<and> (bit st 3 \<longleftrightarrow> d_left d > 0) \<and>
        (d_mode d = Reading \<and> d_left d > 0 \<longrightarrow> dev h io = d_store d (d_pos d)))"

abbreviation disk_in :: "disk \<Rightarrow> 'a ata_state_scheme \<Rightarrow> u16 \<Rightarrow> disk" where
  "disk_in d0 s io \<equiv> disk_of io d0 (io_log s)"

lemma status_bits:
  fixes st :: u8
  shows "st AND ATA_SR_BSY \<noteq> 0 \<longleftrightarrow> bit st 7" "st AND ATA_SR_DRQ \<noteq> 0 \<longleftrightarrow> bit st 3"
    "st AND ATA_SR_DF \<noteq> 0 \<longleftrightarrow> bit st 5" "st AND ATA_SR_ERR \<noteq> 0 \<longleftrightarrow> bit st 0"
proof -
  have "st AND 2 ^ n \<noteq> 0 \<longleftrightarrow> bit st n" for n by (simp add: bit_iff_and_push_bit_not_eq_0)
  from this [of 7] this [of 3] this [of 5] this [of 0]
  show "st AND ATA_SR_BSY \<noteq> 0 \<longleftrightarrow> bit st 7" "st AND ATA_SR_DRQ \<noteq> 0 \<longleftrightarrow> bit st 3"
    "st AND ATA_SR_DF \<noteq> 0 \<longleftrightarrow> bit st 5" "st AND ATA_SR_ERR \<noteq> 0 \<longleftrightarrow> bit st 0"
    by (simp_all add: c_consts)
qed

lemma drive_atD:
  assumes "drive_at io d0 dev"
  shows "\<not> bit (ucast (dev h (io + 7)) :: u8) 7" "\<not> bit (ucast (dev h (io + 7)) :: u8) 5"
    "\<not> bit (ucast (dev h (io + 7)) :: u8) 0"
    "bit (ucast (dev h (io + 7)) :: u8) 3 \<longleftrightarrow> d_left (disk_of io d0 h) > 0"
    "d_mode (disk_of io d0 h) = Reading \<Longrightarrow> d_left (disk_of io d0 h) > 0 \<Longrightarrow>
      dev h io = d_store (disk_of io d0 h) (d_pos (disk_of io d0 h))"
  using assms unfolding drive_at_def Let_def by blast+

text \<open>One poll of the status register.\<close>

definition polled :: "device \<Rightarrow> u16 \<Rightarrow> 'a ata_state_scheme \<Rightarrow> 'a ata_state_scheme" where
  "polled dev io s = snd (inb dev (io + 7) s)"

lemma polled_simps [simp]:
  "disk_of io d0 (io_log (polled dev io' s)) = disk_of io d0 (io_log s)"
  "vmem (polled dev io s) = vmem s" "drives (polled dev io s) = drives s"
  by (simp_all add: polled_def inb_def Let_def disk_step_def)

text \<open>A transfer changes the port history and the buffer only.\<close>

definition xfer_only :: "'a ata_state_scheme \<Rightarrow> 'a ata_state_scheme \<Rightarrow> bool" where
  "xfer_only s t \<longleftrightarrow> t = s\<lparr>io_log := io_log t, vmem := vmem t\<rparr>"

lemma xfer_only_refl [simp]: "xfer_only s s"
  by (simp add: xfer_only_def)

lemma xfer_only_trans: "xfer_only s t \<Longrightarrow> xfer_only t u \<Longrightarrow> xfer_only s u"
  by (cases s; cases t; cases u) (simp add: xfer_only_def)

lemma xfer_only_polled [simp]: "xfer_only s (polled dev io s)"
  by (simp add: xfer_only_def polled_def inb_def Let_def)

lemma waits:
  assumes "drive_at io d0 dev"
  shows "ata_wait_bsy dev io s = Some (polled dev io s)"
    "d_left (disk_in d0 s io) > 0 \<Longrightarrow> ata_wait_ready dev io s = (True, polled dev io s)"
    "d_left (disk_in d0 s io) > 0 \<Longrightarrow> ata_wait_drq dev io s = Some (polled dev io s)"
proof -
  have st: "fst (inb dev (io + ATA_REG_STATUS) s) = ucast (dev (io_log s) (io + 7))"
    "snd (inb dev (io + ATA_REG_STATUS) s) = polled dev io s"
    by (simp_all add: inb_def Let_def polled_def c_consts)
  note d = drive_atD [OF assms, of "io_log s"]
  show "ata_wait_bsy dev io s = Some (polled dev io s)"
    by (subst ata_wait_bsy.simps) (simp add: st status_bits d(1) Let_def)
  show "d_left (disk_in d0 s io) > 0 \<Longrightarrow> ata_wait_drq dev io s = Some (polled dev io s)"
    using d(4) status_bits(2) [of "ucast (dev (io_log s) (io + 7))"]
    by (subst ata_wait_drq.simps) (simp add: st Let_def)
  have "poll_ready (Suc n) dev io s = (True, polled dev io s)" if "d_left (disk_in d0 s io) > 0" for n
    using that d(1-4) status_bits [of "ucast (dev (io_log s) (io + 7))"]
    by (simp add: split_beta st Let_def)
  from this [of 99999] show "d_left (disk_in d0 s io) > 0 \<Longrightarrow> ata_wait_ready dev io s = (True, polled dev io s)"
    by (simp add: ata_wait_ready_def)
qed

lemma nat_bytes:
  fixes n :: nat
  assumes "n < 2 ^ 28"
  shows "n div 2 ^ 24 mod 16 * 2 ^ 24 + n div 2 ^ 16 mod 256 * 2 ^ 16 + n div 2 ^ 8 mod 256 * 2 ^ 8 + n mod 256 = n"
proof -
  have sum: "w * 2 ^ 24 + v * 2 ^ 16 + u * 2 ^ 8 + r = n"
    if "n = p * 256 + r" "p = q * 256 + u" "q = w * 256 + v" for p q r u v w :: nat
    using that by simp
  have "n div 2 ^ 24 < 16" using assms by (intro less_mult_imp_div_less) simp
  then have top: "n div 2 ^ 24 mod 16 = n div 2 ^ 24" by simp
  have "n div 2 ^ 16 = n div 2 ^ 24 * 256 + n div 2 ^ 16 mod 256"
    using div_mult_mod_eq [of "n div 2 ^ 16" 256] by (simp add: div_mult2_eq [symmetric])
  moreover have "n div 2 ^ 8 = n div 2 ^ 16 * 256 + n div 2 ^ 8 mod 256"
    using div_mult_mod_eq [of "n div 2 ^ 8" 256] by (simp add: div_mult2_eq [symmetric])
  moreover have "n = n div 2 ^ 8 * 256 + n mod 256" using div_mult_mod_eq [of n 256] by simp
  ultimately show ?thesis unfolding top by (intro sum)
qed

lemma byte_of_u32:
  fixes x :: u32
  shows "unat (ucast (drop_bit n x AND 0xFF) :: u8) = unat x div 2 ^ n mod 256"
    "unat (ucast (x AND 0xFF) :: u8) = unat x mod 256"
    "unat (ucast (drop_bit n x AND 0x0F) :: u8) = unat x div 2 ^ n mod 16"
proof -
  have m: "(0xFF :: u32) = mask 8" "(0x0F :: u32) = mask 4" by (simp_all add: mask_eq_exp_minus_1)
  show "unat (ucast (drop_bit n x AND 0xFF) :: u8) = unat x div 2 ^ n mod 256"
    "unat (ucast (x AND 0xFF) :: u8) = unat x mod 256"
    "unat (ucast (drop_bit n x AND 0x0F) :: u8) = unat x div 2 ^ n mod 16"
    unfolding m
    by (simp_all add: unsigned_ucast_eq take_bit_eq_mask [symmetric] unsigned_take_bit_eq
        unsigned_drop_bit_eq) (use unat_lt_u32 [of x] in \<open>simp_all add: drop_bit_eq_div take_bit_eq_mod\<close>)
qed

lemma select_nibble:
  fixes x :: u8
  assumes "x AND 0x0F = x"
  shows "(0xE0 OR x) AND 0x0F = x" "\<not> bit (0xE0 OR x) 4"
proof -
  show "(0xE0 OR x) AND 0x0F = x" using assms by (simp add: bit.conj_disj_distrib2)
  have "(0x0F :: u8) = mask 4" by (simp add: mask_eq_exp_minus_1)
  then have "\<not> bit x 4" using assms by (metis bit_and_iff bit_mask_iff less_irrefl)
  then show "\<not> bit (0xE0 OR x) 4" by (simp add: bit_or_iff bit_numeral_rec)
qed

lemma command_disk:
  fixes s :: "'a ata_state_scheme" and d0 :: disk and d :: ata_drive and io :: u16 and lba :: u32
    and count :: u8
  assumes d: "io_base d = io" "drive_select d = ATA_MASTER" and lba: "unat lba < 2 ^ 28" and cnt: "count \<noteq> 0"
  defines "t cmd \<equiv> disk_of io d0 (io_log (ata_command d lba count cmd s))"
  shows "d_mode (t 0x20) = Reading" "d_mode (t 0x30) = Writing"
    "cmd \<in> {0x20, 0x30} \<Longrightarrow> d_pos (t cmd) = unat lba * 256"
    "cmd \<in> {0x20, 0x30} \<Longrightarrow> d_left (t cmd) = unat count * 256"
    "d_store (t cmd) = d_store (disk_in d0 s io)"
proof -
  let ?x = "ucast (drop_bit 24 lba AND 0x0F) :: u8"
  have x: "?x AND 0x0F = ?x"
  proof -
    have m: "(0x0F :: u8) = mask 4" "(0x0F :: u32) = mask 4" by (simp_all add: mask_eq_exp_minus_1)
    show ?thesis unfolding m by (simp add: take_bit_eq_mask [symmetric] unsigned_take_bit_eq)
  qed
  have sel: "0xE0 OR drive_select d OR ?x = 0xE0 OR ?x" using d(2) by (simp add: c_consts)
  let ?d = "(disk_in d0 s io)\<lparr>d_sel := 0xE0 OR ?x, d_cnt := count, d_lo := ucast (lba AND 0xFF),
    d_mid := ucast (drop_bit 8 lba AND 0xFF), d_hi := ucast (drop_bit 16 lba AND 0xFF)\<rparr>"
  have t: "t cmd = disk_command cmd ?d" for cmd
    unfolding t_def ata_command_def Let_def d(1) sel
    by (simp add: outb_def disk_step_def c_consts)
  have f: "d_sel ?d = 0xE0 OR ?x" "d_lo ?d = ucast (lba AND 0xFF)"
    "d_mid ?d = ucast (drop_bit 8 lba AND 0xFF)" "d_hi ?d = ucast (drop_bit 16 lba AND 0xFF)" by simp_all
  have "disk_lba ?d = unat lba"
    by (simp only: disk_lba_def f select_nibble(1) [OF x] byte_of_u32(1) [of 16 lba]
        byte_of_u32(1) [of 8 lba] byte_of_u32(2) [of lba] byte_of_u32(3) nat_bytes [OF lba])
  moreover have "\<not> bit (d_sel ?d) 4" using select_nibble(2) [OF x] by simp
  ultimately show "d_mode (t 0x20) = Reading" "d_mode (t 0x30) = Writing"
    "cmd \<in> {0x20, 0x30} \<Longrightarrow> d_pos (t cmd) = unat lba * 256"
    "cmd \<in> {0x20, 0x30} \<Longrightarrow> d_left (t cmd) = unat count * 256"
    "d_store (t cmd) = d_store (disk_in d0 s io)"
    using cnt unfolding t disk_command_def by (auto simp: Let_def)
qed

subsection \<open>Transfers\<close>

text \<open>Byte \<open>n\<close> of a medium of 16-bit words.\<close>

definition sbyte :: "(nat \<Rightarrow> u16) \<Rightarrow> nat \<Rightarrow> u8" where
  "sbyte st n = (if even n then ucast (st (n div 2)) else ucast (drop_bit 8 (st (n div 2))))"

text \<open>Memory \<open>m\<close> after \<open>n\<close> bytes of the medium from byte \<open>p\<close> on have been copied to \<open>buf\<close>.\<close>

definition filled :: "(u32 \<Rightarrow> u8) \<Rightarrow> u32 \<Rightarrow> (nat \<Rightarrow> u8) \<Rightarrow> nat \<Rightarrow> u32 \<Rightarrow> u8" where
  "filled m buf src n = (\<lambda>a. if unat (a - buf) < n then src (unat (a - buf)) else m a)"

lemma offset_unat:
  fixes a b :: u32
  assumes "n < 2 ^ 32"
  shows "a = b + of_nat n \<longleftrightarrow> unat (a - b) = n"
proof
  assume "a = b + of_nat n"
  then show "unat (a - b) = n" using assms by (simp add: unat_of_nat_u32)
next
  assume "unat (a - b) = n"
  then have "a - b = of_nat n" by (metis word_eq_iff_unat_u32 assms unat_of_nat_u32)
  then show "a = b + of_nat n" by (simp add: algebra_simps)
qed

lemma filled_Suc:
  assumes "n < 2 ^ 32"
  shows "(filled m buf src n)(buf + of_nat n := src n) = filled m buf src (Suc n)"
  using offset_unat [OF assms, of _ buf] by (auto simp: filled_def fun_eq_iff less_Suc_eq)

lemma read_word_disk:
  assumes dev: "drive_at io d0 dev" and m: "d_mode (disk_in d0 s io) = Reading"
    and l: "d_left (disk_in d0 s io) > 0" and i: "2 * i + 1 < 2 ^ 32"
    and v: "vmem s = filled m0 buf (\<lambda>k. sbyte (d_store (disk_in d0 s io)) (2 * p + k)) (2 * i)"
    and p: "d_pos (disk_in d0 s io) = p + i"
  defines "t \<equiv> read_word dev io buf i s"
  shows "disk_in d0 t io = (disk_in d0 s io)\<lparr>d_pos := p + Suc i, d_left := d_left (disk_in d0 s io) - 1\<rparr>"
    "vmem t = filled m0 buf (\<lambda>k. sbyte (d_store (disk_in d0 s io)) (2 * p + k)) (2 * Suc i)"
    "xfer_only s t"
proof -
  let ?d = "disk_in d0 s io"
  let ?src = "\<lambda>k. sbyte (d_store ?d) (2 * p + k)"
  have w: "dev (io_log s) io = d_store ?d (p + i)" using drive_atD(5) [OF dev m l] p by simp
  have t: "t = store16 (buf + of_nat (2 * i)) (d_store ?d (p + i)) (s\<lparr>io_log := Inw io (d_store ?d (p + i)) # io_log s\<rparr>)"
    by (simp add: t_def read_word_def inw_def Let_def w c_consts)
  show "disk_in d0 t io = ?d\<lparr>d_pos := p + Suc i, d_left := d_left ?d - 1\<rparr>"
    using m l p by (simp add: t store16_def disk_step_def)
  show "xfer_only s t" unfolding t by (simp add: xfer_only_def store16_def)
  have b: "ucast (d_store ?d (p + i)) = ?src (2 * i)" "ucast (drop_bit 8 (d_store ?d (p + i))) = ?src (Suc (2 * i))"
    by (simp_all add: sbyte_def)
  have a: "buf + of_nat (2 * i) + 1 = buf + of_nat (Suc (2 * i))" by (simp add: algebra_simps)
  have "vmem t = ((filled m0 buf ?src (2 * i))(buf + of_nat (2 * i) := ?src (2 * i)))
      (buf + of_nat (Suc (2 * i)) := ?src (Suc (2 * i)))"
    by (simp only: t store16_def a b v ata_state.simps) (simp add: v)
  also have "\<dots> = filled m0 buf ?src (Suc (Suc (2 * i)))"
    using i by (subst filled_Suc, simp, subst filled_Suc) simp_all
  finally show "vmem t = filled m0 buf ?src (2 * Suc i)" by simp
qed

lemma read_words_disk:
  assumes dev: "drive_at io d0 dev" and m: "d_mode (disk_in d0 s io) = Reading"
    and l: "n \<le> d_left (disk_in d0 s io)" and i: "2 * (i + n) < 2 ^ 32"
    and v: "vmem s = filled m0 buf (\<lambda>k. sbyte (d_store (disk_in d0 s io)) (2 * p + k)) (2 * i)"
    and p: "d_pos (disk_in d0 s io) = p + i"
  defines "t \<equiv> fold (read_word dev io buf) [i..<i + n] s"
  shows "disk_in d0 t io = (disk_in d0 s io)\<lparr>d_pos := p + (i + n), d_left := d_left (disk_in d0 s io) - n\<rparr> \<and>
    vmem t = filled m0 buf (\<lambda>k. sbyte (d_store (disk_in d0 s io)) (2 * p + k)) (2 * (i + n)) \<and>
    xfer_only s t"
  unfolding t_def using l i
proof (induction n)
  case 0
  then show ?case using v p by simp
next
  case (Suc n)
  define u where "u = fold (read_word dev io buf) [i..<i + n] s"
  have u: "disk_in d0 u io = (disk_in d0 s io)\<lparr>d_pos := p + (i + n), d_left := d_left (disk_in d0 s io) - n\<rparr>"
    "vmem u = filled m0 buf (\<lambda>k. sbyte (d_store (disk_in d0 s io)) (2 * p + k)) (2 * (i + n))"
    "xfer_only s u"
    using Suc unfolding u_def by auto
  have f: "fold (read_word dev io buf) [i..<i + Suc n] s = read_word dev io buf (i + n) u"
    by (simp add: u_def)
  have "d_mode (disk_in d0 u io) = Reading" "d_left (disk_in d0 u io) > 0" "2 * (i + n) + 1 < 2 ^ 32"
    "vmem u = filled m0 buf (\<lambda>k. sbyte (d_store (disk_in d0 u io)) (2 * p + k)) (2 * (i + n))"
    "d_pos (disk_in d0 u io) = p + (i + n)"
    using u m Suc.prems by simp_all
  note r = read_word_disk [OF dev this]
  show ?case using r u(1) xfer_only_trans [OF u(3) r(3)] unfolding f by (auto simp: u(1))
qed

lemma read_loop_disk:
  assumes dev: "drive_at io d0 dev" and m: "d_mode (disk_in d0 s io) = Reading"
    and l: "d_left (disk_in d0 s io) = n * 256" and i: "512 * (k + n) < 2 ^ 32"
    and v: "vmem s = filled m0 buf (\<lambda>j. sbyte (d_store (disk_in d0 s io)) (2 * p + j)) (512 * k)"
    and p: "d_pos (disk_in d0 s io) = p + 256 * k"
  shows "\<exists>t. read_sector_loop n dev io buf k s = (True, t) \<and>
    disk_in d0 t io = (disk_in d0 s io)\<lparr>d_pos := p + 256 * (k + n), d_left := 0\<rparr> \<and>
    vmem t = filled m0 buf (\<lambda>j. sbyte (d_store (disk_in d0 s io)) (2 * p + j)) (512 * (k + n)) \<and>
    xfer_only s t"
  using m l i v p
proof (induction n arbitrary: k s)
  case 0
  then have "disk_in d0 s io = (disk_in d0 s io)\<lparr>d_pos := p + 256 * k, d_left := 0\<rparr>" by simp
  then show ?case using 0 by auto
next
  case (Suc n)
  define u where "u = polled dev io s"
  define t where "t = fold (read_word dev io buf) [256 * k..<256 * k + 256] u"
  have u: "disk_in d0 u io = disk_in d0 s io" "vmem u = vmem s" "xfer_only s u"
    by (simp_all add: u_def)
  have t: "disk_in d0 t io = (disk_in d0 s io)\<lparr>d_pos := p + 256 * Suc k, d_left := n * 256\<rparr>"
    "vmem t = filled m0 buf (\<lambda>j. sbyte (d_store (disk_in d0 s io)) (2 * p + j)) (512 * Suc k)"
    "xfer_only u t"
    using read_words_disk [OF dev, of u 256 "256 * k" m0 buf p, folded t_def] Suc.prems u(1,2)
    by (auto simp: algebra_simps)
  have "ata_wait_ready dev io s = (True, u)" 
    unfolding u_def by (rule waits(2) [OF dev]) (use Suc.prems in simp)
  then have r: "read_sector_loop (Suc n) dev io buf k s = read_sector_loop n dev io buf (Suc k) t"
    by (simp add: t_def mult.commute)
  have "\<exists>t'. read_sector_loop n dev io buf (Suc k) t = (True, t') \<and>
    disk_in d0 t' io = (disk_in d0 t io)\<lparr>d_pos := p + 256 * (Suc k + n), d_left := 0\<rparr> \<and>
    vmem t' = filled m0 buf (\<lambda>j. sbyte (d_store (disk_in d0 t io)) (2 * p + j)) (512 * (Suc k + n)) \<and>
    xfer_only t t'"
    by (rule Suc.IH) (use t(1,2) Suc.prems in \<open>simp_all add: algebra_simps\<close>)
  then show ?case using t u(3) unfolding r by (auto intro: xfer_only_trans)
qed

lemma write_word_disk:
  assumes m: "d_mode (disk_in d0 s io) = Writing" and l: "d_left (disk_in d0 s io) > 0"
  shows "disk_in d0 (write_word io buf i s) io = (disk_in d0 s io)\<lparr>
      d_store := (d_store (disk_in d0 s io))(d_pos (disk_in d0 s io) := load16 (buf + of_nat (2 * i)) s),
      d_pos := d_pos (disk_in d0 s io) + 1, d_left := d_left (disk_in d0 s io) - 1\<rparr>"
    "vmem (write_word io buf i s) = vmem s" "xfer_only s (write_word io buf i s)"
  using m l by (simp_all add: write_word_def outw_def disk_step_def xfer_only_def c_consts)

text \<open>The words of the medium from word \<open>p\<close> on are replaced by \<open>n\<close> words of memory.\<close>

definition written :: "(nat \<Rightarrow> u16) \<Rightarrow> nat \<Rightarrow> (nat \<Rightarrow> u16) \<Rightarrow> nat \<Rightarrow> nat \<Rightarrow> u16" where
  "written st p src n = (\<lambda>q. if p \<le> q \<and> q < p + n then src (q - p) else st q)"

lemma written_Suc: "(written st p src n)(p + n := src n) = written st p src (Suc n)"
  by (auto simp: written_def fun_eq_iff less_Suc_eq)

lemma write_words_disk:
  assumes m: "d_mode (disk_in d0 s io) = Writing" and l: "n \<le> d_left (disk_in d0 s io)"
    and src: "\<And>j. load16 (buf + of_nat (2 * j)) s = src j"
    and st: "d_store (disk_in d0 s io) = written st0 p src i"
    and p: "d_pos (disk_in d0 s io) = p + i"
  defines "t \<equiv> fold (write_word io buf) [i..<i + n] s"
  shows "disk_in d0 t io = (disk_in d0 s io)\<lparr>
      d_store := written st0 p src (i + n), d_pos := p + (i + n), d_left := d_left (disk_in d0 s io) - n\<rparr> \<and>
    vmem t = vmem s \<and> xfer_only s t"
  unfolding t_def using l
proof (induction n)
  case 0
  have "disk_in d0 s io = (disk_in d0 s io)\<lparr>d_store := written st0 p src i, d_pos := p + i\<rparr>"
    using st p by simp
  then show ?case by simp
next
  case (Suc n)
  define u where "u = fold (write_word io buf) [i..<i + n] s"
  have u: "disk_in d0 u io = (disk_in d0 s io)\<lparr>
      d_store := written st0 p src (i + n), d_pos := p + (i + n), d_left := d_left (disk_in d0 s io) - n\<rparr>"
    "vmem u = vmem s" "xfer_only s u"
    using Suc unfolding u_def by auto
  have f: "fold (write_word io buf) [i..<i + Suc n] s = write_word io buf (i + n) u" by (simp add: u_def)
  have "d_mode (disk_in d0 u io) = Writing" "d_left (disk_in d0 u io) > 0" using u m Suc.prems by simp_all
  note w = write_word_disk [OF this, of buf "i + n"]
  have ld: "load16 (buf + of_nat (2 * (i + n))) u = src (i + n)"
    using src [of "i + n"] by (simp add: load16_def u(2))
  have "disk_in d0 (write_word io buf (i + n) u) io = (disk_in d0 s io)\<lparr>
      d_store := written st0 p src (i + Suc n), d_pos := p + (i + Suc n), d_left := d_left (disk_in d0 s io) - Suc n\<rparr>"
    using w(1) [unfolded ld] written_Suc [of st0 p src "i + n"] by (simp add: u(1))
  then show ?case using w(2) u(2) xfer_only_trans [OF u(3) w(3)] unfolding f by simp
qed

lemma write_loop_disk:
  assumes dev: "drive_at io d0 dev" and m: "d_mode (disk_in d0 s io) = Writing"
    and l: "d_left (disk_in d0 s io) = n * 256"
    and src: "\<And>j. load16 (buf + of_nat (2 * j)) s = src j"
    and st: "d_store (disk_in d0 s io) = written st0 p src (256 * k)"
    and p: "d_pos (disk_in d0 s io) = p + 256 * k"
  shows "\<exists>t. write_sector_loop n dev io buf k s = Some t \<and>
    d_store (disk_in d0 t io) = written st0 p src (256 * (k + n)) \<and> vmem t = vmem s \<and> xfer_only s t"
  using m l src st p
proof (induction n arbitrary: k s)
  case (Suc n)
  define u where "u = polled dev io s"
  define t where "t = fold (write_word io buf) [256 * k..<256 * k + 256] u"
  have u: "disk_in d0 u io = disk_in d0 s io" "vmem u = vmem s" "xfer_only s u" by (simp_all add: u_def)
  have lu: "load16 (buf + of_nat (2 * j)) u = src j" for j
    using Suc.prems(3) [of j] by (simp add: load16_def u(2))
  have t: "disk_in d0 t io = (disk_in d0 s io)\<lparr>
      d_store := written st0 p src (256 * Suc k), d_pos := p + 256 * Suc k, d_left := n * 256\<rparr>"
    "vmem t = vmem s" "xfer_only u t"
    using write_words_disk [of io d0 u 256 buf src st0 p "256 * k", OF _ _ lu, folded t_def] Suc.prems u(1,2)
    by (auto simp: algebra_simps)
  have lt: "load16 (buf + of_nat (2 * j)) t = src j" for j
    using Suc.prems(3) [of j] by (simp add: load16_def t(2))
  have "ata_wait_drq dev io s = Some u"
    unfolding u_def by (rule waits(3) [OF dev]) (use Suc.prems in simp)
  then have r: "write_sector_loop (Suc n) dev io buf k s = write_sector_loop n dev io buf (Suc k) t"
    by (simp add: t_def mult.commute)
  have "\<exists>t'. write_sector_loop n dev io buf (Suc k) t = Some t' \<and>
    d_store (disk_in d0 t' io) = written st0 p src (256 * (Suc k + n)) \<and> vmem t' = vmem t \<and> xfer_only t t'"
    by (rule Suc.IH [OF _ _ lt]) (use t(1) Suc.prems in simp_all)
  then show ?case using t(2,3) u(3) unfolding r by (auto intro: xfer_only_trans)
qed auto

text \<open>Drive 0 is the master of the controller at \<open>io\<close>, and behaves as a drive.\<close>

definition disk_ready :: "device \<Rightarrow> u16 \<Rightarrow> disk \<Rightarrow> 'a ata_state_scheme \<Rightarrow> bool" where
  "disk_ready dev io d0 s \<longleftrightarrow>
     drive_at io d0 dev \<and> present (drives s 0) \<and> io_base (drives s 0) = io \<and>
     drive_select (drives s 0) = ATA_MASTER"

abbreviation medium :: "disk \<Rightarrow> 'a ata_state_scheme \<Rightarrow> u16 \<Rightarrow> nat \<Rightarrow> u16" where
  "medium d0 s io \<equiv> d_store (disk_in d0 s io)"

lemma disk_ready_xfer: "disk_ready dev io d0 s \<Longrightarrow> xfer_only s t \<Longrightarrow> disk_ready dev io d0 t"
  by (cases s; cases t) (simp add: disk_ready_def xfer_only_def)

lemma command_only [simp]: "xfer_only s (ata_command d lba count cmd s)"
  "vmem (ata_command d lba count cmd s) = vmem s"
  by (simp_all add: xfer_only_def ata_command_def Let_def outb_def)

lemma ata_read_spec:
  assumes rdy: "disk_ready dev io d0 s" and lba: "unat lba < 2 ^ 28" and cnt: "count \<noteq> 0"
  shows "\<exists>t. ata_read_sectors dev 0 lba count buf s = Some (True, t) \<and> xfer_only s t \<and>
    medium d0 t io = medium d0 s io \<and>
    vmem t = filled (vmem s) buf (\<lambda>j. sbyte (medium d0 s io) (unat lba * 512 + j)) (unat count * 512)"
proof -
  define d where "d = drives s 0"
  have dev: "drive_at io d0 dev" and d: "present d" "io_base d = io" "drive_select d = ATA_MASTER"
    using rdy by (simp_all add: disk_ready_def d_def)
  define u where "u = ata_command d lba count ATA_CMD_READ_PIO (polled dev io s)"
  have cmd: "ATA_CMD_READ_PIO = 0x20" by (simp add: c_consts)
  note c = command_disk [OF d(2,3) lba cnt, where ?d0.0 = d0 and s = "polled dev io s"]
  have u: "d_mode (disk_in d0 u io) = Reading" "d_pos (disk_in d0 u io) = unat lba * 256"
    "d_left (disk_in d0 u io) = unat count * 256" "medium d0 u io = medium d0 s io"
    "vmem u = vmem s" "xfer_only s u"
    using c(1) c(3-5) [where cmd = "0x20"] xfer_only_trans [OF xfer_only_polled command_only(1)]
    by (simp_all add: u_def cmd)
  have "unat count < 256" using unsigned_less [where 'a = nat and w = count] by simp
  then have small: "512 * (0 + unat count) < 2 ^ 32" by simp
  have "vmem u = filled (vmem s) buf (\<lambda>j. sbyte (medium d0 u io) (2 * (unat lba * 256) + j)) (512 * 0)"
    by (simp add: u(5) filled_def)
  from read_loop_disk [OF dev u(1,3) small this] u(2)
  obtain t where t: "read_sector_loop (unat count) dev io buf 0 u = (True, t)"
    "disk_in d0 t io = (disk_in d0 u io)\<lparr>d_pos := unat lba * 256 + 256 * (0 + unat count), d_left := 0\<rparr>"
    "vmem t = filled (vmem s) buf (\<lambda>j. sbyte (medium d0 u io) (2 * (unat lba * 256) + j)) (512 * (0 + unat count))"
    "xfer_only u t" by auto
  have "ata_read_sectors dev 0 lba count buf s = Some (True, t)"
    using t(1) d(1,2) waits(1) [OF dev, of s]
    by (simp add: ata_read_sectors_def d_def [symmetric] u_def [symmetric] MAX_DRIVES_def Let_def)
  then show ?thesis using t u(4) xfer_only_trans [OF u(6) t(4)] by (simp add: mult.commute)
qed

lemma ata_write_spec:
  assumes rdy: "disk_ready dev io d0 s" and lba: "unat lba < 2 ^ 28" and cnt: "count \<noteq> 0"
  shows "\<exists>t. ata_write_sectors dev 0 lba count buf s = Some (True, t) \<and> xfer_only s t \<and>
    vmem t = vmem s \<and>
    medium d0 t io = written (medium d0 s io) (unat lba * 256) (\<lambda>j. load16 (buf + of_nat (2 * j)) s) (unat count * 256)"
proof -
  define d where "d = drives s 0"
  define src where "src = (\<lambda>j. load16 (buf + of_nat (2 * j)) s)"
  have dev: "drive_at io d0 dev" and d: "present d" "io_base d = io" "drive_select d = ATA_MASTER"
    using rdy by (simp_all add: disk_ready_def d_def)
  define u where "u = ata_command d lba count ATA_CMD_WRITE_PIO (polled dev io s)"
  have cmd: "ATA_CMD_WRITE_PIO = 0x30" by (simp add: c_consts)
  note c = command_disk [OF d(2,3) lba cnt, where ?d0.0 = d0 and s = "polled dev io s"]
  have u: "d_mode (disk_in d0 u io) = Writing" "d_pos (disk_in d0 u io) = unat lba * 256 + 256 * 0"
    "d_left (disk_in d0 u io) = unat count * 256" "medium d0 u io = medium d0 s io"
    "vmem u = vmem s" "xfer_only s u"
    using c(2) c(3-5) [where cmd = "0x30"] xfer_only_trans [OF xfer_only_polled command_only(1)]
    by (simp_all add: u_def cmd)
  have src_u: "load16 (buf + of_nat (2 * j)) u = src j" for j by (simp add: src_def load16_def u(5))
  have "medium d0 u io = written (medium d0 s io) (unat lba * 256) src (256 * 0)"
    by (auto simp: u(4) written_def fun_eq_iff)
  from write_loop_disk [OF dev u(1,3) src_u this u(2)]
  obtain t where t: "write_sector_loop (unat count) dev io buf 0 u = Some t"
    "medium d0 t io = written (medium d0 s io) (unat lba * 256) src (256 * (0 + unat count))"
    "vmem t = vmem u" "xfer_only u t" by auto
  define f where "f = polled dev io (outb (io + ATA_REG_COMMAND) ATA_CMD_FLUSH t)"
  have f: "vmem f = vmem t" "medium d0 f io = medium d0 t io"
    by (simp_all add: f_def outb_def disk_step_def disk_command_def Let_def c_consts)
  have "xfer_only t (outb (io + ATA_REG_COMMAND) ATA_CMD_FLUSH t)" by (simp add: xfer_only_def outb_def)
  then have fo: "xfer_only t f" unfolding f_def by (rule xfer_only_trans) simp
  have "ata_write_sectors dev 0 lba count buf s = Some (True, f)"
    using t(1) d(1,2) waits(1) [OF dev, of s] waits(1) [OF dev, of "outb (io + ATA_REG_COMMAND) ATA_CMD_FLUSH t"]
    by (simp add: ata_write_sectors_def d_def [symmetric] u_def [symmetric] f_def [symmetric] MAX_DRIVES_def Let_def)
  moreover have "xfer_only s f" by (rule xfer_only_trans [OF u(6) xfer_only_trans [OF t(4) fo]])
  moreover have "medium d0 f io = written (medium d0 s io) (unat lba * 256) src (unat count * 256)"
    using t(2) f(2) by (simp add: mult.commute)
  ultimately show ?thesis using f(1) t(3) u(5) by (auto simp: src_def)
qed

lemma load16_bytes:
  "ucast (load16 a s) = vmem s a" "ucast (drop_bit 8 (load16 a s)) = vmem s (a + 1)"
  by (auto simp: load16_def bit_eq_iff bit_simps dest: bit_imp_le_length)

lemma sbyte_written:
  assumes j: "j < 2 * n"
  shows "sbyte (written st p (\<lambda>i. load16 (buf + of_nat (2 * i)) s) n) (2 * p + j) = vmem s (buf + of_nat j)"
proof -
  have h: "(2 * p + j) div 2 = p + j div 2" "j div 2 < n" using j by auto
  show ?thesis
  proof (cases "even j")
    case True
    then have "2 * (j div 2) = j" by simp
    then show ?thesis
      using True h load16_bytes(1) [of "buf + of_nat j" s] by (simp add: sbyte_def written_def del: of_nat_mult)
  next
    case False
    then have "2 * (j div 2) + 1 = j" by simp
    then have "buf + of_nat (2 * (j div 2)) + 1 = buf + of_nat j" by (metis add.assoc of_nat_1 of_nat_add)
    then show ?thesis
      using False h load16_bytes(2) [of "buf + of_nat (2 * (j div 2))" s]
      by (simp add: sbyte_def written_def add.assoc del: of_nat_mult odd_two_times_div_two_nat)
  qed
qed

subsection \<open>Properties of the disk driver\<close>

definition demo_disk :: disk where
  "demo_disk = \<lparr>d_sel = 0, d_cnt = 0, d_lo = 0, d_mid = 0, d_hi = 0, d_mode = Idle, d_pos = 0,
     d_left = 0, d_store = \<lambda>n. of_nat n\<rparr>"

text \<open>The drive of the witnesses: the protocol machine itself, with a serial port that is ready.\<close>

definition demo_dev :: device where
  "demo_dev h port =
     (let d = disk_of 0x1F0 demo_disk h
      in if port = 0x1F7 then (if d_left d > 0 then 0x48 else 0x40)
         else if port = 0x1F0 then d_store d (d_pos d) else 0x20)"

definition demo_drive :: ata_drive where
  "demo_drive = \<lparr>present = True, is_atapi = False, io_base = 0x1F0, ctrl_base = 0x3F6, drive_select = 0,
     sectors = 1000, model = \<lambda>_. NUL, serial = \<lambda>_. NUL\<rparr>"

definition demo_ata :: ata_state where
  "demo_ata = proc_state.extend demo_proc
     \<lparr>vmem = \<lambda>_. 0, drives = (\<lambda>_. demo_drive\<lparr>present := False\<rparr>)(0 := demo_drive), drive_count = 1\<rparr>"

lemma demo_drive_at: "drive_at 0x1F0 demo_disk demo_dev"
  unfolding drive_at_def Let_def by (auto simp: demo_dev_def Let_def bit_numeral_rec)

lemma demo_ata_ready: "disk_ready demo_dev 0x1F0 demo_disk demo_ata" "io_log demo_ata = io_log demo_proc"
  "vmem demo_ata = (\<lambda>_. 0)"
  using demo_drive_at
  by (simp_all add: disk_ready_def demo_ata_def proc_state.extend_def demo_drive_def c_consts)



text \<open>
  C29: what \<open>ata_write_sectors\<close> writes, \<open>ata_read_sectors\<close> reads back: after a write the medium
  holds the buffer in the addressed sectors and is unchanged elsewhere, and reading the same
  sectors into any buffer gives the bytes that were in the source buffer.
\<close>

theorem ata_write_read_roundtrip:
  assumes rdy: "disk_ready dev io d0 s" and lba: "unat lba < 2 ^ 28" and cnt: "count \<noteq> 0"
  shows "\<exists>t u. ata_write_sectors dev 0 lba count src s = Some (True, t) \<and>
    (\<forall>q. q < unat lba * 256 \<or> q \<ge> (unat lba + unat count) * 256 \<longrightarrow>
       medium d0 t io q = medium d0 s io q) \<and>
    ata_read_sectors dev 0 lba count dst t = Some (True, u) \<and>
    (\<forall>j < unat count * 512. vmem u (dst + of_nat j) = vmem s (src + of_nat j))"
proof -
  let ?src = "\<lambda>i. load16 (src + of_nat (2 * i)) s"
  from ata_write_spec [OF assms, of src] obtain t where t:
    "ata_write_sectors dev 0 lba count src s = Some (True, t)" "xfer_only s t"
    "medium d0 t io = written (medium d0 s io) (unat lba * 256) ?src (unat count * 256)" by blast
  have "disk_ready dev io d0 t" by (rule disk_ready_xfer [OF rdy t(2)])
  from ata_read_spec [OF this lba cnt, of dst] obtain u where u:
    "ata_read_sectors dev 0 lba count dst t = Some (True, u)"
    "vmem u = filled (vmem t) dst (\<lambda>j. sbyte (medium d0 t io) (unat lba * 512 + j)) (unat count * 512)" by blast
  have "vmem u (dst + of_nat j) = vmem s (src + of_nat j)" if j: "j < unat count * 512" for j
  proof -
    have "unat count < 256" using unsigned_less [where 'a = nat and w = count] by simp
    then have "unat (of_nat j :: u32) = j" using j by (intro unat_of_nat_u32) simp
    then have "vmem u (dst + of_nat j) = sbyte (medium d0 t io) (2 * (unat lba * 256) + j)"
      using j by (simp add: u(2) filled_def mult.commute)
    also have "\<dots> = vmem s (src + of_nat j)"
      unfolding t(3) using j by (intro sbyte_written) simp
    finally show ?thesis .
  qed
  moreover have "medium d0 t io q = medium d0 s io q"
    if "q < unat lba * 256 \<or> q \<ge> (unat lba + unat count) * 256" for q
    using that by (auto simp: t(3) written_def)
  ultimately show ?thesis using t(1) u(1) by blast
qed

theorem ata_write_read_roundtrip_witness:
  "\<exists>t u. ata_write_sectors demo_dev 0 7 1 0x5000 demo_ata = Some (True, t) \<and>
     ata_read_sectors demo_dev 0 7 1 0x9000 t = Some (True, u) \<and>
     (\<forall>j < 512. vmem u (0x9000 + of_nat j) = 0)"
  using ata_write_read_roundtrip [OF demo_ata_ready(1), of 7 1 "0x5000" "0x9000"]
  by (auto simp: demo_ata_ready(3))

lemma floating_bus_busy: "ata_wait_bsy (\<lambda>_ _. 0xFFFF) io s = None"
proof -
  have "dev \<noteq> (\<lambda>_ _. 0xFFFF)" if "ata_wait_bsy dev io s = Some t" for dev and t :: "'a io_state_scheme"
    using that
    by (rule ata_wait_bsy.raw_induct [rotated]) (auto simp: inb_def Let_def c_consts split: if_splits)
  then show ?thesis by (cases "ata_wait_bsy (\<lambda>_ _. 0xFFFF) io s") blast+
qed

text \<open>
  C32: on a machine without a disk controller, where every port reads as ones, \<open>ata_init\<close> does not
  return: the status 0xFF is taken for a busy drive and \<open>ata_wait_bsy\<close> has no bound.
\<close>

theorem ata_init_floating_bus_hangs: "ata_init (\<lambda>_ _. 0xFFFF) s = None"
  by (simp add: ata_init_def ata_identify_def Let_def inb_def floating_bus_busy)

lemma poll_ready_gives_up:
  assumes "\<And>h. \<not> bit (dev h (io + 7)) 3"
  shows "\<exists>t. poll_ready n dev io s = (False, t) \<and> t = s\<lparr>io_log := io_log t\<rparr>"
proof (induction n arbitrary: s)
  case (Suc n)
  obtain st u where p: "inb dev (io + ATA_REG_STATUS) s = (st, u)" by fastforce
  then have st: "st AND ATA_SR_DRQ = 0" and u: "u = s\<lparr>io_log := io_log u\<rparr>"
    using assms [of "io_log s"] status_bits(2) [of st]
    by (auto simp: inb_def Let_def c_consts bit_simps)
  obtain t where t: "poll_ready n dev io u = (False, t)" "t = u\<lparr>io_log := io_log t\<rparr>" using Suc by blast
  have "t = s\<lparr>io_log := io_log t\<rparr>" by (subst t(2), subst u) simp
  then show ?case using t(1) u by (simp add: p st)
qed simp



end
