(* ===== verification/Vfs.thy ===== *)
theory Vfs
  imports Ata
begin

text \<open>
  The virtual file system switch (\<^verbatim>\<open>src/src/vfs.c\<close>, \<^verbatim>\<open>src/src/vfs.h\<close>). A node lives in kernel memory:
  the store \<open>fnodes\<close> from addresses to nodes (and \<open>dirents\<close> for directory entries), with address 0
  readable like any other, because the kernel maps the first page. What a freshly allocated node
  holds before it is filled in is whatever the store holds there. The functions a node points to
  belong to the file system; what calling them does is the parameter \<open>call\<close>. A call that does not
  return, because it loops for ever or ends in a processor exception, is \<^const>\<open>None\<close>.
\<close>

subsection \<open>Data\<close>

definition FS_FILE :: u32 where [c_consts]: "FS_FILE = 0x01"
definition FS_DIRECTORY :: u32 where [c_consts]: "FS_DIRECTORY = 0x02"

text \<open>The functions a node can point to; \<open>FS_Other\<close> is any other address.\<close>

datatype fs_fn = FS_Null | Fat32_Read | Fat32_Readdir | Fat32_Finddir | FS_Other u32

record fs_node =
  n_name :: string
  n_mask :: u32
  n_uid :: u32
  n_gid :: u32
  n_flags :: u32
  n_inode :: u32
  n_length :: u32
  n_impl :: u32
  n_read :: fs_fn
  n_write :: fs_fn
  n_open :: fs_fn
  n_close :: fs_fn
  n_readdir :: fs_fn
  n_finddir :: fs_fn
  n_ptr :: u32

record dirent =
  de_name :: string
  de_inode :: u32

definition sizeof_fs_node :: u32 where [c_consts]: "sizeof_fs_node = 184"
definition sizeof_dirent :: u32 where [c_consts]: "sizeof_dirent = 132"

record vfs_state = ata_state +
  fs_root :: u32
  fnodes :: "u32 \<Rightarrow> fs_node"
  dirents :: "u32 \<Rightarrow> dirent"

subsection \<open>Dispatch\<close>

definition vfs_read ::
  "(fs_fn \<Rightarrow> u32 \<Rightarrow> u32 \<Rightarrow> u32 \<Rightarrow> u32 \<Rightarrow> 'a vfs_state_scheme \<Rightarrow> (u32 \<times> 'a vfs_state_scheme) option) \<Rightarrow>
   u32 \<Rightarrow> u32 \<Rightarrow> u32 \<Rightarrow> u32 \<Rightarrow> 'a vfs_state_scheme \<Rightarrow> (u32 \<times> 'a vfs_state_scheme) option" where
  "vfs_read call node offset sz buffer s =
     (let f = n_read (fnodes s node)
      in if f \<noteq> FS_Null then call f node offset sz buffer s else Some (0, s))"

definition vfs_write ::
  "(fs_fn \<Rightarrow> u32 \<Rightarrow> u32 \<Rightarrow> u32 \<Rightarrow> u32 \<Rightarrow> 'a vfs_state_scheme \<Rightarrow> (u32 \<times> 'a vfs_state_scheme) option) \<Rightarrow>
   u32 \<Rightarrow> u32 \<Rightarrow> u32 \<Rightarrow> u32 \<Rightarrow> 'a vfs_state_scheme \<Rightarrow> (u32 \<times> 'a vfs_state_scheme) option" where
  "vfs_write call node offset sz buffer s =
     (let f = n_write (fnodes s node)
      in if f \<noteq> FS_Null then call f node offset sz buffer s else Some (0, s))"

definition vfs_open ::
  "(fs_fn \<Rightarrow> u32 \<Rightarrow> 'a vfs_state_scheme \<Rightarrow> 'a vfs_state_scheme option) \<Rightarrow>
   u32 \<Rightarrow> u8 \<Rightarrow> u8 \<Rightarrow> 'a vfs_state_scheme \<Rightarrow> 'a vfs_state_scheme option" where
  "vfs_open call node read write s =
     (let f = n_open (fnodes s node) in if f \<noteq> FS_Null then call f node s else Some s)"

definition vfs_close ::
  "(fs_fn \<Rightarrow> u32 \<Rightarrow> 'a vfs_state_scheme \<Rightarrow> 'a vfs_state_scheme option) \<Rightarrow>
   u32 \<Rightarrow> 'a vfs_state_scheme \<Rightarrow> 'a vfs_state_scheme option" where
  "vfs_close call node s =
     (let f = n_close (fnodes s node) in if f \<noteq> FS_Null then call f node s else Some s)"

definition vfs_readdir ::
  "(fs_fn \<Rightarrow> u32 \<Rightarrow> u32 \<Rightarrow> 'a vfs_state_scheme \<Rightarrow> (u32 \<times> 'a vfs_state_scheme) option) \<Rightarrow>
   u32 \<Rightarrow> u32 \<Rightarrow> 'a vfs_state_scheme \<Rightarrow> (u32 \<times> 'a vfs_state_scheme) option" where
  "vfs_readdir call node index s =
     (let n = fnodes s node
      in if n_flags n AND 0x7 = FS_DIRECTORY \<and> n_readdir n \<noteq> FS_Null
         then call (n_readdir n) node index s else Some (0, s))"

definition vfs_finddir ::
  "(fs_fn \<Rightarrow> u32 \<Rightarrow> string \<Rightarrow> 'a vfs_state_scheme \<Rightarrow> (u32 \<times> 'a vfs_state_scheme) option) \<Rightarrow>
   u32 \<Rightarrow> string \<Rightarrow> 'a vfs_state_scheme \<Rightarrow> (u32 \<times> 'a vfs_state_scheme) option" where
  "vfs_finddir call node name s =
     (let n = fnodes s node
      in if n_flags n AND 0x7 = FS_DIRECTORY \<and> n_finddir n \<noteq> FS_Null
         then call (n_finddir n) node name s else Some (0, s))"

end
