(* ===== verification/Fat32.thy ===== *)
theory Fat32
  imports Vfs
begin

text \<open>
  The FAT32 file system, read only (\<^verbatim>\<open>src/src/fat32.c\<close>, \<^verbatim>\<open>src/src/fat32.h\<close>). On-disk structures are
  read byte by byte from the buffers that the disk driver fills. Dividing by a sector size of 0
  raises a processor exception, so the call does not return (\<^const>\<open>None\<close>); loops over cluster
  chains may not end either.
\<close>

subsection \<open>On-disk structures\<close>

definition load32 :: "u32 \<Rightarrow> 'a ata_state_scheme \<Rightarrow> u32" where
  "load32 a s = ucast (load16 a s) OR push_bit 16 (ucast (load16 (a + 2) s))"

record fat_bpb =
  jmp_boot :: "u8 list"
  oem_name :: "u8 list"
  bytes_per_sector :: u16
  sectors_per_cluster :: u8
  reserved_sectors :: u16
  num_fats :: u8
  root_entry_count :: u16
  total_sectors_16 :: u16
  media :: u8
  fat_size_16 :: u16
  sectors_per_track :: u16
  num_heads :: u16
  hidden_sectors :: u32
  total_sectors_32 :: u32
  fat_size_32 :: u32
  ext_flags :: u16
  fs_version :: u16
  bpb_root_cluster :: u32
  fs_info :: u16
  backup_boot_sector :: u16
  bpb_reserved :: "u8 list"
  drive_number :: u8
  reserved1 :: u8
  boot_signature :: u8
  volume_id :: u32
  volume_label :: "u8 list"
  fs_type :: "u8 list"

definition load_bytes :: "u32 \<Rightarrow> nat \<Rightarrow> 'a ata_state_scheme \<Rightarrow> u8 list" where
  "load_bytes p n s = map (\<lambda>k. vmem s (p + of_nat k)) [0..<n]"

text \<open>The copy \<open>bpb = *bpb_ptr\<close> of the packed structure at an address.\<close>

definition read_bpb :: "u32 \<Rightarrow> 'a ata_state_scheme \<Rightarrow> fat_bpb" where
  "read_bpb p s =
     \<lparr>jmp_boot = load_bytes p 3 s, oem_name = load_bytes (p + 3) 8 s,
      bytes_per_sector = load16 (p + 11) s, sectors_per_cluster = vmem s (p + 13),
      reserved_sectors = load16 (p + 14) s, num_fats = vmem s (p + 16),
      root_entry_count = load16 (p + 17) s, total_sectors_16 = load16 (p + 19) s,
      media = vmem s (p + 21), fat_size_16 = load16 (p + 22) s,
      sectors_per_track = load16 (p + 24) s, num_heads = load16 (p + 26) s,
      hidden_sectors = load32 (p + 28) s, total_sectors_32 = load32 (p + 32) s,
      fat_size_32 = load32 (p + 36) s, ext_flags = load16 (p + 40) s, fs_version = load16 (p + 42) s,
      bpb_root_cluster = load32 (p + 44) s, fs_info = load16 (p + 48) s,
      backup_boot_sector = load16 (p + 50) s, bpb_reserved = load_bytes (p + 52) 12 s,
      drive_number = vmem s (p + 64), reserved1 = vmem s (p + 65), boot_signature = vmem s (p + 66),
      volume_id = load32 (p + 67) s, volume_label = load_bytes (p + 71) 11 s,
      fs_type = load_bytes (p + 82) 8 s\<rparr>"

record fat_dir_entry =
  e_name :: "u8 list"
  e_attr :: u8
  e_nt_res :: u8
  e_crt_time_tenth :: u8
  e_crt_time :: u16
  e_crt_date :: u16
  e_lst_acc_date :: u16
  e_clus_hi :: u16
  e_wrt_time :: u16
  e_wrt_date :: u16
  e_clus_lo :: u16
  e_size :: u32

definition sizeof_dir_entry :: u32 where [c_consts]: "sizeof_dir_entry = 32"

text \<open>Entry \<open>i\<close> of the packed array at \<open>p\<close>.\<close>

definition dir_entry :: "u32 \<Rightarrow> nat \<Rightarrow> 'a ata_state_scheme \<Rightarrow> fat_dir_entry" where
  "dir_entry p i s =
     (let e = p + of_nat i * sizeof_dir_entry
      in \<lparr>e_name = load_bytes e 11 s, e_attr = vmem s (e + 11), e_nt_res = vmem s (e + 12),
          e_crt_time_tenth = vmem s (e + 13), e_crt_time = load16 (e + 14) s,
          e_crt_date = load16 (e + 16) s, e_lst_acc_date = load16 (e + 18) s,
          e_clus_hi = load16 (e + 20) s, e_wrt_time = load16 (e + 22) s, e_wrt_date = load16 (e + 24) s,
          e_clus_lo = load16 (e + 26) s, e_size = load32 (e + 28) s\<rparr>)"

definition ATTR_DIRECTORY :: u8 where [c_consts]: "ATTR_DIRECTORY = 0x10"
definition ATTR_LONG_NAME :: u8 where [c_consts]: "ATTR_LONG_NAME = 0x0F"

record fat_state = vfs_state +
  bpb :: fat_bpb
  fat_start_sector :: u32
  data_start_sector :: u32
  root_cluster :: u32

text \<open>The file has its own copy of the number formatting of \<^verbatim>\<open>kernel.c\<close>.\<close>

definition uitoa_simple :: "u32 \<Rightarrow> string" where
  "uitoa_simple value = (if value = 0 then ''0'' else rev (uitoa_tmp value))"

subsection \<open>Clusters\<close>

definition read_cluster ::
  "device \<Rightarrow> u32 \<Rightarrow> u32 \<Rightarrow> 'a fat_state_scheme \<Rightarrow> (bool \<times> 'a fat_state_scheme) option" where
  "read_cluster dev cluster buffer s =
     (let lba = data_start_sector s + (cluster - 2) * ucast (sectors_per_cluster (bpb s))
      in ata_read_sectors dev 0 lba (sectors_per_cluster (bpb s)) buffer s)"

definition get_next_cluster ::
  "device \<Rightarrow> u32 \<Rightarrow> 'a fat_state_scheme \<Rightarrow> (u32 \<times> 'a fat_state_scheme) option" where
  "get_next_cluster dev cluster s =
     (let fat_offset = cluster * 4;
          bps = ucast (bytes_per_sector (bpb s))
      in if bps = 0 then None
         else let fat_sector = fat_start_sector s + fat_offset div bps;
                  ent_offset = fat_offset mod bps
              in do {
                (buffer, s) \<leftarrow> kmalloc 512 s;
                (ok, s) \<leftarrow> ata_read_sectors dev 0 fat_sector 1 buffer s;
                if \<not> ok then Some (0x0FFFFFFF, kfree buffer s)
                else let next_cluster = load32 (buffer + ent_offset) s AND 0x0FFFFFFF
                     in Some (next_cluster, kfree buffer s)
              })"

definition cluster_size :: "'a fat_state_scheme \<Rightarrow> u32" where
  "cluster_size s = ucast (sectors_per_cluster (bpb s)) * ucast (bytes_per_sector (bpb s))"

subsection \<open>Reading a file\<close>

text \<open>Following the chain up to the offset: \<open>None\<close> inside the result is the early return.\<close>

partial_function (option) skip_clusters ::
  "device \<Rightarrow> u32 \<Rightarrow> u32 \<Rightarrow> u32 \<Rightarrow> 'a fat_state_scheme \<Rightarrow>
   ((u32 \<times> u32) option \<times> 'a fat_state_scheme) option" where
  "skip_clusters dev csize cluster offset s =
     (if offset \<ge> csize then
        Option.bind (get_next_cluster dev cluster s) (\<lambda>r.
          if fst r \<ge> 0x0FFFFFF8 then Some (None, snd r)
          else skip_clusters dev csize (fst r) (offset - csize) (snd r))
      else Some (Some (cluster, offset), s))"

definition copy_bytes :: "u32 \<Rightarrow> u32 \<Rightarrow> nat \<Rightarrow> 'a ata_state_scheme \<Rightarrow> 'a ata_state_scheme" where
  "copy_bytes dst src n s =
     fold (\<lambda>i s. s\<lparr>vmem := (vmem s)(dst + of_nat i := vmem s (src + of_nat i))\<rparr>) [0..<n] s"

partial_function (option) read_loop ::
  "device \<Rightarrow> u32 \<Rightarrow> u32 \<Rightarrow> u32 \<Rightarrow> u32 \<Rightarrow> u32 \<Rightarrow> u32 \<Rightarrow> u32 \<Rightarrow> 'a fat_state_scheme \<Rightarrow>
   (u32 \<times> 'a fat_state_scheme) option" where
  "read_loop dev csize cbuf buffer cluster offset sz read_size s =
     (if sz > 0 then
        Option.bind (read_cluster dev cluster cbuf s) (\<lambda>r.
          if \<not> fst r then Some (read_size, snd r)
          else
            let chunk = (if csize - offset > sz then sz else csize - offset);
                t = copy_bytes (buffer + read_size) (cbuf + offset) (unat chunk) (snd r);
                read_size = read_size + chunk;
                sz = sz - chunk
            in if sz > 0 then
                 Option.bind (get_next_cluster dev cluster t) (\<lambda>q.
                   if fst q \<ge> 0x0FFFFFF8 then Some (read_size, snd q)
                   else read_loop dev csize cbuf buffer (fst q) 0 sz read_size (snd q))
               else read_loop dev csize cbuf buffer cluster 0 sz read_size t)
      else Some (read_size, s))"

definition fat32_read ::
  "device \<Rightarrow> u32 \<Rightarrow> u32 \<Rightarrow> u32 \<Rightarrow> u32 \<Rightarrow> 'a fat_state_scheme \<Rightarrow> (u32 \<times> 'a fat_state_scheme) option" where
  "fat32_read dev node offset sz buffer s =
     (let cluster = n_inode (fnodes s node);
          csize = cluster_size s
      in do {
        (r, s) \<leftarrow> skip_clusters dev csize cluster offset s;
        case r of
          None \<Rightarrow> Some (0, s)
        | Some (cluster, offset) \<Rightarrow> do {
            (cbuf, s) \<leftarrow> kmalloc csize s;
            (n, s) \<leftarrow> read_loop dev csize cbuf buffer cluster offset sz 0 s;
            Some (n, kfree cbuf s)
          }
      })"

subsection \<open>Directories\<close>

definition name_chars :: "u8 list \<Rightarrow> string" where
  "name_chars bs = map (\<lambda>b. char_of (unat b)) (filter (\<lambda>b. b \<noteq> 0x20) bs)"

text \<open>The name in the form \<open>BASE.EXT\<close>, without the padding.\<close>

definition entry_name :: "fat_dir_entry \<Rightarrow> string" where
  "entry_name e =
     name_chars (take 8 (e_name e)) @
     (if e_name e ! 8 \<noteq> 0x20 then CHR ''.'' # name_chars (drop 8 (e_name e)) else [])"

definition entry_cluster :: "fat_dir_entry \<Rightarrow> u32" where
  "entry_cluster e = push_bit 16 (ucast (e_clus_hi e)) OR ucast (e_clus_lo e)"

definition skipped :: "fat_dir_entry \<Rightarrow> bool" where
  "skipped e \<longleftrightarrow> e_name e ! 0 = 0xE5 \<or> e_attr e AND ATTR_LONG_NAME \<noteq> 0"

text \<open>
  One cluster of a directory: the end of the directory is reached, an entry is found, or the scan
  continues with the next cluster. The first argument counts the entries that are left.
\<close>

datatype 'i scan = Dir_End | Dir_Found nat | Dir_More 'i

primrec readdir_scan ::
  "nat \<Rightarrow> u32 \<Rightarrow> nat \<Rightarrow> u32 \<Rightarrow> u32 \<Rightarrow> 'a ata_state_scheme \<Rightarrow> u32 scan" where
  "readdir_scan 0 buf i index current s = Dir_More current"
| "readdir_scan (Suc n) buf i index current s =
     (let e = dir_entry buf i s
      in if e_name e ! 0 = 0 then Dir_End
         else if skipped e then readdir_scan n buf (Suc i) index current s
         else if current = index then Dir_Found i
         else readdir_scan n buf (Suc i) index (current + 1) s)"

text \<open>The loop over the clusters of a directory; the buffer is freed on every way out.\<close>

partial_function (option) readdir_loop ::
  "device \<Rightarrow> nat \<Rightarrow> u32 \<Rightarrow> u32 \<Rightarrow> u32 \<Rightarrow> u32 \<Rightarrow> 'a fat_state_scheme \<Rightarrow>
   (u32 \<times> 'a fat_state_scheme) option" where
  "readdir_loop dev per buf cluster index current s =
     (if cluster < 0x0FFFFFF8 then
        Option.bind (read_cluster dev cluster buf s) (\<lambda>r.
          if \<not> fst r then
            Option.bind (log_info dev ''FAT32: read_cluster failed'' (snd r)) (\<lambda>t.
              Some (0, kfree buf (kfree buf t)))
          else case readdir_scan per buf 0 index current (snd r) of
            Dir_End \<Rightarrow> Some (0, kfree buf (snd r))
          | Dir_Found i \<Rightarrow>
              Option.bind (kmalloc sizeof_dirent (snd r)) (\<lambda>q.
                let e = dir_entry buf i (snd q);
                    t = (snd q)\<lparr>dirents := (dirents (snd q))(fst q :=
                          \<lparr>de_name = entry_name e, de_inode = entry_cluster e\<rparr>)\<rparr>
                in Some (fst q, kfree buf t))
          | Dir_More current \<Rightarrow>
              Option.bind (get_next_cluster dev cluster (snd r)) (\<lambda>q.
                readdir_loop dev per buf (fst q) index current (snd q)))
      else Some (0, kfree buf s))"

definition fat32_readdir ::
  "device \<Rightarrow> u32 \<Rightarrow> u32 \<Rightarrow> 'a fat_state_scheme \<Rightarrow> (u32 \<times> 'a fat_state_scheme) option" where
  "fat32_readdir dev node index s =
     (let cluster = n_inode (fnodes s node);
          csize = cluster_size s;
          per = csize div sizeof_dir_entry
      in do {
        s \<leftarrow> (if index = 0 then do {
               s \<leftarrow> log_info dev ''FAT32: readdir called'' s;
               s \<leftarrow> log_info dev ''Root cluster:'' s;
               s \<leftarrow> log_info dev (uitoa_simple cluster) s;
               s \<leftarrow> log_info dev ''Cluster size:'' s;
               log_info dev (uitoa_simple csize) s
             } else Some s);
        (buf, s) \<leftarrow> kmalloc csize s;
        if buf = 0 then do {
          s \<leftarrow> log_info dev ''FAT32: readdir OOM'' s;
          Some (0, s)
        }
        else readdir_loop dev (unat per) buf cluster index 0 s
      })"

text \<open>
  The comparison loop on NUL-terminated names; the end of a list stands for its terminator.
\<close>

fun name_match :: "string \<Rightarrow> string \<Rightarrow> bool" where
  "name_match [] [] \<longleftrightarrow> True"
| "name_match [] (b # bs) \<longleftrightarrow> b = NUL"
| "name_match (a # as) [] \<longleftrightarrow> a = NUL"
| "name_match (a # as) (b # bs) \<longleftrightarrow>
     (if a \<noteq> NUL \<or> b \<noteq> NUL then (if a \<noteq> b then False else name_match as bs) else True)"

primrec finddir_scan :: "nat \<Rightarrow> u32 \<Rightarrow> nat \<Rightarrow> string \<Rightarrow> 'a ata_state_scheme \<Rightarrow> unit scan" where
  "finddir_scan 0 buf i name s = Dir_More ()"
| "finddir_scan (Suc n) buf i name s =
     (let e = dir_entry buf i s
      in if e_name e ! 0 = 0 then Dir_End
         else if skipped e then finddir_scan n buf (Suc i) name s
         else if name_match name (entry_name e) then Dir_Found i
         else finddir_scan n buf (Suc i) name s)"

text \<open>Filling in the node of a directory entry: the other fields keep what the memory held.\<close>

definition fill_node :: "fat_dir_entry \<Rightarrow> fs_node \<Rightarrow> fs_node" where
  "fill_node e n =
     (let n = n\<lparr>n_inode := entry_cluster e, n_length := e_size e\<rparr>
      in if e_attr e AND ATTR_DIRECTORY \<noteq> 0
         then n\<lparr>n_flags := FS_DIRECTORY, n_readdir := Fat32_Readdir, n_finddir := Fat32_Finddir\<rparr>
         else n\<lparr>n_flags := FS_FILE, n_read := Fat32_Read\<rparr>)"

partial_function (option) finddir_loop ::
  "device \<Rightarrow> nat \<Rightarrow> u32 \<Rightarrow> u32 \<Rightarrow> string \<Rightarrow> 'a fat_state_scheme \<Rightarrow>
   (u32 \<times> 'a fat_state_scheme) option" where
  "finddir_loop dev per buf cluster name s =
     (if cluster < 0x0FFFFFF8 then
        Option.bind (read_cluster dev cluster buf s) (\<lambda>r.
          if \<not> fst r then Some (0, kfree buf (snd r))
          else case finddir_scan per buf 0 name (snd r) of
            Dir_End \<Rightarrow> Some (0, kfree buf (snd r))
          | Dir_Found i \<Rightarrow>
              Option.bind (kmalloc sizeof_fs_node (snd r)) (\<lambda>q.
                let e = dir_entry buf i (snd q);
                    t = (snd q)\<lparr>fnodes := (fnodes (snd q))(fst q := fill_node e (fnodes (snd q) (fst q)))\<rparr>
                in Some (fst q, kfree buf t))
          | Dir_More _ \<Rightarrow>
              Option.bind (get_next_cluster dev cluster (snd r)) (\<lambda>q.
                finddir_loop dev per buf (fst q) name (snd q)))
      else Some (0, kfree buf s))"

definition fat32_finddir ::
  "device \<Rightarrow> u32 \<Rightarrow> string \<Rightarrow> 'a fat_state_scheme \<Rightarrow> (u32 \<times> 'a fat_state_scheme) option" where
  "fat32_finddir dev node name s =
     (let cluster = n_inode (fnodes s node);
          csize = cluster_size s;
          per = csize div sizeof_dir_entry
      in do {
        (buf, s) \<leftarrow> kmalloc csize s;
        finddir_loop dev (unat per) buf cluster name s
      })"

subsection \<open>Mounting\<close>

definition fat32_init :: "device \<Rightarrow> 'a fat_state_scheme \<Rightarrow> 'a fat_state_scheme option" where
  "fat32_init dev s = do {
     s \<leftarrow> log_info dev ''FAT32: Initializing...'' s;
     (sector0, s) \<leftarrow> kmalloc 512 s;
     (ok, s) \<leftarrow> ata_read_sectors dev 0 0 1 sector0 s;
     if \<not> ok then do {
       s \<leftarrow> log_info dev ''FAT32: Failed to read boot sector'' s;
       Some (kfree sector0 s)
     }
     else
       let s = s\<lparr>bpb := read_bpb sector0 s\<rparr>;
           s = kfree sector0 s
       in if bytes_per_sector (bpb s) = 0 \<or> sectors_per_cluster (bpb s) = 0 then
            log_info dev ''FAT32: Invalid BPB (not a FAT32 volume)'' s
          else if fat_size_32 (bpb s) = 0 \<or> num_fats (bpb s) = 0 then
            log_info dev ''FAT32: Invalid FAT32 parameters'' s
          else
            let s = s\<lparr>fat_start_sector := ucast (reserved_sectors (bpb s)),
                      data_start_sector := ucast (reserved_sectors (bpb s)) +
                        ucast (num_fats (bpb s)) * fat_size_32 (bpb s),
                      root_cluster := bpb_root_cluster (bpb s)\<rparr>
            in do {
              s \<leftarrow> log_info dev ''FAT32: Volume found'' s;
              (root, s) \<leftarrow> kmalloc sizeof_fs_node s;
              let n = (fnodes s root)\<lparr>n_inode := root_cluster s, n_flags := FS_DIRECTORY,
                        n_readdir := Fat32_Readdir, n_finddir := Fat32_Finddir\<rparr>
              in Some (s\<lparr>fs_root := root, fnodes := (fnodes s)(root := n)\<rparr>)
            }
   }"

text \<open>Calls through the function pointers of a node; a call to any other address does not return.\<close>

definition call_read ::
  "device \<Rightarrow> fs_fn \<Rightarrow> u32 \<Rightarrow> u32 \<Rightarrow> u32 \<Rightarrow> u32 \<Rightarrow> 'a fat_state_scheme \<Rightarrow> (u32 \<times> 'a fat_state_scheme) option" where
  "call_read dev f = (if f = Fat32_Read then fat32_read dev else (\<lambda>_ _ _ _ _. None))"

definition call_readdir ::
  "device \<Rightarrow> fs_fn \<Rightarrow> u32 \<Rightarrow> u32 \<Rightarrow> 'a fat_state_scheme \<Rightarrow> (u32 \<times> 'a fat_state_scheme) option" where
  "call_readdir dev f = (if f = Fat32_Readdir then fat32_readdir dev else (\<lambda>_ _ _. None))"

definition call_finddir ::
  "device \<Rightarrow> fs_fn \<Rightarrow> u32 \<Rightarrow> string \<Rightarrow> 'a fat_state_scheme \<Rightarrow> (u32 \<times> 'a fat_state_scheme) option" where
  "call_finddir dev f = (if f = Fat32_Finddir then fat32_finddir dev else (\<lambda>_ _ _. None))"

end
