(* ===== verification/Fat32_Files.thy ===== *)
theory Fat32_Files
  imports Fat32
begin

text \<open>
  What reading a file means: the specification of a FAT32 volume on the medium (the chain of a
  file in the allocation table and the bytes of its clusters), and the proof that \<open>fat32_read\<close>
  delivers these bytes. The driver allocates its sector buffers on the kernel heap and frees them,
  so the first section shows that such a temporary buffer leaves the heap as it was.
\<close>

subsection \<open>Temporary buffers on the heap\<close>

text \<open>A free block of at least \<open>m\<close> bytes, header included.\<close>

definition has_room :: "nat \<Rightarrow> ablk list \<Rightarrow> bool" where
  "has_room m bs \<longleftrightarrow> (\<exists>b \<in> set bs. free b \<and> m \<le> unat (len b))"

lemma has_room_simps [simp]:
  "\<not> has_room m []"
  "has_room m (b # bs) \<longleftrightarrow> free b \<and> m \<le> unat (len b) \<or> has_room m bs"
  "has_room m (xs @ ys) \<longleftrightarrow> has_room m xs \<or> has_room m ys"
  by (auto simp: has_room_def)

text \<open>The \<open>m\<close> bytes from address \<open>a\<close> on lie in one free block.\<close>

definition has_gap :: "nat \<Rightarrow> nat \<Rightarrow> ablk list \<Rightarrow> bool" where
  "has_gap a m bs \<longleftrightarrow> (\<exists>b \<in> set bs. free b \<and> unat (adr b) \<le> a \<and> a + m \<le> unat (adr b) + unat (len b))"

lemma has_gap_simps [simp]:
  "\<not> has_gap a m []"
  "has_gap a m (b # bs) \<longleftrightarrow> free b \<and> unat (adr b) \<le> a \<and> a + m \<le> unat (adr b) + unat (len b) \<or> has_gap a m bs"
  "has_gap a m (xs @ ys) \<longleftrightarrow> has_gap a m xs \<or> has_gap a m ys"
  by (auto simp: has_gap_def)

lemma has_gap_butlast:
  "has_gap a m xs \<Longrightarrow> has_gap a m (butlast xs) \<or>
     free (last xs) \<and> unat (adr (last xs)) \<le> a \<and> a + m \<le> unat (adr (last xs)) + unat (len (last xs))"
  by (cases xs rule: rev_cases) auto

lemma has_room_gap: "has_room m bs \<longleftrightarrow> (\<exists>a. has_gap a m bs)"
  by (force simp: has_room_def has_gap_def)

lemma tiles_two:
  assumes "tiles a (xs @ b # c # ys) e" "e < 2 ^ 32"
  shows "unat (len b + len c) = unat (len b) + unat (len c)"
    "unat (adr c) = unat (adr b) + unat (len b)" "unat (adr c) + unat (len c) \<le> e"
proof -
  obtain m where t: "tiles m (b # c # ys) e" using assms(1) by (auto simp: tiles_append)
  then have "unat (adr b) + unat (len b) + unat (len c) \<le> e"
    "unat (adr c) = unat (adr b) + unat (len b)" using tiles_bounds [OF t] by auto
  then show "unat (len b + len c) = unat (len b) + unat (len c)"
    "unat (adr c) = unat (adr b) + unat (len b)" "unat (adr c) + unat (len c) \<le> e"
    using assms(2) by (simp_all add: unat_add_no_wrap)
qed

text \<open>
  Freeing a block merges it with its neighbours: every free block is still there, possibly as a
  part of a longer one.
\<close>

lemma free_abs_gap:
  assumes inv: "heap_inv s (xs @ b # ys)"
  shows "has_gap a m (xs @ ys) \<Longrightarrow> has_gap a m (free_abs xs b ys)"
    "unat (adr b) \<le> a \<Longrightarrow>
      a + m \<le> unat (adr b) + unat (len b) + (case ys of c # _ \<Rightarrow> if free c then unat (len c) else 0 | [] \<Rightarrow> 0) \<Longrightarrow>
      has_gap a m (free_abs xs b ys)"
proof -
  define n zs where "n = (case ys of c # _ \<Rightarrow> if free c then len b + len c else len b | [] \<Rightarrow> len b)"
    and "zs = (case ys of c # cs \<Rightarrow> if free c then cs else ys | [] \<Rightarrow> [])"
  let ?e = "unat (heap_start s) + unat (heap_size s)"
  have t: "tiles (unat (heap_start s)) (xs @ b # ys) ?e" "?e < 2 ^ 32"
    using inv heap_inv_mid(10) [OF inv] by (auto simp: heap_inv_def)
  have fa: "free_abs xs b ys = (if xs \<noteq> [] \<and> free (last xs)
      then butlast xs @ Blk (adr (last xs)) (len (last xs) + n) True # zs
      else xs @ Blk (adr b) n True # zs)"
    by (auto simp: free_abs_def n_def zs_def split: list.split)
  have n: "unat n = unat (len b) + (case ys of c # _ \<Rightarrow> if free c then unat (len c) else 0 | [] \<Rightarrow> 0)"
    "unat (adr b) + unat n \<le> ?e"
    using tiles_two [of "unat (heap_start s)" xs b _ _ ?e] tiles_bounds [OF t(1)] t
    by (cases ys; force simp: n_def)+
  have pv: "unat (len (last xs) + n) = unat (len (last xs)) + unat n"
    "unat (adr (last xs)) + unat (len (last xs)) = unat (adr b)" if "xs \<noteq> []"
  proof -
    have "xs @ b # ys = butlast xs @ last xs # b # ys" using that by (cases xs rule: rev_cases) auto
    then have "tiles (unat (heap_start s)) (butlast xs @ last xs # b # ys) ?e" using t(1) by (simp only:)
    from tiles_two(2) [OF this t(2)] show "unat (adr (last xs)) + unat (len (last xs)) = unat (adr b)" by simp
    then show "unat (len (last xs) + n) = unat (len (last xs)) + unat n"
      using n(2) t(2) by (simp add: unat_add_no_wrap)
  qed
  show joined: "has_gap a m (free_abs xs b ys)" if "unat (adr b) \<le> a"
    "a + m \<le> unat (adr b) + unat (len b) + (case ys of c # _ \<Rightarrow> if free c then unat (len c) else 0 | [] \<Rightarrow> 0)"
  proof (cases "xs \<noteq> [] \<and> free (last xs)")
    case True
    then show ?thesis using that n(1) pv by (simp add: fa)
  next
    case False
    then show ?thesis using that n(1) by (auto simp: fa)
  qed
  have ys: "has_gap a m (free_abs xs b ys)" if g: "has_gap a m ys"
  proof (cases "has_gap a m zs")
    case True
    then show ?thesis by (auto simp: fa)
  next
    case False
    then obtain c cs where c: "ys = c # cs" "free c" "unat (adr c) \<le> a" "a + m \<le> unat (adr c) + unat (len c)"
      using g by (auto simp: zs_def split: list.splits if_splits)
    then have "unat (adr c) = unat (adr b) + unat (len b)" using tiles_two(2) t by blast
    then show ?thesis using joined c by simp
  qed
  show "has_gap a m (free_abs xs b ys)" if "has_gap a m (xs @ ys)"
  proof (cases "has_gap a m ys")
    case False
    then show ?thesis using that has_gap_butlast [of a m xs] pv by (auto simp: fa)
  qed (rule ys)
qed

definition room :: "'a heap_state_scheme \<Rightarrow> nat \<Rightarrow> bool" where
  "room s m \<longleftrightarrow> (\<exists>bs. heap_inv s bs \<and> has_room m bs)"

text \<open>No free block is lost: each lies in one of the later free blocks.\<close>

definition keeps_gaps :: "'a heap_state_scheme \<Rightarrow> 'a heap_state_scheme \<Rightarrow> bool" where
  "keeps_gaps s t \<longleftrightarrow> heap_ok t \<and> (\<forall>a m bs cs. heap_inv s bs \<longrightarrow> heap_inv t cs \<longrightarrow> has_gap a m bs \<longrightarrow> has_gap a m cs)"

lemma keeps_gaps_trans: "heap_ok t \<Longrightarrow> keeps_gaps s t \<Longrightarrow> keeps_gaps t u \<Longrightarrow> keeps_gaps s u"
  unfolding keeps_gaps_def heap_ok_def by blast

lemma keeps_gaps_same: "heap_ok s \<Longrightarrow> (\<And>bs. heap_inv t bs = heap_inv s bs) \<Longrightarrow> keeps_gaps s t"
  unfolding keeps_gaps_def heap_ok_def using heap_inv_unique by auto

lemma keeps_gaps_room: "keeps_gaps s t \<Longrightarrow> room s m \<Longrightarrow> room t m"
  unfolding keeps_gaps_def room_def heap_ok_def has_room_gap by blast

text \<open>
  A block given back: it covers the place of the block it was cut from, with what was left of that.
\<close>

lemma free_taken_gap:
  assumes bs: "heap_inv s (xs @ b # ys)" "free b" and r: "unat (r + BLOCK_HEADER_SIZE) = unat r + 16" "unat r + 16 \<le> unat (len b)"
    and t: "heap_inv t (us @ c # vs)" "adr c = adr b" "unat (len c) = unat (len (hd (take_abs r b)))"
    and g: "\<And>a m. has_gap a m (xs @ take_abs r b @ ys) \<Longrightarrow> has_gap a m (us @ vs)" and gap: "has_gap a m (xs @ b # ys)"
  shows "has_gap a m (free_abs us c vs)"
proof (cases "has_gap a m (xs @ ys)")
  case True
  then show ?thesis using free_abs_gap(1) [OF t(1)] g by auto
next
  case False
  then have b: "unat (adr b) \<le> a" "a + m \<le> unat (adr b) + unat (len b)" using gap by auto
  show ?thesis
  proof (cases "len b \<ge> r + BLOCK_HEADER_SIZE + MIN_BLOCK_SIZE")
    case True
    define d where "d = Blk (adr b + (r + BLOCK_HEADER_SIZE)) (len b - (r + BLOCK_HEADER_SIZE)) True"
    have c: "unat (len c) = unat r + 16" using t(3) True r(1) by (simp add: take_abs_def)
    have d: "unat (adr d) = unat (adr b) + unat (len c)" "unat (len d) = unat (len b) - unat (len c)"
      using c r heap_inv_mid(3) [OF bs(1)] by (simp_all add: d_def unat_add_no_wrap unat_sub_no_wrap word_le_nat_alt)
    have "has_gap (unat (adr d)) (unat (len d)) (us @ vs)"
      by (rule g) (use True in \<open>simp add: take_abs_def d_def\<close>)
    then obtain x where x: "x \<in> set us \<union> set vs" "free x" "unat (adr x) \<le> unat (adr d)"
      "unat (adr d) + unat (len d) \<le> unat (adr x) + unat (len x)" by (auto simp: has_gap_def)
    note ti = heap_inv_mid(10) [OF t(1)] and len = heap_inv_mid(4) [OF t(1)]
    have "x \<notin> set us" using tiles_order(1) [OF ti, of x] x(3,4) d len t(2) by auto
    with x(1) obtain e vs' where vs: "vs = e # vs'" "x \<in> set (e # vs')" by (cases vs) auto
    have ti2: "tiles (unat (heap_start t)) ((us @ [c]) @ e # vs') (unat (heap_start t) + unat (heap_size t))"
      using ti vs(1) by simp
    have e: "unat (adr e) = unat (adr d)" "16 \<le> unat (len e)"
      using ti2 d(1) t(2) tiles_len [OF ti2, of e] by (auto simp: tiles_append)
    then have "x = e" using vs(2) x(3) tiles_order(2) [OF ti2, of x] by auto
    then show ?thesis using free_abs_gap(2) [OF t(1), of a m] b x(2,4) vs(1) d e(1) t(2) by simp
  next
    case False
    then have "unat (len c) = unat (len b)" using t(3) by (simp add: take_abs_def)
    then show ?thesis using free_abs_gap(2) [OF t(1), of a m] b t(2) by simp
  qed
qed

text \<open>
  A buffer of \<open>n\<close> bytes taken from a heap with room for \<open>m\<close> bytes, and given back to a state with the
  same allocations.
\<close>

lemma temporary_buffer:
  assumes "room s m" "n \<noteq> 0" "unat n + 55 < 2 ^ 32" "unat n + 23 \<le> m"
  obtains p k s1 where "kmalloc n s = Some (p, s1)" "heap_only s s1" "heap_ok s1" "unat n \<le> k"
    "heap_live s1 = insert (p, k) (heap_live s)" "(p, k) \<notin> heap_live s"
    "\<And>m'. unat n + 55 + m' \<le> m \<Longrightarrow> room s1 m'"
    "\<And>t :: 'a heap_state_scheme. keeps_gaps s1 t \<Longrightarrow> heap_live t = heap_live s1 \<Longrightarrow> keeps_gaps s (kfree p t)"
proof -
  obtain bs where inv: "heap_inv s bs" and rm: "has_room m bs" using assms(1) by (auto simp: room_def)
  define r where "r = round8 n"
  have r: "unat n \<le> unat r" "8 dvd unat r" "unat r \<le> unat n + 7" "unat r + 48 < 2 ^ 32"
    using round8_bounds [of n] assms(3) by (simp_all add: r_def)
  have r16: "unat (r + BLOCK_HEADER_SIZE) = unat r + 16"
    "unat (r + BLOCK_HEADER_SIZE + MIN_BLOCK_SIZE) = unat r + 48"
    using r(4) by (simp_all add: c_consts unat_add_no_wrap)
  have "\<exists>b \<in> set bs. fits r b" using rm assms(4) r(3) r16(1) by (auto simp: has_room_def word_le_nat_alt)
  then obtain xs b ys where ex: "List.extract (fits r) bs = Some (xs, b, ys)"
    using extract_None_iff [of "fits r" bs] by (cases "List.extract (fits r) bs") auto
  have bs: "bs = xs @ b # ys" "fits r b" using extract_parts [OF ex] by auto
  define p where "p = adr b + BLOCK_HEADER_SIZE"
  obtain s1 where s1: "kmalloc n s = Some (p, s1)" "heap_only s s1" "heap_inv s1 (xs @ take_abs r b @ ys)"
    using kmalloc_fit [OF inv assms(2,3)] ex by (auto simp: r_def p_def)
  have len: "unat r + 16 \<le> unat (len b)" using bs(2) r16(1) by (simp add: word_le_nat_alt)
  define k where "k = unat (len (hd (take_abs r b))) - 16"
  have k: "unat r \<le> k" "live_of (take_abs r b) = {(p, k)}" "unat (len (hd (take_abs r b))) = k + 16"
    using len r16(1) by (auto simp: k_def take_abs_def p_def)
  have new: "(p, k) \<notin> live_of xs \<union> live_of ys" using live_of_mid [OF inv [unfolded bs(1)]] by (simp add: p_def)
  have live1: "heap_live s1 = insert (p, k) (heap_live s)"
    using heap_live_eq [OF s1(3)] heap_live_eq [OF inv] k(2) bs by auto
  show thesis
  proof (rule that [OF s1(1,2) heap_inv_ok [OF s1(3)] _ live1])
    show "unat n \<le> k" using r(1) k(1) by simp
    show "(p, k) \<notin> heap_live s" using heap_live_eq [OF inv] new bs by auto
    show "room s1 m'" if "unat n + 55 + m' \<le> m" for m'
    proof -
      have "has_room m' (take_abs r b)" if "m \<le> unat (len b)"
        using that \<open>unat n + 55 + m' \<le> m\<close> r(3) r16
        by (simp add: take_abs_def word_le_nat_alt unat_sub_no_wrap)
      then have "has_room m' (xs @ take_abs r b @ ys)"
        using rm \<open>unat n + 55 + m' \<le> m\<close> by (fastforce simp: bs has_room_def)
      then show ?thesis using s1(3) by (auto simp: room_def)
    qed
    show "keeps_gaps s (kfree p t)" if t: "keeps_gaps s1 t" "heap_live t = heap_live s1" for t :: "'a heap_state_scheme"
    proof -
      obtain cs where cs: "heap_inv t cs" using t(1) by (auto simp: keeps_gaps_def heap_ok_def)
      have "(p, k) \<in> live_of cs" using t(2) live1 heap_live_eq [OF cs] by simp
      then obtain c where c: "c \<in> set cs" "\<not> free c" "p = adr c + BLOCK_HEADER_SIZE" "k = unat (len c) - 16"
        by (auto simp: live_of_def)
      obtain us vs where uv: "cs = us @ c # vs" using split_list [OF c(1)] by blast
      have tc: "heap_inv t (us @ c # vs)" using cs uv by simp
      have cb: "adr c = adr b" "unat (len c) = unat (len (hd (take_abs r b)))"
        using c(3,4) heap_inv_mid(4) [OF tc] k(3) by (simp_all add: p_def)
      have g: "has_gap a l (us @ vs)" if "has_gap a l (xs @ take_abs r b @ ys)" for a l
        using t(1) s1(3) cs that c(2) unfolding keeps_gaps_def uv by fastforce
      have inv': "heap_inv (kfree p t) (free_abs us c vs)" using kfree_refines [OF tc c(2)] c(3) by simp
      have "has_gap a l ds" if "heap_inv s es" "heap_inv (kfree p t) ds" "has_gap a l es" for a l ds es
      proof -
        have e: "es = xs @ b # ys" "ds = free_abs us c vs"
          using heap_inv_unique that(1,2) inv inv' bs(1) by blast+
        have "free b" using bs(2) by simp
        show ?thesis unfolding e(2)
          by (rule free_taken_gap [OF inv [unfolded bs(1)] \<open>free b\<close> r16(1) len tc cb g that(3) [unfolded e(1)]])
      qed
      then show ?thesis using heap_inv_ok [OF inv'] unfolding keeps_gaps_def by blast
    qed
  qed
qed

subsection \<open>What the driver leaves alone\<close>

text \<open>Only the port history, the block list of the heap and memory contents differ.\<close>

definition fs_only :: "'a ata_state_scheme \<Rightarrow> 'a ata_state_scheme \<Rightarrow> bool" where
  "fs_only s t \<longleftrightarrow> t = s\<lparr>io_log := io_log t, hblk := hblk t, heap_end := heap_end t,
     heap_used := heap_used t, vmem := vmem t\<rparr>"

lemma fs_only_refl [simp]: "fs_only s s"
  by (simp add: fs_only_def)

lemma fs_only_trans [trans]: "fs_only s t \<Longrightarrow> fs_only t u \<Longrightarrow> fs_only s u"
  by (cases s; cases t; cases u) (simp add: fs_only_def)

lemma fs_only_steps [intro]:
  "heap_only s t \<Longrightarrow> fs_only s t" "xfer_only s t \<Longrightarrow> fs_only s t" "fs_only s (s\<lparr>vmem := m\<rparr>)"
proof -
  show "heap_only s t \<Longrightarrow> fs_only s t" by (auto simp: heap_only_def fs_only_def)
  show "xfer_only s t \<Longrightarrow> fs_only s t" by (cases s; cases t) (simp add: xfer_only_def fs_only_def)
  show "fs_only s (s\<lparr>vmem := m\<rparr>)" by (simp add: fs_only_def)
qed

lemma fs_only_fields:
  fixes s t :: "'a fat_state_scheme"
  assumes "fs_only s t"
  shows "bpb t = bpb s" "fat_start_sector t = fat_start_sector s" "data_start_sector t = data_start_sector s"
    "fnodes t = fnodes s" "fs_root t = fs_root s"
  using assms by (cases s; cases t; simp add: fs_only_def)+

lemma fs_only_base:
  assumes "fs_only s t"
  shows "heap_start t = heap_start s" "heap_size t = heap_size s"
    "disk_ready dev io d0 t = disk_ready dev io d0 s"
  using assms by (cases s; cases t; simp add: fs_only_def disk_ready_def)+

lemma heap_inv_xfer: "xfer_only s t \<Longrightarrow> heap_inv t bs = heap_inv s bs"
  by (cases s; cases t) (simp add: xfer_only_def heap_inv_def)

lemma heap_live_xfer: "xfer_only s t \<Longrightarrow> heap_live t = heap_live s" "xfer_only s t \<Longrightarrow> heap_ok t = heap_ok s"
  "xfer_only s t \<Longrightarrow> room t m = room s m"
  by (simp_all add: heap_live_def heap_ok_def room_def heap_inv_xfer)

lemma heap_only_io: "heap_only s t \<Longrightarrow> io_log t = io_log s" "heap_only s t \<Longrightarrow> vmem t = vmem s"
  by (auto simp: heap_only_def)

text \<open>Addresses that no free block contains: outside of the heap, or in an allocation.\<close>

definition kept :: "'a heap_state_scheme \<Rightarrow> u32 \<Rightarrow> bool" where
  "kept s a \<longleftrightarrow> unat a < unat (heap_start s) \<or> unat (heap_start s) + unat (heap_size s) \<le> unat a \<or>
     (\<exists>(p, k) \<in> heap_live s. unat p \<le> unat a \<and> unat a < unat p + k)"

lemma unat_offset:
  fixes a p :: u32
  assumes "unat (a - p) < k" "unat p + k < 2 ^ 32"
  shows "unat a = unat p + unat (a - p)"
  using unat_add_no_wrap [of p "a - p"] assms by simp

lemma live_placed:
  assumes "heap_ok s" "(p, k) \<in> heap_live s"
  shows "unat (heap_start s) + 16 \<le> unat p" "unat p + k \<le> unat (heap_start s) + unat (heap_size s)"
    "unat p + k < 2 ^ 32" "p \<noteq> 0"
proof -
  obtain bs where bs: "heap_inv s bs" using assms(1) by (auto simp: heap_ok_def)
  then have "(p, k) \<in> live_of bs" using assms(2) heap_live_eq by blast
  note pl = live_of_place [OF bs this]
  then show "unat (heap_start s) + 16 \<le> unat p" "unat p + k \<le> unat (heap_start s) + unat (heap_size s)" by auto
  then show "unat p + k < 2 ^ 32" using bs by (auto simp: heap_inv_def)
  show "p \<noteq> 0" using pl(2) by auto
qed

lemma fresh_buffer:
  assumes "heap_ok s1" "heap_live s1 = insert (p, k) (heap_live s)" "(p, k) \<notin> heap_live s"
    and "heap_start s1 = heap_start s" "heap_size s1 = heap_size s" and "kept s a"
  shows "\<not> unat (a - p) < k"
proof
  assume less: "unat (a - p) < k"
  have p: "(p, k) \<in> heap_live s1" by (simp add: assms(2))
  note pl = live_placed [OF assms(1) p]
  have a: "unat a = unat p + unat (a - p)" by (rule unat_offset [OF less pl(3)])
  obtain bs where bs: "heap_inv s1 bs" using assms(1) by (auto simp: heap_ok_def)
  from assms(6) a less pl(1,2) assms(4,5) obtain q l where q: "(q, l) \<in> heap_live s" "unat q \<le> unat a" "unat a < unat q + l"
    by (auto simp: kept_def)
  then have "(q, l) \<noteq> (p, k)" "(q, l) \<in> heap_live s1" using assms(2,3) by auto
  from live_of_apart [OF bs, of p k q l] this p q(2,3) a less show False
    by (auto simp: heap_live_eq [OF bs])
qed

lemma load16_sbyte:
  assumes "vmem t a = sbyte med (2 * q)" "vmem t (a + 1) = sbyte med (2 * q + 1)"
  shows "load16 a t = med q"
  unfolding load16_def assms by (auto simp: sbyte_def bit_eq_iff bit_simps dest: bit_imp_le_length)

subsection \<open>The allocation table and the clusters of a file\<close>

text \<open>
  Entry \<open>c\<close> of the table that starts at sector \<open>st\<close>: 28 bits of a little-endian 32-bit word. The
  medium is a sequence of 16-bit words, 256 to a sector.
\<close>

definition fat_entry :: "(nat \<Rightarrow> u16) \<Rightarrow> nat \<Rightarrow> nat \<Rightarrow> u32" where
  "fat_entry med st c =
     (ucast (med (st * 256 + 2 * c)) OR push_bit 16 (ucast (med (st * 256 + 2 * c + 1)))) AND 0x0FFFFFFF"

text \<open>What all reading steps keep.\<close>

definition reads_only :: "device \<Rightarrow> u16 \<Rightarrow> disk \<Rightarrow> nat \<Rightarrow> 'a ata_state_scheme \<Rightarrow> 'a ata_state_scheme \<Rightarrow> bool" where
  "reads_only dev io d0 m s t \<longleftrightarrow>
     fs_only s t \<and> medium d0 t io = medium d0 s io \<and> room t m \<and> heap_live t = heap_live s \<and> keeps_gaps s t"

lemma room_ok: "room s m \<Longrightarrow> heap_ok s"
  by (auto simp: room_def heap_ok_def)

lemma reads_only_refl: "room s m \<Longrightarrow> reads_only dev io d0 m s s"
  by (simp add: reads_only_def keeps_gaps_same room_ok)

lemma reads_only_trans:
  "reads_only dev io d0 m s t \<Longrightarrow> reads_only dev io d0 m t u \<Longrightarrow> reads_only dev io d0 m s u"
  by (auto simp: reads_only_def intro: fs_only_trans keeps_gaps_trans room_ok)

lemma reads_only_kept:
  assumes "reads_only dev io d0 m s t"
  shows "kept t a = kept s a"
proof -
  have "fs_only s t" "heap_live t = heap_live s" using assms by (simp_all add: reads_only_def)
  then show ?thesis by (simp add: kept_def fs_only_base(1,2) [of s t])
qed

lemma fat_position:
  fixes st c :: nat
  shows "(st + c div 128) * 512 + (c * 4) mod 512 = 2 * (st * 256 + 2 * c)" "(c * 4) mod 512 + 3 < 512"
proof -
  have "(c * 4) mod 512 = c mod 128 * 4" using mult_mod_left [of c 128 4] by (simp add: mult.commute)
  moreover have "q * 512 + r * 4 = 4 * c" if "q * 128 + r = c" for q r :: nat by (simp add: that [symmetric])
  from this [OF div_mult_mod_eq] have "c div 128 * 512 + c mod 128 * 4 = 4 * c" .
  moreover have "c mod 128 < 128" by simp
  ultimately show "(st + c div 128) * 512 + (c * 4) mod 512 = 2 * (st * 256 + 2 * c)" "(c * 4) mod 512 + 3 < 512"
    by (simp_all add: distrib_right)
qed

lemma get_next_cluster_spec:
  assumes rdy: "disk_ready dev io d0 s" and rm: "room s m" "535 \<le> m" and bps: "bytes_per_sector (bpb s) = 512"
    and c: "unat c < 2 ^ 28" and sec: "unat (fat_start_sector s) + unat c div 128 < 2 ^ 28"
  shows "\<exists>t. get_next_cluster dev c s =
      Some (fat_entry (medium d0 s io) (unat (fat_start_sector s)) (unat c), t) \<and>
    reads_only dev io d0 m s t \<and> (\<forall>a. kept s a \<longrightarrow> vmem t a = vmem s a)"
proof -
  let ?med = "medium d0 s io"
  define lba where "lba = fat_start_sector s + (c * 4) div 512"
  define off where "off = (c * 4) mod 512"
  have c4: "unat (c * 4) = unat c * 4" using c by (simp add: unat_mult_no_wrap)
  have off: "unat off = (unat c * 4) mod 512" by (simp add: off_def unat_mod_u32 c4)
  have "unat ((c * 4) div 512) = unat c div 128"
    using div_mult2_eq [of "unat c * 4" 4 128] by (simp add: unat_div_u32 c4)
  then have lba: "unat lba = unat (fat_start_sector s) + unat c div 128"
    using sec by (simp add: lba_def unat_add_no_wrap)
  have n: "(512 :: u32) \<noteq> 0" "unat (512 :: u32) + 55 < 2 ^ 32" "unat (512 :: u32) + 23 \<le> m" using rm(2) by simp_all
  obtain p k s1 where s1: "kmalloc 512 s = Some (p, s1)" "heap_only s s1" "heap_ok s1" "unat (512 :: u32) \<le> k"
    "heap_live s1 = insert (p, k) (heap_live s)" "(p, k) \<notin> heap_live s"
    "\<And>t :: 'a fat_state_scheme. keeps_gaps s1 t \<Longrightarrow> heap_live t = heap_live s1 \<Longrightarrow> keeps_gaps s (kfree p t)"
    by (rule temporary_buffer [OF rm(1) n]) blast
  have rdy1: "disk_ready dev io d0 s1" using rdy fs_only_base(3) [OF fs_only_steps(1) [OF s1(2)]] by blast
  obtain s2 where s2: "ata_read_sectors dev 0 lba 1 p s1 = Some (True, s2)" "xfer_only s1 s2"
    "medium d0 s2 io = ?med" "vmem s2 = filled (vmem s) p (\<lambda>j. sbyte ?med (unat lba * 512 + j)) 512"
    using ata_read_spec [OF rdy1, of lba 1 p] lba sec heap_only_io [OF s1(2)] by auto
  have byte: "vmem s2 (p + off + of_nat i) = sbyte ?med (2 * (unat (fat_start_sector s) * 256 + 2 * unat c) + i)" if "i < 4" for i
  proof -
    have "unat off + i < 512" using fat_position(2) [of "unat c"] off that by simp
    then have "unat (off + of_nat i) = unat off + i" using that by (simp add: unat_add_no_wrap unat_of_nat_u32)
    moreover have "p + off + of_nat i - p = off + of_nat i" by simp
    ultimately have "vmem s2 (p + off + of_nat i) = sbyte ?med (unat lba * 512 + (unat off + i))"
      using \<open>unat off + i < 512\<close> unfolding s2(4) filled_def by (simp only: if_True)
    moreover have "unat lba * 512 + (unat off + i) = 2 * (unat (fat_start_sector s) * 256 + 2 * unat c) + i"
      using fat_position(1) [of "unat (fat_start_sector s)" "unat c"] lba off by simp
    ultimately show ?thesis by (simp only:)
  qed
  have l1: "load16 (p + off) s2 = ?med (unat (fat_start_sector s) * 256 + 2 * unat c)"
    by (rule load16_sbyte) (use byte [of 0] byte [of 1] in simp_all)
  have l2: "load16 (p + off + 2) s2 = ?med (unat (fat_start_sector s) * 256 + 2 * unat c + 1)"
    by (rule load16_sbyte) (use byte [of 2] byte [of 3] in \<open>simp_all add: add.assoc numeral_3_eq_3\<close>)
  define t where "t = kfree p s2"
  have "get_next_cluster dev c s = Some (fat_entry ?med (unat (fat_start_sector s)) (unat c), t)"
    using s1(1) s2(1) l1 l2
    by (simp add: get_next_cluster_def bps Let_def t_def fat_entry_def load32_def lba_def [symmetric] off_def [symmetric])
  moreover have "reads_only dev io d0 m s t"
  proof -
    have live2: "heap_ok s2" "(p, k) \<in> heap_live s2" using heap_live_xfer [OF s2(2)] s1(3,5) by auto
    have "fs_only s t"
      using fs_only_trans [OF fs_only_trans [OF fs_only_steps(1) [OF s1(2)] fs_only_steps(2) [OF s2(2)]]
          fs_only_steps(1) [OF kfree_heap_only]] unfolding t_def .
    moreover have "medium d0 t io = ?med" using heap_only_io(1) [OF kfree_heap_only, of p s2] s2(3) by (simp add: t_def)
    moreover have gaps: "keeps_gaps s t"
      unfolding t_def using s1(7) [OF keeps_gaps_same [OF s1(3) heap_inv_xfer [OF s2(2)]] heap_live_xfer(1) [OF s2(2)]] .
    moreover have "room t m" by (rule keeps_gaps_room [OF gaps rm(1)])
    moreover have "heap_live t = heap_live s"
      using kheap.release_live [OF live2] heap_live_xfer(1) [OF s2(2)] s1(5,6) by (simp add: t_def)
    ultimately show ?thesis by (simp add: reads_only_def)
  qed
  moreover have "vmem t a = vmem s a" if "kept s a" for a
  proof -
    have "\<not> unat (a - p) < 512"
      using fresh_buffer [OF s1(3,5,6) _ _ that] heap_only_fields [OF s1(2)] s1(4) by simp
    then show ?thesis using heap_only_io(2) [OF kfree_heap_only, of p s2] by (simp add: t_def s2(4) filled_def)
  qed
  ultimately show ?thesis by blast
qed

text \<open>The bytes of a cluster and of a list of clusters, on a volume with the geometry of the state.\<close>

definition cluster_bytes :: "(nat \<Rightarrow> u16) \<Rightarrow> 'a fat_state_scheme \<Rightarrow> u32 \<Rightarrow> u8 list" where
  "cluster_bytes med s c =
     map (\<lambda>j. sbyte med ((unat (data_start_sector s) + (unat c - 2) * unat (sectors_per_cluster (bpb s))) * 512 + j))
       [0..<unat (sectors_per_cluster (bpb s)) * 512]"

definition file_bytes :: "(nat \<Rightarrow> u16) \<Rightarrow> 'a fat_state_scheme \<Rightarrow> u32 list \<Rightarrow> u8 list" where
  "file_bytes med s cs = concat (map (cluster_bytes med s) cs)"

text \<open>The clusters of a file, up to the end-of-chain mark.\<close>

fun file_chain :: "(nat \<Rightarrow> u16) \<Rightarrow> nat \<Rightarrow> u32 list \<Rightarrow> bool" where
  "file_chain med st [] \<longleftrightarrow> False"
| "file_chain med st [c] \<longleftrightarrow> fat_entry med st (unat c) \<ge> 0x0FFFFFF8"
| "file_chain med st (c # d # cs) \<longleftrightarrow>
     fat_entry med st (unat c) = d \<and> d < 0x0FFFFFF8 \<and> file_chain med st (d # cs)"

text \<open>A volume with 512-byte sectors, and clusters within the first \<open>2 ^ 28\<close> sectors.\<close>

definition volume_ok :: "'a fat_state_scheme \<Rightarrow> bool" where
  "volume_ok s \<longleftrightarrow> bytes_per_sector (bpb s) = 512 \<and> sectors_per_cluster (bpb s) \<noteq> 0"

definition cluster_ok :: "'a fat_state_scheme \<Rightarrow> u32 \<Rightarrow> bool" where
  "cluster_ok s c \<longleftrightarrow> 2 \<le> unat c \<and> unat c < 2 ^ 28 \<and> unat (fat_start_sector s) + unat c div 128 < 2 ^ 28 \<and>
     unat (data_start_sector s) + (unat c - 2) * unat (sectors_per_cluster (bpb s)) < 2 ^ 28"

lemma cluster_size_unat:
  assumes "volume_ok s"
  shows "unat (cluster_size s) = unat (sectors_per_cluster (bpb s)) * 512"
    "0 < unat (cluster_size s)" "unat (cluster_size s) \<le> 130560"
proof -
  let ?n = "sectors_per_cluster (bpb s)"
  have n: "unat ?n < 256" "0 < unat ?n"
    using assms unsigned_less [where 'a = nat and w = ?n] by (simp_all add: volume_ok_def unat_gt_0)
  have "unat (ucast ?n :: u32) = unat ?n" using n(1) by (simp add: unsigned_ucast_eq take_bit_nat_eq_self)
  then show u: "unat (cluster_size s) = unat ?n * 512"
    using assms n(1) by (simp add: cluster_size_def volume_ok_def unat_mult_no_wrap)
  show "0 < unat (cluster_size s)" "unat (cluster_size s) \<le> 130560" using u n by simp_all
qed

lemma length_cluster_bytes [simp]: "volume_ok s \<Longrightarrow> length (cluster_bytes med s c) = unat (cluster_size s)"
  by (simp add: cluster_bytes_def cluster_size_unat)

lemma file_bytes_simps [simp]:
  "file_bytes med s [] = []" "file_bytes med s (c # cs) = cluster_bytes med s c @ file_bytes med s cs"
  by (simp_all add: file_bytes_def)

lemma fs_only_geometry:
  fixes s t :: "'a fat_state_scheme"
  assumes "fs_only s t"
  shows "volume_ok t = volume_ok s" "cluster_ok t = cluster_ok s" "cluster_size t = cluster_size s"
    "cluster_bytes med t = cluster_bytes med s" "file_bytes med t = file_bytes med s"
    "fat_start_sector t = fat_start_sector s" "disk_ready dev io d0 t = disk_ready dev io d0 s"
proof -
  note [simp] = fs_only_fields [OF assms]
  show "volume_ok t = volume_ok s" "cluster_ok t = cluster_ok s" "cluster_size t = cluster_size s"
    "fat_start_sector t = fat_start_sector s"
    by (simp_all add: volume_ok_def cluster_ok_def cluster_size_def fun_eq_iff)
  show cb: "cluster_bytes med t = cluster_bytes med s" by (rule ext) (simp add: cluster_bytes_def)
  show "file_bytes med t = file_bytes med s" by (rule ext) (simp add: file_bytes_def cb)
  show "disk_ready dev io d0 t = disk_ready dev io d0 s" by (rule fs_only_base(3) [OF assms])
qed

lemma same_geometry:
  fixes s t :: "'a fat_state_scheme"
  assumes "reads_only dev io d0 m s t"
  shows "volume_ok t = volume_ok s" "cluster_ok t = cluster_ok s" "cluster_size t = cluster_size s"
    "cluster_bytes med t = cluster_bytes med s" "file_bytes med t = file_bytes med s"
    "fat_start_sector t = fat_start_sector s" "disk_ready dev io d0 t = disk_ready dev io d0 s"
    "medium d0 t io = medium d0 s io"
  using assms fs_only_geometry [of s t] by (auto simp: reads_only_def)

lemma next_in_chain:
  assumes rdy: "disk_ready dev io d0 s" and rm: "room s m" "535 \<le> m" and v: "volume_ok s" "cluster_ok s c"
    and ch: "file_chain (medium d0 s io) (unat (fat_start_sector s)) (c # cs)"
  obtains n t where "get_next_cluster dev c s = Some (n, t)" "reads_only dev io d0 m s t"
    "\<forall>a. kept s a \<longrightarrow> vmem t a = vmem s a" "n \<ge> 0x0FFFFFF8 \<longleftrightarrow> cs = []"
    "cs \<noteq> [] \<Longrightarrow> n = hd cs \<and> file_chain (medium d0 s io) (unat (fat_start_sector s)) cs"
proof -
  have "bytes_per_sector (bpb s) = 512" "unat c < 2 ^ 28" "unat (fat_start_sector s) + unat c div 128 < 2 ^ 28"
    using v by (simp_all add: volume_ok_def cluster_ok_def)
  from get_next_cluster_spec [OF rdy rm this] obtain t where t:
    "get_next_cluster dev c s = Some (fat_entry (medium d0 s io) (unat (fat_start_sector s)) (unat c), t)"
    "reads_only dev io d0 m s t" "\<forall>a. kept s a \<longrightarrow> vmem t a = vmem s a" by blast
  show thesis by (rule that [OF t]) (use ch in \<open>cases cs; auto simp: not_le\<close>)+
qed

text \<open>What following the chain to an offset yields: the cluster there, with the rest of its chain.\<close>

definition chain_at ::
  "(nat \<Rightarrow> u16) \<Rightarrow> 'a fat_state_scheme \<Rightarrow> u32 list \<Rightarrow> nat \<Rightarrow> (u32 \<times> u32) option \<Rightarrow> bool" where
  "chain_at med s cs n r \<longleftrightarrow>
     (case r of None \<Rightarrow> drop n (file_bytes med s cs) = []
      | Some (c', o') \<Rightarrow> unat o' < unat (cluster_size s) \<and> (\<exists>cs'.
          file_chain med (unat (fat_start_sector s)) (c' # cs') \<and> set (c' # cs') \<subseteq> set cs \<and>
          drop (unat o') (file_bytes med s (c' # cs')) = drop n (file_bytes med s cs)))"

lemma chain_at_here:
  "file_chain med (unat (fat_start_sector s)) (c # cs) \<Longrightarrow> \<not> cluster_size s \<le> n \<Longrightarrow>
   chain_at med s (c # cs) (unat n) (Some (c, n))"
  unfolding chain_at_def option.case prod.case word_le_nat_alt not_le by blast

lemma chain_at_next:
  assumes "volume_ok s" "unat (cluster_size s) \<le> n" "chain_at med s cs (n - unat (cluster_size s)) r"
  shows "chain_at med s (c # cs) n r"
proof -
  have "drop (n - unat (cluster_size s)) (file_bytes med s cs) = drop n (file_bytes med s (c # cs))"
    using assms(1,2) by simp
  moreover have "set cs \<subseteq> set (c # cs)" by auto
  ultimately show ?thesis
    using assms(3) unfolding chain_at_def by (cases r) (simp, fastforce simp del: file_bytes_simps)
qed

lemma skip_clusters_spec:
  assumes "disk_ready dev io d0 s" "room s m" "535 \<le> m" "volume_ok s" "\<forall>c \<in> set (c # cs). cluster_ok s c"
    and "file_chain (medium d0 s io) (unat (fat_start_sector s)) (c # cs)"
  shows "\<exists>r t. skip_clusters dev (cluster_size s) c offset s = Some (r, t) \<and> reads_only dev io d0 m s t \<and>
    (\<forall>a. kept s a \<longrightarrow> vmem t a = vmem s a) \<and> chain_at (medium d0 s io) s (c # cs) (unat offset) r"
  using assms
proof (induction cs arbitrary: c offset s)
  case (Cons d cs)
  note prems = Cons.prems
  show ?case
  proof (cases "offset \<ge> cluster_size s")
    case False
    then have "chain_at (medium d0 s io) s (c # d # cs) (unat offset) (Some (c, offset))"
      using chain_at_here prems(6) by blast
    then show ?thesis using prems(2) False by (subst skip_clusters.simps) (auto simp: reads_only_refl)
  next
    case True
    obtain n t where t: "get_next_cluster dev c s = Some (n, t)" "reads_only dev io d0 m s t"
      "\<forall>a. kept s a \<longrightarrow> vmem t a = vmem s a" "\<not> n \<ge> 0x0FFFFFF8" "n = d"
      "file_chain (medium d0 s io) (unat (fat_start_sector s)) (d # cs)"
    proof (rule next_in_chain [OF prems(1-4) _ prems(6)])
      show "cluster_ok s c" using prems(5) by simp
    qed (use that in simp)
    note g = same_geometry [OF t(2)]
    have step: "skip_clusters dev (cluster_size s) c offset s = skip_clusters dev (cluster_size s) d (offset - cluster_size s) t"
      using True t(1,4,5) by (subst skip_clusters.simps) simp
    have ca: "chain_at med t = chain_at med s" for med
      unfolding fun_eq_iff chain_at_def g by blast
    have "room t m" "\<forall>c \<in> set (d # cs). cluster_ok s c" using t(2) prems(5) by (simp_all add: reads_only_def)
    from Cons.IH [of t d "offset - cluster_size s", unfolded g ca, OF prems(1) this(1) prems(3,4) this(2) t(6)]
    obtain r u where u: "skip_clusters dev (cluster_size s) c offset s = Some (r, u)" "reads_only dev io d0 m t u"
      "\<forall>a. kept t a \<longrightarrow> vmem u a = vmem t a"
      "chain_at (medium d0 s io) s (d # cs) (unat (offset - cluster_size s)) r" unfolding step by blast
    have "\<forall>a. kept s a \<longrightarrow> vmem u a = vmem s a" using u(3) t(3) reads_only_kept [OF t(2)] by simp
    moreover have "chain_at (medium d0 s io) s (c # d # cs) (unat offset) r"
      by (rule chain_at_next [OF prems(4)]) (use u(4) True in \<open>simp_all add: unat_sub_no_wrap word_le_nat_alt\<close>)
    ultimately show ?thesis using u(1) reads_only_trans [OF t(2) u(2)] by blast
  qed
next
  case Nil
  note prems = Nil.prems
  show ?case
  proof (cases "offset \<ge> cluster_size s")
    case False
    then have "chain_at (medium d0 s io) s [c] (unat offset) (Some (c, offset))"
      using chain_at_here prems(6) by blast
    then show ?thesis using prems(2) False by (subst skip_clusters.simps) (auto simp: reads_only_refl)
  next
    case True
    obtain n t where t: "get_next_cluster dev c s = Some (n, t)" "reads_only dev io d0 m s t"
      "\<forall>a. kept s a \<longrightarrow> vmem t a = vmem s a" "n \<ge> 0x0FFFFFF8"
    proof (rule next_in_chain [OF prems(1-4) _ prems(6)])
      show "cluster_ok s c" using prems(5) by simp
    qed (use that in simp)
    then have "skip_clusters dev (cluster_size s) c offset s = Some (None, t)"
      using True by (subst skip_clusters.simps) simp
    moreover have "chain_at (medium d0 s io) s [c] (unat offset) None"
      using prems(4) True by (simp add: chain_at_def word_le_nat_alt)
    ultimately show ?thesis using t(2,3) by blast
  qed
qed

subsection \<open>Copying a file\<close>

lemma read_cluster_spec:
  assumes rdy: "disk_ready dev io d0 s" and v: "volume_ok s" "cluster_ok s c"
  shows "\<exists>t. read_cluster dev c buf s = Some (True, t) \<and> xfer_only s t \<and> medium d0 t io = medium d0 s io \<and>
    vmem t = filled (vmem s) buf (\<lambda>j. cluster_bytes (medium d0 s io) s c ! j) (unat (cluster_size s))"
proof -
  let ?n = "sectors_per_cluster (bpb s)"
  define lba where "lba = data_start_sector s + (c - 2) * ucast ?n"
  have n: "unat (ucast ?n :: u32) = unat ?n"
    using unsigned_less [where 'a = nat and w = ?n] by (simp add: unsigned_ucast_eq take_bit_nat_eq_self)
  have c2: "unat (c - 2) = unat c - 2" using v(2) by (simp add: cluster_ok_def unat_sub_no_wrap word_le_nat_alt)
  have bound: "unat (data_start_sector s) + (unat c - 2) * unat ?n < 2 ^ 28" using v(2) by (simp add: cluster_ok_def)
  then have "unat ((c - 2) * ucast ?n) = (unat c - 2) * unat ?n" by (simp add: unat_mult_no_wrap c2 n)
  then have lba: "unat lba = unat (data_start_sector s) + (unat c - 2) * unat ?n"
    using bound by (simp add: lba_def unat_add_no_wrap)
  from ata_read_spec [OF rdy, of lba ?n buf] bound v(1) obtain t where
    t: "ata_read_sectors dev 0 lba ?n buf s = Some (True, t)" "xfer_only s t" "medium d0 t io = medium d0 s io"
    "vmem t = filled (vmem s) buf (\<lambda>j. sbyte (medium d0 s io) (unat lba * 512 + j)) (unat ?n * 512)"
    by (auto simp: lba volume_ok_def)
  have "vmem t = filled (vmem s) buf (\<lambda>j. cluster_bytes (medium d0 s io) s c ! j) (unat (cluster_size s))"
    unfolding t(4) by (auto simp: filled_def cluster_bytes_def cluster_size_unat [OF v(1)] lba)
  then show ?thesis using t(1-3) by (simp add: read_cluster_def lba_def)
qed

lemma copy_bytes_spec:
  assumes "n < 2 ^ 32" "\<And>i. i < n \<Longrightarrow> \<not> unat (src + of_nat i - dst) < n"
  shows "copy_bytes dst src n s = s\<lparr>vmem := filled (vmem s) dst (\<lambda>i. vmem s (src + of_nat i)) n\<rparr>"
proof -
  define f where "f = (\<lambda>i (s :: 'a ata_state_scheme). s\<lparr>vmem := (vmem s)(dst + of_nat i := vmem s (src + of_nat i))\<rparr>)"
  let ?m = "\<lambda>k. filled (vmem s) dst (\<lambda>i. vmem s (src + of_nat i)) k"
  have "fold f [0..<k] s = s\<lparr>vmem := ?m k\<rparr>" if "k \<le> n" for k
    using that
  proof (induction k)
    case 0
    then show ?case by (simp add: filled_def)
  next
    case (Suc k)
    have "\<not> unat (src + of_nat k - dst) < k" using assms(2) [of k] Suc.prems by simp
    then have "?m k (src + of_nat k) = vmem s (src + of_nat k)" by (simp add: filled_def)
    moreover have "(?m k)(dst + of_nat k := vmem s (src + of_nat k)) = ?m (Suc k)"
      by (rule filled_Suc) (use assms(1) Suc.prems in simp)
    ultimately have "f k (s\<lparr>vmem := ?m k\<rparr>) = s\<lparr>vmem := ?m (Suc k)\<rparr>" by (simp add: f_def del: fun_upd_apply)
    then show ?case using Suc.IH Suc.prems by simp
  qed
  from this [OF order_refl] show ?thesis by (simp add: copy_bytes_def f_def)
qed

lemma load_bytes_append: "load_bytes p (m + n) s = load_bytes p m s @ load_bytes (p + of_nat m) n s"
  by (induction n) (simp_all add: load_bytes_def add.assoc)

lemma load_bytes_cong: "(\<And>i. i < n \<Longrightarrow> vmem t (p + of_nat i) = vmem s (p + of_nat i)) \<Longrightarrow> load_bytes p n t = load_bytes p n s"
  by (simp add: load_bytes_def)

lemma before_offset:
  fixes x :: u32
  assumes "i < n" "n + m \<le> 2 ^ 32"
  shows "\<not> unat (x + of_nat i - (x + of_nat n)) < m"
proof
  define r where "r = unat (x + of_nat i - (x + of_nat n))"
  assume "unat (x + of_nat i - (x + of_nat n)) < m"
  then have r: "r < m" by (simp add: r_def)
  have "(of_nat r :: u32) + of_nat n = of_nat i" by (simp add: r_def)
  then have "(of_nat (r + (i + (n - i))) :: u32) = of_nat i" using assms(1) by simp
  then have "(of_nat i :: u32) + of_nat (r + (n - i)) = of_nat i + 0" by (simp only: of_nat_add add.left_commute add_0_right)
  then have "(of_nat (r + (n - i)) :: u32) = 0" by (simp only: add_left_cancel)
  then have "unat (of_nat (r + (n - i)) :: u32) = 0" by (simp only: unat_0)
  moreover have "r + (n - i) < 2 ^ 32" using r assms by simp
  ultimately have "r + (n - i) = 0" by (simp only: unat_of_nat_u32)
  then show False using assms(1) by simp
qed

lemma reads_only_vmem:
  assumes "room s m" "xfer_only s t" "medium d0 t io = medium d0 s io"
  shows "reads_only dev io d0 m s (t\<lparr>vmem := v\<rparr>)"
proof -
  have x: "xfer_only s (t\<lparr>vmem := v\<rparr>)" using assms(2) by (cases s; cases t) (simp add: xfer_only_def)
  then show ?thesis
    using fs_only_steps(2) [OF x] assms(1,3) heap_live_xfer [OF x]
      keeps_gaps_same [OF room_ok heap_inv_xfer [OF x]] by (simp add: reads_only_def)
qed

lemma read_loop_done: "\<not> 0 < sz \<Longrightarrow> read_loop dev csize cbuf buffer c offset sz rs s = Some (rs, s)"
  by (subst read_loop.simps) simp

text \<open>One cluster of \<open>read_loop\<close>.\<close>

lemma read_chunk:
  fixes s :: "'a fat_state_scheme"
  assumes rdy: "disk_ready dev io d0 s" and rm: "room s m" and v: "volume_ok s" "cluster_ok s c"
    and off: "unat offset < unat (cluster_size s)" and sz: "sz \<noteq> 0"
    and dest: "\<And>i. i < unat sz \<Longrightarrow> \<not> unat (buffer + rs + of_nat i - cbuf) < unat (cluster_size s)"
  obtains chunk t where "unat chunk = min (unat sz) (unat (cluster_size s) - unat offset)"
    "read_loop dev (cluster_size s) cbuf buffer c offset sz rs s =
       (if sz - chunk > 0 then Option.bind (get_next_cluster dev c t) (\<lambda>q.
          if fst q \<ge> 0x0FFFFFF8 then Some (rs + chunk, snd q)
          else read_loop dev (cluster_size s) cbuf buffer (fst q) 0 (sz - chunk) (rs + chunk) (snd q))
        else Some (rs + chunk, t))"
    "reads_only dev io d0 m s t"
    "load_bytes (buffer + rs) (unat chunk) t = take (unat chunk) (drop (unat offset) (cluster_bytes (medium d0 s io) s c))"
    "\<And>a. \<not> unat (a - cbuf) < unat (cluster_size s) \<Longrightarrow> \<not> unat (a - (buffer + rs)) < unat chunk \<Longrightarrow> vmem t a = vmem s a"
proof -
  let ?cs = "cluster_size s" and ?B = "cluster_bytes (medium d0 s io) s c"
  define chunk where "chunk = (if ?cs - offset > sz then sz else ?cs - offset)"
  have "unat (?cs - offset) = unat ?cs - unat offset" using off by (simp add: unat_sub_no_wrap word_le_nat_alt)
  then have ch: "unat chunk = min (unat sz) (unat ?cs - unat offset)" by (auto simp: chunk_def word_less_nat_alt)
  obtain u where u: "read_cluster dev c cbuf s = Some (True, u)" "xfer_only s u" "medium d0 u io = medium d0 s io"
    "vmem u = filled (vmem s) cbuf (\<lambda>j. ?B ! j) (unat ?cs)"
    using read_cluster_spec [OF rdy v] by blast
  have src: "unat (offset + of_nat i) = unat offset + i" "unat offset + i < unat ?cs" if "i < unat chunk" for i
  proof -
    show lt: "unat offset + i < unat ?cs" using that ch off by linarith
    then have "unat (of_nat i :: u32) = i" using unat_lt_u32 [of ?cs] by (simp add: unat_of_nat_u32)
    then show "unat (offset + of_nat i) = unat offset + i" using lt unat_lt_u32 [of ?cs] by (simp add: unat_add_no_wrap)
  qed
  define t where "t = copy_bytes (buffer + rs) (cbuf + offset) (unat chunk) u"
  have apart: "\<not> unat (cbuf + offset + of_nat i - (buffer + rs)) < unat chunk" if "i < unat chunk" for i
  proof
    define r where "r = unat (cbuf + offset + of_nat i - (buffer + rs))"
    assume "unat (cbuf + offset + of_nat i - (buffer + rs)) < unat chunk"
    then have "r < unat sz" using ch by (simp add: r_def)
    moreover have "buffer + rs + of_nat r - cbuf = offset + of_nat i" by (simp add: r_def)
    ultimately show False using dest [of r] src [OF that] by simp
  qed
  have t: "t = u\<lparr>vmem := filled (vmem u) (buffer + rs) (\<lambda>i. vmem u (cbuf + offset + of_nat i)) (unat chunk)\<rparr>"
    unfolding t_def by (rule copy_bytes_spec) (use unat_lt_u32 [of chunk] apart in simp_all)
  have srcv: "vmem u (cbuf + offset + of_nat i) = ?B ! (unat offset + i)" if "i < unat chunk" for i
  proof -
    have "cbuf + offset + of_nat i - cbuf = offset + of_nat i" by simp
    then show ?thesis using src [OF that] by (simp add: u(4) filled_def)
  qed
  show thesis
  proof (rule that [OF ch])
    show "reads_only dev io d0 m s t" unfolding t by (rule reads_only_vmem [OF rm u(2,3)])
    show "read_loop dev ?cs cbuf buffer c offset sz rs s =
       (if sz - chunk > 0 then Option.bind (get_next_cluster dev c t) (\<lambda>q.
          if fst q \<ge> 0x0FFFFFF8 then Some (rs + chunk, snd q)
          else read_loop dev ?cs cbuf buffer (fst q) 0 (sz - chunk) (rs + chunk) (snd q))
        else Some (rs + chunk, t))"
      using sz u(1)
      by (subst read_loop.simps)
        (simp add: chunk_def [symmetric] t_def [symmetric] Let_def word_neq_0_conv read_loop_done)
    show "load_bytes (buffer + rs) (unat chunk) t = take (unat chunk) (drop (unat offset) ?B)"
    proof (rule nth_equalityI)
      show "length (load_bytes (buffer + rs) (unat chunk) t) = length (take (unat chunk) (drop (unat offset) ?B))"
        using v(1) ch by (simp add: load_bytes_def)
      fix i
      assume "i < length (load_bytes (buffer + rs) (unat chunk) t)"
      then have i: "i < unat chunk" by (simp add: load_bytes_def)
      then have "unat (of_nat i :: u32) = i" using unat_lt_u32 [of chunk] by (simp add: unat_of_nat_u32)
      then have "vmem t (buffer + rs + of_nat i) = ?B ! (unat offset + i)"
        using i srcv [OF i] by (simp add: t filled_def)
      then show "load_bytes (buffer + rs) (unat chunk) t ! i = take (unat chunk) (drop (unat offset) ?B) ! i"
        using i v(1) src(2) [OF i] by (simp add: load_bytes_def)
    qed
    show "vmem t a = vmem s a" if "\<not> unat (a - cbuf) < unat ?cs" "\<not> unat (a - (buffer + rs)) < unat chunk" for a
      using that by (simp add: t u(4) filled_def)
  qed
qed

lemma read_loop_spec:
  assumes "disk_ready dev io d0 s" "room s m" "535 \<le> m" "volume_ok s" "\<forall>c \<in> set (c # cs). cluster_ok s c"
    and "file_chain (medium d0 s io) (unat (fat_start_sector s)) (c # cs)" "unat offset < unat (cluster_size s)"
    and "\<And>i. i < unat sz \<Longrightarrow> kept s (buffer + rs + of_nat i) \<and>
        \<not> unat (buffer + rs + of_nat i - cbuf) < unat (cluster_size s)"
    and "out = take (unat sz) (drop (unat offset) (file_bytes (medium d0 s io) s (c # cs)))"
  shows "\<exists>t. read_loop dev (cluster_size s) cbuf buffer c offset sz rs s = Some (rs + of_nat (length out), t) \<and>
    reads_only dev io d0 m s t \<and> load_bytes (buffer + rs) (length out) t = out \<and>
    (\<forall>a. kept s a \<and> \<not> unat (a - cbuf) < unat (cluster_size s) \<and> \<not> unat (a - (buffer + rs)) < unat sz \<longrightarrow>
       vmem t a = vmem s a)"
  using assms
proof (induction cs arbitrary: c offset sz rs s out rule: measure_induct_rule [where f = length])
  case (less cs)
  note prems = less.prems
  let ?med = "medium d0 s io" and ?cs = "unat (cluster_size s)" and ?dst = "buffer + rs"
  show ?case
  proof (cases "sz = 0")
    case True
    then show ?thesis using prems(2,9) by (simp add: read_loop_done reads_only_refl load_bytes_def)
  next
    case False
    have c: "cluster_ok s c" using prems(5) by simp
    obtain chunk t where ch: "unat chunk = min (unat sz) (?cs - unat offset)"
      and step: "read_loop dev (cluster_size s) cbuf buffer c offset sz rs s =
       (if sz - chunk > 0 then Option.bind (get_next_cluster dev c t) (\<lambda>q.
          if fst q \<ge> 0x0FFFFFF8 then Some (rs + chunk, snd q)
          else read_loop dev (cluster_size s) cbuf buffer (fst q) 0 (sz - chunk) (rs + chunk) (snd q))
        else Some (rs + chunk, t))"
      and t: "reads_only dev io d0 m s t"
        "load_bytes ?dst (unat chunk) t = take (unat chunk) (drop (unat offset) (cluster_bytes ?med s c))"
        "\<And>a. \<not> unat (a - cbuf) < ?cs \<Longrightarrow> \<not> unat (a - ?dst) < unat chunk \<Longrightarrow> vmem t a = vmem s a"
      by (rule read_chunk [OF prems(1,2,4) c prems(7) False, of buffer rs cbuf]) (use prems(8) in blast)+
    have le: "chunk \<le> sz" "unat (sz - chunk) = unat sz - unat chunk"
      using ch by (simp_all add: word_le_nat_alt unat_sub_no_wrap)
    have len: "length (cluster_bytes ?med s c) = ?cs" using prems(4) by simp
    show ?thesis
    proof (cases "sz - chunk > 0")
      case False
      then have "unat (sz - chunk) = 0" by (simp add: word_less_nat_alt)
      then have k: "unat chunk = unat sz" using le by (simp add: word_le_nat_alt)
      then have out: "out = take (unat chunk) (drop (unat offset) (cluster_bytes ?med s c))"
        using prems(9) ch len by simp
      then have "length out = unat chunk" using ch len by simp
      moreover have "chunk = sz" using k by (simp add: word_eq_iff_unat_u32)
      ultimately show ?thesis using step False t out by (intro exI [of _ t]) simp
    next
      case more: True
      then have k: "unat chunk = ?cs - unat offset" "unat chunk < unat sz" using le ch by (auto simp: word_less_nat_alt)
      have out: "out = drop (unat offset) (cluster_bytes ?med s c) @ take (unat (sz - chunk)) (file_bytes ?med s cs)"
        using prems(7,9) k len le(2) by simp
      have lb: "load_bytes ?dst (unat chunk) t = drop (unat offset) (cluster_bytes ?med s c)"
        using t(2) k(1) len by simp
      note g = same_geometry [OF t(1)]
      have rt: "room t m" using t(1) by (simp add: reads_only_def)
      obtain n u where u: "get_next_cluster dev c t = Some (n, u)" "reads_only dev io d0 m t u"
        "\<forall>a. kept t a \<longrightarrow> vmem u a = vmem t a" "n \<ge> 0x0FFFFFF8 \<longleftrightarrow> cs = []"
        "cs \<noteq> [] \<Longrightarrow> n = hd cs \<and> file_chain ?med (unat (fat_start_sector s)) cs"
        by (rule next_in_chain [of dev io d0 t m c cs, unfolded g, OF prems(1) rt prems(3,4) c prems(6)]) blast
      have kept_su: "kept t a = kept s a" "kept u a = kept s a" for a
        using reads_only_kept [OF t(1)] reads_only_kept [OF u(2)] by simp_all
      have su: "reads_only dev io d0 m s u" by (rule reads_only_trans [OF t(1) u(2)])
      note gu = same_geometry [OF su]
      have lu: "load_bytes ?dst (unat chunk) u = drop (unat offset) (cluster_bytes ?med s c)"
        unfolding lb [symmetric] by (rule load_bytes_cong) (use u(3) kept_su(1) prems(8) k(2) in simp)
      have fu: "vmem u a = vmem s a" if "kept s a" "\<not> unat (a - cbuf) < ?cs" "\<not> unat (a - ?dst) < unat chunk" for a
        using u(3) t(3) [OF that(2,3)] kept_su(1) that(1) by simp
      show ?thesis
      proof (cases cs)
        case Nil
        then have o1: "out = drop (unat offset) (cluster_bytes ?med s c)" using out by simp
        then have "length out = unat chunk" using len k(1) by simp
        moreover have "read_loop dev (cluster_size s) cbuf buffer c offset sz rs s = Some (rs + chunk, u)"
          using step more u(1,4) Nil by simp
        ultimately show ?thesis using su lu fu o1 k(2) by (intro exI [of _ u]) simp
      next
        case (Cons d ds)
        define out' where "out' = take (unat (sz - chunk)) (file_bytes ?med s (d # ds))"
        have n: "n = d" "\<not> n \<ge> 0x0FFFFFF8" "file_chain ?med (unat (fat_start_sector s)) (d # ds)"
          using u(4,5) Cons by simp_all
        have dst': "buffer + (rs + chunk) + of_nat i = ?dst + of_nat (unat chunk + i)" for i by (simp add: add.assoc)
        have "\<exists>v. read_loop dev (cluster_size u) cbuf buffer d 0 (sz - chunk) (rs + chunk) u =
            Some (rs + chunk + of_nat (length out'), v) \<and> reads_only dev io d0 m u v \<and>
            load_bytes (buffer + (rs + chunk)) (length out') v = out' \<and>
            (\<forall>a. kept u a \<and> \<not> unat (a - cbuf) < unat (cluster_size u) \<and>
               \<not> unat (a - (buffer + (rs + chunk))) < unat (sz - chunk) \<longrightarrow> vmem v a = vmem u a)"
        proof (rule less.IH [of ds u d])
          show "kept u (buffer + (rs + chunk) + of_nat i) \<and>
              \<not> unat (buffer + (rs + chunk) + of_nat i - cbuf) < unat (cluster_size u)" if "i < unat (sz - chunk)" for i
            using prems(8) [of "unat chunk + i"] that le(2) unfolding dst' kept_su gu by simp
        qed (use Cons prems(1,3-5,7) su n(3) in \<open>simp_all add: gu out'_def reads_only_def\<close>)
        then obtain v where v: "read_loop dev (cluster_size s) cbuf buffer c offset sz rs s = Some (rs + chunk + of_nat (length out'), v)"
          "reads_only dev io d0 m u v" "load_bytes (buffer + (rs + chunk)) (length out') v = out'"
          "\<And>a. kept s a \<Longrightarrow> \<not> unat (a - cbuf) < ?cs \<Longrightarrow> \<not> unat (a - (buffer + (rs + chunk))) < unat (sz - chunk) \<Longrightarrow>
             vmem v a = vmem u a"
          using step more u(1) n(1,2) kept_su(2) unfolding gu by auto
        have oo: "out = drop (unat offset) (cluster_bytes ?med s c) @ out'" using out Cons by (simp add: out'_def)
        then have lo: "length out = unat chunk + length out'" using len k(1) by simp
        have d: "buffer + (rs + chunk) = ?dst + of_nat (unat chunk)" by (simp add: add.assoc)
        have far: "\<not> unat (?dst + of_nat i - (buffer + (rs + chunk))) < unat (sz - chunk)" if "i < unat chunk" for i
          unfolding d by (rule before_offset [OF that]) (use le(2) k(2) unat_lt_u32 [of sz] in simp)
        have "load_bytes ?dst (unat chunk) v = load_bytes ?dst (unat chunk) u"
          by (rule load_bytes_cong) (use v(4) prems(8) k(2) far in simp)
        then have "load_bytes ?dst (length out) v = out"
          using lu v(3) oo unfolding lo load_bytes_append d [symmetric] by simp
        moreover have "vmem v a = vmem s a" if "kept s a" "\<not> unat (a - cbuf) < ?cs" "\<not> unat (a - ?dst) < unat sz" for a
        proof -
          have "\<not> unat (a - (buffer + (rs + chunk))) < unat (sz - chunk)"
          proof
            assume r: "unat (a - (buffer + (rs + chunk))) < unat (sz - chunk)"
            then have "unat (a - (buffer + (rs + chunk)) + chunk) = unat (a - (buffer + (rs + chunk))) + unat chunk"
              using le(2) k(2) unat_lt_u32 [of sz] by (intro unat_add_no_wrap) simp
            moreover have "a - (buffer + (rs + chunk)) + chunk = a - ?dst" by simp
            ultimately show False using that(3) r le(2) by simp
          qed
          then show ?thesis using v(4) [OF that(1,2)] fu [OF that(1,2)] that(3) k(2) by simp
        qed
        moreover have "rs + chunk + of_nat (length out') = rs + of_nat (length out)" by (simp add: lo)
        ultimately show ?thesis using v(1) reads_only_trans [OF su v(2)] by (intro exI [of _ v]) simp
      qed
    qed
  qed
qed

lemma kept_mono:
  "heap_start t = heap_start s \<Longrightarrow> heap_size t = heap_size s \<Longrightarrow> heap_live s \<subseteq> heap_live t \<Longrightarrow> kept s a \<Longrightarrow> kept t a"
  by (auto simp: kept_def)

lemma buffer_apart:
  assumes "heap_only s u" "heap_ok u" "n \<le> k" "heap_live u = insert (p, k) (heap_live s)" "(p, k) \<notin> heap_live s"
    and "kept s a"
  shows "kept u a \<and> \<not> unat (a - p) < n"
  using kept_mono [OF heap_only_fields(1,2) [OF assms(1)] _ assms(6)]
    fresh_buffer [OF assms(2,4,5) heap_only_fields(1,2) [OF assms(1)] assms(6)] assms(3,4) by auto

lemma fat32_read_spec:
  fixes s :: "'a fat_state_scheme"
  assumes rdy: "disk_ready dev io d0 s" and rm: "room s (unat (cluster_size s) + 600)" and v: "volume_ok s"
    and cl: "\<forall>c \<in> set cs. cluster_ok s c" and fc: "file_chain (medium d0 s io) (unat (fat_start_sector s)) cs"
    and hd: "n_inode (fnodes s node) = hd cs" and dest: "\<And>i. i < unat sz \<Longrightarrow> kept s (buffer + of_nat i)"
    and out_def: "out = take (unat sz) (drop (unat offset) (file_bytes (medium d0 s io) s cs))"
  shows "\<exists>t. fat32_read dev node offset sz buffer s = Some (of_nat (length out), t) \<and>
    load_bytes buffer (length out) t = out \<and> fs_only s t \<and> medium d0 t io = medium d0 s io \<and>
    heap_ok t \<and> heap_live t = heap_live s \<and> keeps_gaps s t \<and>
    (\<forall>a. kept s a \<and> \<not> unat (a - buffer) < unat sz \<longrightarrow> vmem t a = vmem s a)"
proof -
  let ?med = "medium d0 s io" and ?cs = "unat (cluster_size s)"
  obtain c0 cs0 where cs: "cs = c0 # cs0" using fc by (cases cs) auto
  obtain r t where t: "skip_clusters dev (cluster_size s) c0 offset s = Some (r, t)"
    "reads_only dev io d0 (?cs + 600) s t" "\<forall>a. kept s a \<longrightarrow> vmem t a = vmem s a" "chain_at ?med s cs (unat offset) r"
    using skip_clusters_spec [OF rdy rm _ v cl [unfolded cs] fc [unfolded cs], of offset] cs by auto
  have tl: "fs_only s t" "medium d0 t io = ?med" "room t (?cs + 600)" "heap_live t = heap_live s" "keeps_gaps s t"
    using t(2) by (simp_all add: reads_only_def)
  show ?thesis
  proof (cases r)
    case None
    then have "out = []" using t(4) by (simp add: out_def chain_at_def)
    moreover have "fat32_read dev node offset sz buffer s = Some (0, t)"
      using t(1) hd cs None by (simp add: fat32_read_def Let_def)
    ultimately show ?thesis using tl room_ok [OF tl(3)] t(3) by (simp add: load_bytes_def)
  next
    case (Some co)
    obtain c' o' where co: "co = (c', o')" by fastforce
    obtain cs' where cs': "unat o' < ?cs" "file_chain ?med (unat (fat_start_sector s)) (c' # cs')"
      "set (c' # cs') \<subseteq> set cs" "drop (unat o') (file_bytes ?med s (c' # cs')) = drop (unat offset) (file_bytes ?med s cs)"
      using t(4) unfolding Some co chain_at_def option.case prod.case by blast
    have n: "cluster_size s \<noteq> 0" "?cs + 55 < 2 ^ 32" "?cs + 23 \<le> ?cs + 600"
      using cluster_size_unat(2,3) [OF v] by auto
    obtain p k u where u: "kmalloc (cluster_size s) t = Some (p, u)" "heap_only t u" "heap_ok u" "?cs \<le> k"
      "heap_live u = insert (p, k) (heap_live t)" "(p, k) \<notin> heap_live t" "room u 535"
      "\<And>w :: 'a fat_state_scheme. keeps_gaps u w \<Longrightarrow> heap_live w = heap_live u \<Longrightarrow> keeps_gaps t (kfree p w)"
      by (rule temporary_buffer [OF tl(3) n]) (use that in auto)
    have b: "heap_start t = heap_start s" "heap_size t = heap_size s" using fs_only_base [OF tl(1)] by simp_all
    have ku: "kept u a \<and> \<not> unat (a - p) < ?cs" if "kept s a" for a
      using buffer_apart [OF u(2-6)] kept_mono [OF b _ that] tl(4) by simp
    have fsu: "fs_only s u" by (rule fs_only_trans [OF tl(1) fs_only_steps(1) [OF u(2)]])
    note f = fs_only_fields [OF fsu] and geo = fs_only_geometry [OF fsu]
    have mu: "medium d0 u io = ?med" using heap_only_io(1) [OF u(2)] tl(2) by simp
    have "\<exists>w. read_loop dev (cluster_size u) p buffer c' o' sz 0 u = Some (0 + of_nat (length out), w) \<and>
        reads_only dev io d0 535 u w \<and> load_bytes (buffer + 0) (length out) w = out \<and>
        (\<forall>a. kept u a \<and> \<not> unat (a - p) < unat (cluster_size u) \<and> \<not> unat (a - (buffer + 0)) < unat sz \<longrightarrow> vmem w a = vmem u a)"
    proof (rule read_loop_spec [where cs = cs'])
      show "disk_ready dev io d0 u" using rdy fs_only_base(3) [OF fsu] by simp
      show "\<forall>c \<in> set (c' # cs'). cluster_ok u c" using cl cs'(3) unfolding geo by blast
      show "kept u (buffer + 0 + of_nat i) \<and> \<not> unat (buffer + 0 + of_nat i - p) < unat (cluster_size u)" if "i < unat sz" for i
        using ku [OF dest [OF that]] unfolding geo by simp
      show "out = take (unat sz) (drop (unat o') (file_bytes (medium d0 u io) u (c' # cs')))"
        unfolding mu geo cs'(4) by (simp add: out_def)
    qed (use u(7) v cs'(1,2) in \<open>simp_all add: geo mu f\<close>)
    then obtain w where w: "read_loop dev (cluster_size s) p buffer c' o' sz 0 u = Some (of_nat (length out), w)"
      "reads_only dev io d0 535 u w" "load_bytes buffer (length out) w = out"
      "\<forall>a. kept u a \<and> \<not> unat (a - p) < ?cs \<and> \<not> unat (a - buffer) < unat sz \<longrightarrow> vmem w a = vmem u a"
      by (auto simp: geo(3))
    have wl: "fs_only u w" "medium d0 w io = ?med" "heap_ok w" "(p, k) \<in> heap_live w" "heap_live w = heap_live u" "keeps_gaps u w"
      using w(2) mu u(5) room_ok by (auto simp: reads_only_def)
    define x where "x = kfree p w"
    have "fat32_read dev node offset sz buffer s = Some (of_nat (length out), x)"
      using t(1) hd cs Some co u(1) w(1) by (simp add: fat32_read_def Let_def x_def)
    moreover have "vmem x = vmem w" "medium d0 x io = ?med"
      using heap_only_io [OF kfree_heap_only, of p w] wl(2) by (simp_all add: x_def)
    moreover from this(1) have "load_bytes buffer (length out) x = out" using w(3) by (simp add: load_bytes_def)
    moreover have "fs_only s x"
      unfolding x_def by (rule fs_only_trans [OF fs_only_trans [OF fsu wl(1)] fs_only_steps(1) [OF kfree_heap_only]])
    moreover have "heap_ok x" "heap_live x = heap_live s"
      using kheap.release_live [OF wl(3,4)] wl(5) u(5,6) tl(4) by (simp_all add: x_def)
    moreover have "keeps_gaps s x" using keeps_gaps_trans [OF room_ok [OF tl(3)] tl(5) u(8) [OF wl(6,5)]] by (simp add: x_def)
    moreover have "vmem x a = vmem s a" if "kept s a" "\<not> unat (a - buffer) < unat sz" for a
      using w(4) ku [OF that(1)] that t(3) heap_only_io(2) [OF u(2)] \<open>vmem x = vmem w\<close> by simp
    ultimately show ?thesis by blast
  qed
qed

subsection \<open>Reading a file\<close>

text \<open>
  The volume of the witnesses: one sector to a cluster, the table in sector 1, the data from
  sector 2 on, a file in the clusters 2 and 5, and in cluster 7 the root directory with one entry
  for it, \<open>SHELL.BIN\<close>.
\<close>

definition vol_dir :: "u16 list" where
  "vol_dir = [0x4853, 0x4C45, 0x204C, 0x2020, 0x4942, 0x204E, 0, 0, 0, 0, 0, 0, 0, 2, 600, 0, 0]"

definition vol_disk :: disk where
  "vol_disk = demo_disk\<lparr>d_store :=
     (\<lambda>n. if 1792 \<le> n \<and> n < 1809 then vol_dir ! (n - 1792) else of_nat n)
       (6 := 0x0102, 7 := 1, 8 := 1, 18 := 1, 19 := 0, 22 := 7, 23 := 0, 260 := 5, 261 := 0, 266 := 0xFFFF, 267 := 0x0FFF, 270 := 0xFFFF, 271 := 0x0FFF)\<rparr>"

definition vol_dev :: device where
  "vol_dev h port =
     (let d = disk_of 0x1F0 vol_disk h
      in if port = 0x1F7 then (if d_left d > 0 then 0x48 else 0x40)
         else if port = 0x1F0 then d_store d (d_pos d) else 0x20)"

definition demo_node :: fs_node where
  "demo_node = \<lparr>n_name = [], n_mask = 0, n_uid = 0, n_gid = 0, n_flags = FS_FILE, n_inode = 2, n_length = 600,
     n_impl = 0, n_read = Fat32_Read, n_write = FS_Null, n_open = FS_Null, n_close = FS_Null,
     n_readdir = FS_Null, n_finddir = FS_Null, n_ptr = 0\<rparr>"

definition demo_fat :: fat_state where
  "demo_fat = vfs_state.extend
     (ata_state.extend demo_ata \<lparr>fs_root = 0, fnodes = (\<lambda>_. demo_node)(0x200 := demo_node\<lparr>n_inode := 7\<rparr>), dirents = \<lambda>_. \<lparr>de_name = [], de_inode = 0\<rparr>\<rparr>)
     \<lparr>bpb = (read_bpb 0 demo_ata)\<lparr>bytes_per_sector := 512, sectors_per_cluster := 1\<rparr>,
      fat_start_sector = 1, data_start_sector = 2, root_cluster = 2\<rparr>"

lemmas demo_fat_defs = demo_fat_def demo_ata_def demo_proc_def demo_keyboard_def demo_timer_def
  vfs_state.extend_def ata_state.extend_def proc_state.extend_def keyboard_state.extend_def
  timer_state.extend_def heap_state.extend_def

lemma demo_fat_heap: "heap_inv demo_fat [Blk 0xC0000000 0x100000 True]"
  using demo_heap_inv by (simp add: heap_inv_def demo_fat_defs)

lemma demo_fat_simps:
  "fat_start_sector demo_fat = 1" "data_start_sector demo_fat = 2" "bytes_per_sector (bpb demo_fat) = 512"
  "sectors_per_cluster (bpb demo_fat) = 1" "fnodes demo_fat = (\<lambda>_. demo_node)(0x200 := demo_node\<lparr>n_inode := 7\<rparr>)" "heap_start demo_fat = 0xC0000000"
  "io_log demo_fat = []"
  by (simp_all add: demo_fat_defs demo_heap_def heap_init_def upd_blk_def Let_def demo_paging_def demo_one_def
      demo_pmm_def demo_idt_def demo_gdt_def demo_console_def paging_state.extend_def pmm_state.extend_def
      idt_state.extend_def gdt_state.extend_def console_state.extend_def)

lemma vol_ready: "disk_ready vol_dev 0x1F0 vol_disk demo_fat"
proof -
  have "drive_at 0x1F0 vol_disk vol_dev"
    unfolding drive_at_def Let_def by (auto simp: vol_dev_def Let_def bit_numeral_rec)
  then show ?thesis using demo_ata_ready(1) by (simp add: disk_ready_def demo_fat_def vfs_state.extend_def ata_state.extend_def)
qed

lemma vol_medium: "medium vol_disk demo_fat 0x1F0 = d_store vol_disk"
  by (simp add: demo_fat_simps)

lemma vol_ok: "volume_ok demo_fat" "unat (cluster_size demo_fat) = 512"
  "room demo_fat (unat (cluster_size demo_fat) + 600)"
proof -
  show "volume_ok demo_fat" by (simp add: volume_ok_def demo_fat_simps)
  show c: "unat (cluster_size demo_fat) = 512" by (simp add: cluster_size_def demo_fat_simps)
  show "room demo_fat (unat (cluster_size demo_fat) + 600)"
    using demo_fat_heap unfolding c by (auto simp: room_def intro!: exI [of _ "[Blk 0xC0000000 0x100000 True]"])
qed

lemma vol_chains:
  "file_chain (medium vol_disk demo_fat 0x1F0) (unat (fat_start_sector demo_fat)) [2, 5]"
  "file_chain (medium vol_disk demo_fat 0x1F0) (unat (fat_start_sector demo_fat)) [7]"
  "\<forall>c \<in> set [2, 5]. cluster_ok demo_fat c" "\<forall>c \<in> set [7]. cluster_ok demo_fat c"
  by (simp_all add: vol_medium demo_fat_simps fat_entry_def vol_disk_def push_bit_eq_mult cluster_ok_def)

text \<open>
  C12: \<open>fat32_read\<close> delivers the bytes of the file: on a volume with 512-byte sectors, when the clusters
  of the node form a chain that the allocation table ends, the call returns the number of bytes from
  the offset to the end of the chain, at most \<open>sz\<close>, and these bytes are in the buffer. Nothing
  else outside of the free part of the heap is written, the medium is unchanged and every temporary
  buffer has been freed.
\<close>

theorem fat32_read_correct:
  assumes "disk_ready dev io d0 s" "room s (unat (cluster_size s) + 600)" "volume_ok s"
    and "file_chain (medium d0 s io) (unat (fat_start_sector s)) cs" "\<forall>c \<in> set cs. cluster_ok s c"
    and "n_inode (fnodes s node) = hd cs" "\<forall>i < unat sz. kept s (buffer + of_nat i)"
  shows "\<exists>t. let out = take (unat sz) (drop (unat offset) (file_bytes (medium d0 s io) s cs)) in
    fat32_read dev node offset sz buffer s = Some (of_nat (length out), t) \<and>
    load_bytes buffer (length out) t = out \<and> medium d0 t io = medium d0 s io \<and>
    heap_ok t \<and> heap_live t = heap_live s \<and>
    (\<forall>a. kept s a \<and> unat sz \<le> unat (a - buffer) \<longrightarrow> vmem t a = vmem s a)"
  using fat32_read_spec [OF assms(1-3,5,4,6) _ refl, of sz buffer offset] assms(7)
  by (auto simp: Let_def not_less)

theorem fat32_read_correct_witness:
  "\<exists>t. fat32_read vol_dev 0x100 510 4 0x5000 demo_fat = Some (4, t) \<and>
     load_bytes 0x5000 4 t = [0xFF, 0x02, 0x00, 0x05]"
proof -
  let ?med = "medium vol_disk demo_fat 0x1F0"
  have ke: "\<forall>i < unat (4 :: u32). kept demo_fat (0x5000 + of_nat i)"
    by (simp add: kept_def demo_fat_simps unat_add_no_wrap unat_of_nat_u32)
  have out: "take (unat (4 :: u32)) (drop (unat (510 :: u32)) (file_bytes ?med demo_fat [2, 5])) = [0xFF, 0x02, 0x00, 0x05]"
    by (simp add: vol_medium file_bytes_def cluster_bytes_def demo_fat_simps drop_map drop_upt take_map take_upt
        upt_rec_numeral sbyte_def vol_disk_def)
  have "n_inode (fnodes demo_fat 0x100) = hd [2, 5]" by (simp add: demo_fat_simps demo_node_def)
  from fat32_read_correct [OF vol_ready vol_ok(3,1) vol_chains(1,3) this ke, of 510] show ?thesis
    unfolding out Let_def by (auto simp: numeral_eq_Suc)
qed

end
