(* ===== verification/Fat32_Dirs.thy ===== *)
theory Fat32_Dirs
  imports Fat32_Files
begin

text \<open>
  Directories and mounting: what \<open>fat32_finddir\<close> finds is the first visible entry of the
  directory on the medium with the given name, and what \<open>fat32_init\<close> takes from the boot sector.
\<close>

subsection \<open>Directories on the medium\<close>

definition le16 :: "u8 list \<Rightarrow> nat \<Rightarrow> u16" where
  "le16 bs k = ucast (bs ! k) OR push_bit 8 (ucast (bs ! Suc k))"

definition le32 :: "u8 list \<Rightarrow> nat \<Rightarrow> u32" where
  "le32 bs k = ucast (le16 bs k) OR push_bit 16 (ucast (le16 bs (k + 2)))"

definition entry_of :: "u8 list \<Rightarrow> fat_dir_entry" where
  "entry_of bs = \<lparr>e_name = take 11 bs, e_attr = bs ! 11, e_nt_res = bs ! 12, e_crt_time_tenth = bs ! 13,
     e_crt_time = le16 bs 14, e_crt_date = le16 bs 16, e_lst_acc_date = le16 bs 18, e_clus_hi = le16 bs 20,
     e_wrt_time = le16 bs 22, e_wrt_date = le16 bs 24, e_clus_lo = le16 bs 26, e_size = le32 bs 28\<rparr>"

fun entries_of :: "u8 list \<Rightarrow> fat_dir_entry list" where
  "entries_of bs = (if length bs < 32 then [] else entry_of (take 32 bs) # entries_of (drop 32 bs))"

declare entries_of.simps [simp del]

text \<open>
  Entries are visible up to the first one whose name starts with 0, except for deleted ones and
  for those with one of the read-only, hidden, system or volume attributes.
\<close>

definition visible :: "fat_dir_entry list \<Rightarrow> fat_dir_entry list" where
  "visible es = filter (\<lambda>e. e_name e ! 0 \<noteq> 0xE5 \<and> (\<forall>k < 4. \<not> bit (e_attr e) k))
     (takeWhile (\<lambda>e. e_name e ! 0 \<noteq> 0) es)"

definition upto_nul :: "string \<Rightarrow> string" where
  "upto_nul str = takeWhile (\<lambda>c. c \<noteq> NUL) str"

definition find_entry :: "string \<Rightarrow> fat_dir_entry list \<Rightarrow> fat_dir_entry option" where
  "find_entry name es = find (\<lambda>e. upto_nul name = upto_nul (entry_name e)) (visible es)"

lemma skipped_iff: "skipped e \<longleftrightarrow> e_name e ! 0 = 0xE5 \<or> (\<exists>k < 4. bit (e_attr e) k)"
proof -
  have m: "ATTR_LONG_NAME = mask 4" by (simp add: ATTR_LONG_NAME_def mask_eq_exp_minus_1)
  have "bit (e_attr e AND ATTR_LONG_NAME) k \<longleftrightarrow> k < 4 \<and> bit (e_attr e) k" for k
    unfolding m bit_and_iff bit_mask_iff by (auto dest: bit_imp_le_length)
  then have "e_attr e AND ATTR_LONG_NAME = 0 \<longleftrightarrow> (\<forall>k < 4. \<not> bit (e_attr e) k)"
    unfolding bit_eq_iff by auto
  then show ?thesis by (auto simp: skipped_def)
qed

lemma name_match_iff: "name_match a b \<longleftrightarrow> upto_nul a = upto_nul b"
  by (induction a b rule: name_match.induct) (auto simp: upto_nul_def)

lemma entry_in_memory:
  "dir_entry p i s = entry_of (load_bytes (p + of_nat i * 32) 32 s)"
  by (simp add: dir_entry_def entry_of_def load16_def load32_def le16_def le32_def load_bytes_def Let_def
      sizeof_dir_entry_def take_map take_upt add.assoc upt_rec_numeral)

lemma entries_of_step:
  "length xs = 32 \<Longrightarrow> entries_of (xs @ ys) = entry_of xs # entries_of ys" "entries_of [] = []"
  by (subst entries_of.simps, simp)+

lemma entries_of_append: "32 dvd length xs \<Longrightarrow> entries_of (xs @ ys) = entries_of xs @ entries_of ys"
proof (induction xs rule: entries_of.induct)
  case (1 xs)
  show ?case
  proof (cases "length xs < 32")
    case True
    then have "xs = []" using "1.prems" by (auto dest: dvd_imp_le)
    then show ?thesis by (simp add: entries_of_step)
  next
    case False
    then have "length (take 32 xs) = 32" "32 dvd length (drop 32 xs)" using "1.prems" by auto
    then have "entries_of (take 32 xs @ drop 32 xs @ ys) = (entry_of (take 32 xs) # entries_of (drop 32 xs)) @ entries_of ys"
      using "1.IH" False by (simp add: entries_of_step(1))
    moreover have "entries_of (take 32 xs @ drop 32 xs) = entry_of (take 32 xs) # entries_of (drop 32 xs)"
      using False by (intro entries_of_step(1)) simp
    ultimately show ?thesis by (simp flip: append_assoc)
  qed
qed

text \<open>The entries of a cluster that lies in memory at \<open>p\<close>.\<close>

lemma entries_in_memory:
  "map (\<lambda>j. dir_entry p j s) [i..<i + n] = entries_of (load_bytes (p + of_nat (i * 32)) (n * 32) s)"
proof (induction n arbitrary: i)
  case 0
  then show ?case by (simp add: load_bytes_def entries_of_step)
next
  case (Suc n)
  have "p + of_nat (i * 32) + of_nat 32 = p + of_nat (Suc i * 32)" by simp
  then have "load_bytes (p + of_nat (i * 32)) (Suc n * 32) s =
      load_bytes (p + of_nat (i * 32)) 32 s @ load_bytes (p + of_nat (Suc i * 32)) (n * 32) s"
    using load_bytes_append [of "p + of_nat (i * 32)" 32 "n * 32" s] by (simp add: ac_simps)
  moreover have "length (load_bytes (p + of_nat (i * 32)) 32 s) = 32" by (simp add: load_bytes_def)
  moreover have "[i..<i + Suc n] = i # [Suc i..<Suc i + n]" by (simp add: upt_rec)
  ultimately show ?case using Suc.IH [of "Suc i"] by (simp add: entries_of_step entry_in_memory mult.commute)
qed

lemma find_entry_Cons:
  "find_entry name (e # es) =
     (if e_name e ! 0 = 0 then None
      else if skipped e \<or> \<not> name_match name (entry_name e) then find_entry name es else Some e)"
  by (auto simp: find_entry_def visible_def skipped_iff name_match_iff)

text \<open>The scan of one cluster decides the search unless it has to go on.\<close>

lemma finddir_scan_spec:
  "(\<forall>k. finddir_scan n buf i name s = Dir_Found k \<longrightarrow> i \<le> k \<and> k < i + n) \<and>
   find_entry name (map (\<lambda>j. dir_entry buf j s) [i..<i + n] @ rest) =
     (case finddir_scan n buf i name s of Dir_End \<Rightarrow> None | Dir_Found k \<Rightarrow> Some (dir_entry buf k s)
      | Dir_More _ \<Rightarrow> find_entry name rest)"
proof (induction n arbitrary: i)
  case (Suc n)
  have "[i..<i + Suc n] = i # [Suc i..<Suc i + n]" by (simp add: upt_rec)
  then show ?case using Suc.IH [of "Suc i"]
    by (auto simp: Let_def find_entry_Cons split: if_splits)
qed simp

subsection \<open>Searching a directory\<close>

lemma heap_fnodes [simp]:
  "heap_inv (s\<lparr>fnodes := f\<rparr>) bs = heap_inv s bs" "heap_live (s\<lparr>fnodes := f\<rparr>) = heap_live s"
  "heap_ok (s\<lparr>fnodes := f\<rparr>) = heap_ok s" "room (s\<lparr>fnodes := f\<rparr>) m = room s m"
  by (simp_all add: heap_live_def heap_ok_def heap_inv_def room_def)

text \<open>Searching also writes nodes.\<close>

definition node_only :: "'a fat_state_scheme \<Rightarrow> 'a fat_state_scheme \<Rightarrow> bool" where
  "node_only s t \<longleftrightarrow> fs_only s (t\<lparr>fnodes := fnodes s\<rparr>)"

lemma node_only_trans: "node_only s t \<Longrightarrow> node_only t u \<Longrightarrow> node_only s u"
  by (cases s; cases t; cases u) (simp add: node_only_def fs_only_def)

lemma node_only_steps:
  "fs_only s t \<Longrightarrow> node_only s t" "node_only s (s\<lparr>fnodes := f\<rparr>)"
proof -
  show "fs_only s t \<Longrightarrow> node_only s t" by (cases s; cases t) (simp add: node_only_def fs_only_def)
  show "node_only s (s\<lparr>fnodes := f\<rparr>)" by (simp add: node_only_def)
qed

text \<open>
  The outcome of a search with the live allocations \<open>L\<close> besides the buffers of the driver: no node,
  or a fresh node filled in from the entry.
\<close>

definition looked_up ::
  "(u32 \<times> nat) set \<Rightarrow> (u32 \<Rightarrow> fs_node) \<Rightarrow> fat_dir_entry option \<Rightarrow> u32 \<Rightarrow> 'a fat_state_scheme \<Rightarrow> bool" where
  "looked_up L nodes r q t \<longleftrightarrow> heap_ok t \<and>
     (case r of
        None \<Rightarrow> q = 0 \<and> fnodes t = nodes \<and> heap_live t = L
      | Some e \<Rightarrow> q \<noteq> 0 \<and> fnodes t = nodes(q := fill_node e (nodes q)) \<and>
          (\<exists>l \<ge> 184. (q, l) \<notin> L \<and> heap_live t = insert (q, l) L))"

lemma kfree_room:
  assumes "(p, k) \<in> heap_live t" "room t m"
  shows "room (kfree p t) m"
proof -
  obtain bs where bs: "heap_inv t bs" "has_room m bs" using assms(2) by (auto simp: room_def)
  then obtain b where b: "b \<in> set bs" "\<not> free b" "p = adr b + BLOCK_HEADER_SIZE"
    using assms(1) heap_live_eq [OF bs(1)] by (auto simp: live_of_def)
  obtain xs ys where xy: "bs = xs @ b # ys" using split_list [OF b(1)] by blast
  have "has_room m (free_abs xs b ys)" using free_abs_gap(1) [of t xs b ys _ m] bs b(2) xy by (auto simp: has_room_gap)
  then show ?thesis using kfree_refines [of t xs b ys] bs(1) b(2,3) xy by (auto simp: room_def)
qed

lemma room_mono: "room s m \<Longrightarrow> m' \<le> m \<Longrightarrow> room s m'"
  by (force simp: room_def has_room_def)

lemma release_buffer:
  fixes t :: "'a fat_state_scheme"
  assumes "heap_ok t" "heap_live t = insert (p, k) L" "(p, k) \<notin> L"
  shows "heap_ok (kfree p t)" "heap_live (kfree p t) = L" "fnodes (kfree p t) = fnodes t" "vmem (kfree p t) = vmem t"
  using kheap.release_live [OF assms(1), of p k] assms(2,3) heap_only_io(2) [OF kfree_heap_only, of p t]
    fs_only_fields(4) [OF fs_only_steps(1) [OF kfree_heap_only]] by auto

lemma found_entry:
  fixes s :: "'a fat_state_scheme"
  assumes rm: "room s m" "239 \<le> m" and live: "heap_live s = insert (p, k) L" "(p, k) \<notin> L"
  shows "\<exists>q t. Option.bind (kmalloc sizeof_fs_node s) (\<lambda>q.
      let e = dir_entry buf i (snd q);
          t = (snd q)\<lparr>fnodes := (fnodes (snd q))(fst q := fill_node e (fnodes (snd q) (fst q)))\<rparr>
      in Some (fst q, kfree p t)) = Some (q, t) \<and>
    looked_up L (fnodes s) (Some (dir_entry buf i s)) q t \<and> room t (m - 239) \<and> node_only s t \<and>
    vmem t = vmem s \<and> io_log t = io_log s"
proof -
  have n: "sizeof_fs_node \<noteq> 0" "unat sizeof_fs_node + 55 < 2 ^ 32" "unat sizeof_fs_node + 23 \<le> m"
    using rm(2) by (simp_all add: c_consts)
  obtain q l u where u: "kmalloc sizeof_fs_node s = Some (q, u)" "heap_only s u" "heap_ok u" "184 \<le> l"
    "heap_live u = insert (q, l) (heap_live s)" "(q, l) \<notin> heap_live s" "room u (m - 239)"
    by (rule temporary_buffer [OF rm(1) n]) (use rm(2) that in \<open>auto simp: c_consts\<close>)
  have io: "vmem u = vmem s" "fnodes u = fnodes s" "io_log u = io_log s"
    using heap_only_io [OF u(2)] fs_only_fields(4) [OF fs_only_steps(1) [OF u(2)]] by simp_all
  have q0: "q \<noteq> 0" using live_placed(4) [OF u(3), of q l] u(5) by simp
  have e: "dir_entry buf i u = dir_entry buf i s"
    by (simp add: dir_entry_def load16_def load32_def load_bytes_def io Let_def)
  define t where "t = u\<lparr>fnodes := (fnodes s)(q := fill_node (dir_entry buf i s) (fnodes s q))\<rparr>"
  have t: "heap_ok t" "heap_live t = insert (p, k) (insert (q, l) L)" "(p, k) \<notin> insert (q, l) L"
    using u(3,5,6) live by (auto simp: t_def)
  note r = release_buffer [OF t]
  have "looked_up L (fnodes s) (Some (dir_entry buf i s)) q (kfree p t)"
    using r q0 u(4,6) live by (auto simp: looked_up_def t_def)
  moreover have "room (kfree p t) (m - 239)"
    by (rule kfree_room [of p k]) (use t(2) u(7) in \<open>simp_all add: t_def\<close>)
  moreover have "node_only s (kfree p t)"
    using node_only_trans [OF node_only_steps(1) [OF fs_only_steps(1) [OF u(2)]]
        node_only_trans [OF node_only_steps(2) node_only_steps(1) [OF fs_only_steps(1) [OF kfree_heap_only]]]]
    by (simp add: t_def)
  moreover have "io_log (kfree p t) = io_log s" using heap_only_io(1) [OF kfree_heap_only, of p t] io(3) by (simp add: t_def)
  ultimately show ?thesis using u(1) io e r(4) by (simp add: t_def Let_def)
qed

text \<open>One cluster of a directory, read into the buffer at \<open>p\<close>.\<close>

lemma directory_cluster:
  fixes s :: "'a fat_state_scheme"
  assumes rdy: "disk_ready dev io d0 s" and rm: "room s m" and v: "volume_ok s" "cluster_ok s c"
  obtains u where "read_cluster dev c p s = Some (True, u)" "reads_only dev io d0 m s u"
    "\<And>a. \<not> unat (a - p) < unat (cluster_size s) \<Longrightarrow> vmem u a = vmem s a"
    "map (\<lambda>j. dir_entry p j u) [0..<unat (cluster_size s div sizeof_dir_entry)] =
      entries_of (cluster_bytes (medium d0 s io) s c)"
    "32 dvd length (cluster_bytes (medium d0 s io) s c)"
proof -
  let ?B = "cluster_bytes (medium d0 s io) s c" and ?cs = "unat (cluster_size s)"
  obtain u where u: "read_cluster dev c p s = Some (True, u)" "xfer_only s u" "medium d0 u io = medium d0 s io"
    "vmem u = filled (vmem s) p (\<lambda>j. ?B ! j) ?cs"
    using read_cluster_spec [OF rdy v] by blast
  have len: "length ?B = ?cs" "32 dvd ?cs" using v(1) cluster_size_unat(1) [OF v(1)] by simp_all
  have "load_bytes p ?cs u = ?B"
  proof (rule nth_equalityI)
    show "length (load_bytes p ?cs u) = length ?B" by (simp add: load_bytes_def len)
    fix i
    assume "i < length (load_bytes p ?cs u)"
    then have "i < ?cs" "unat (of_nat i :: u32) = i"
      using unat_lt_u32 [of "cluster_size s"] by (simp_all add: load_bytes_def unat_of_nat_u32)
    then show "load_bytes p ?cs u ! i = ?B ! i" by (simp add: load_bytes_def u(4) filled_def)
  qed
  moreover have "unat (cluster_size s div sizeof_dir_entry) * 32 = ?cs"
    using len(2) by (simp add: unat_div_u32 c_consts)
  ultimately have "map (\<lambda>j. dir_entry p j u) [0..<unat (cluster_size s div sizeof_dir_entry)] = entries_of ?B"
    using entries_in_memory [of p u 0 "unat (cluster_size s div sizeof_dir_entry)"] by simp
  moreover have "reads_only dev io d0 m s u"
    using reads_only_vmem [OF rm u(2,3), of dev "vmem u"] by simp
  ultimately show thesis using that [OF u(1)] len u(4) by (simp add: filled_def)
qed

text \<open>Ending a search without a result.\<close>

lemma nothing_found:
  fixes s u :: "'a fat_state_scheme"
  assumes "reads_only dev io d0 m s u" "heap_live u = insert (p, k) L" "(p, k) \<notin> L"
  shows "looked_up L (fnodes s) None 0 (kfree p u) \<and> room (kfree p u) (m - 239) \<and> node_only s (kfree p u) \<and>
    medium d0 (kfree p u) io = medium d0 s io \<and> vmem (kfree p u) = vmem u"
proof -
  have u: "fs_only s u" "medium d0 u io = medium d0 s io" "room u m" using assms(1) by (simp_all add: reads_only_def)
  note r = release_buffer [OF room_ok [OF u(3)] assms(2,3)]
  have "room (kfree p u) (m - 239)" using kfree_room [of p k u m] room_mono assms(2) u(3) by fastforce
  moreover have "node_only s (kfree p u)"
    by (rule node_only_steps(1) [OF fs_only_trans [OF u(1) fs_only_steps(1) [OF kfree_heap_only]]])
  moreover have "medium d0 (kfree p u) io = medium d0 s io" using heap_only_io(1) [OF kfree_heap_only, of p u] u(2) by simp
  ultimately show ?thesis using r fs_only_fields(4) [OF u(1)] by (simp add: looked_up_def)
qed

lemma finddir_loop_spec:
  fixes s :: "'a fat_state_scheme"
  assumes "disk_ready dev io d0 s" "room s m" "535 \<le> m" "volume_ok s" "\<forall>c \<in> set (c # cs). cluster_ok s c"
    and "file_chain (medium d0 s io) (unat (fat_start_sector s)) (c # cs)" "c < 0x0FFFFFF8"
    and "heap_live s = insert (p, k) L" "(p, k) \<notin> L"
  shows "\<exists>q t. finddir_loop dev (unat (cluster_size s div sizeof_dir_entry)) p c name s = Some (q, t) \<and>
    looked_up L (fnodes s) (find_entry name (entries_of (file_bytes (medium d0 s io) s (c # cs)))) q t \<and>
    room t (m - 239) \<and> node_only s t \<and> medium d0 t io = medium d0 s io \<and> (\<forall>a. kept s a \<and> \<not> unat (a - p) < unat (cluster_size s) \<longrightarrow> vmem t a = vmem s a)"
  using assms
proof (induction cs arbitrary: c s rule: measure_induct_rule [where f = length])
  case (less cs)
  note prems = less.prems
  let ?med = "medium d0 s io" and ?per = "unat (cluster_size s div sizeof_dir_entry)"
  let ?rest = "entries_of (file_bytes ?med s cs)"
  have c: "cluster_ok s c" using prems(5) by simp
  obtain u where u: "read_cluster dev c p s = Some (True, u)" "reads_only dev io d0 m s u"
    "\<And>a. \<not> unat (a - p) < unat (cluster_size s) \<Longrightarrow> vmem u a = vmem s a"
    "map (\<lambda>j. dir_entry p j u) [0..<?per] = entries_of (cluster_bytes ?med s c)"
    "32 dvd length (cluster_bytes ?med s c)"
    by (rule directory_cluster [OF prems(1,2,4) c, of p]) blast
  have ul: "heap_ok u" "heap_live u = insert (p, k) L" "room u m" "fnodes u = fnodes s"
    using u(2) prems(8) room_ok fs_only_fields(4) [of s u] by (auto simp: reads_only_def)
  have fe: "find_entry name (entries_of (file_bytes ?med s (c # cs))) =
      (case finddir_scan ?per p 0 name u of Dir_End \<Rightarrow> None | Dir_Found i \<Rightarrow> Some (dir_entry p i u)
       | Dir_More _ \<Rightarrow> find_entry name ?rest)"
    using finddir_scan_spec [of ?per p 0 name u ?rest] u(4) entries_of_append [OF u(5)] by simp
  note step = finddir_loop.simps [of dev ?per p c name s]
  show ?case
  proof (cases "finddir_scan ?per p 0 name u")
    case Dir_End
    have "finddir_loop dev ?per p c name s = Some (0, kfree p u)" using prems(7) u(1) Dir_End by (subst step) simp
    then show ?thesis
      using fe Dir_End nothing_found [OF u(2) ul(2) prems(9)] u(3) by (auto simp del: file_bytes_simps)
  next
    case (Dir_Found i)
    have m: "239 \<le> m" using prems(3) by simp
    obtain q t where t: "finddir_loop dev ?per p c name s = Some (q, t)" "looked_up L (fnodes s) (Some (dir_entry p i u)) q t"
      "room t (m - 239)" "node_only u t" "vmem t = vmem u" "io_log t = io_log u"
      using found_entry [OF ul(3) m ul(2) prems(9), of p i] prems(7) u(1) Dir_Found ul(4) by (subst (asm) step) auto
    have "node_only s t" using node_only_trans [OF node_only_steps(1) t(4)] u(2) by (simp add: reads_only_def)
    moreover have "medium d0 t io = ?med" using t(6) u(2) by (simp add: reads_only_def)
    ultimately show ?thesis using t(1-3,5) fe Dir_Found u(3) by (auto simp del: file_bytes_simps)
  next
    case (Dir_More x)
    note g = same_geometry [OF u(2)]
    obtain n w where w: "get_next_cluster dev c u = Some (n, w)" "reads_only dev io d0 m u w"
      "\<forall>a. kept u a \<longrightarrow> vmem w a = vmem u a" "n \<ge> 0x0FFFFFF8 \<longleftrightarrow> cs = []"
      "cs \<noteq> [] \<Longrightarrow> n = hd cs \<and> file_chain ?med (unat (fat_start_sector s)) cs"
      by (rule next_in_chain [of dev io d0 u m c cs, unfolded g, OF prems(1) ul(3) prems(3,4) c prems(6)]) blast
    have sw: "reads_only dev io d0 m s w" by (rule reads_only_trans [OF u(2) w(2)])
    have wl: "heap_ok w" "heap_live w = insert (p, k) L" "fnodes w = fnodes s" "room w m"
      using sw prems(8) room_ok fs_only_fields(4) [of s w] by (auto simp: reads_only_def)
    have fw: "vmem w a = vmem s a" if "kept s a" "\<not> unat (a - p) < unat (cluster_size s)" for a
      using w(3) u(3) [OF that(2)] that(1) reads_only_kept [OF u(2)] by simp
    have st: "finddir_loop dev ?per p c name s = finddir_loop dev ?per p n name w"
      using prems(7) u(1) Dir_More w(1) by (subst step) simp
    have fe': "find_entry name (entries_of (file_bytes ?med s (c # cs))) = find_entry name ?rest" using fe Dir_More by simp
    show ?thesis
    proof (cases cs)
      case Nil
      have "\<not> n < 0x0FFFFFF8" using w(4) Nil by (simp add: not_less)
      then have "finddir_loop dev ?per p n name w = Some (0, kfree p w)" by (subst finddir_loop.simps) simp
      moreover have "find_entry name ?rest = None" using Nil by (simp add: find_entry_def visible_def entries_of_step)
      ultimately show ?thesis using st fe' nothing_found [OF sw wl(2) prems(9)] fw by (auto simp del: file_bytes_simps)
    next
      case (Cons d ds)
      note gw = same_geometry [OF sw]
      have n: "n = d" "\<not> n \<ge> 0x0FFFFFF8" "file_chain ?med (unat (fat_start_sector s)) (d # ds)"
        using w(4,5) Cons by simp_all
      have "length ds < length cs" "\<forall>c \<in> set (d # ds). cluster_ok s c" "d < 0x0FFFFFF8" using Cons prems(5) n by auto
      from less.IH [of ds w d, unfolded gw, OF this(1) prems(1) wl(4) prems(3,4) this(2) n(3) this(3) wl(2) prems(9)]
      show ?thesis using st fe' n(1) Cons wl(3) reads_only_kept [OF sw] fw node_only_trans [OF node_only_steps(1)] sw
        by (auto simp: reads_only_def simp del: file_bytes_simps)
    qed
  qed
qed

lemma fat32_finddir_spec:
  fixes s :: "'a fat_state_scheme"
  assumes rdy: "disk_ready dev io d0 s" and rm: "room s (unat (cluster_size s) + 55 + m)" "535 \<le> m" and v: "volume_ok s"
    and cl: "\<forall>c \<in> set cs. cluster_ok s c" and fc: "file_chain (medium d0 s io) (unat (fat_start_sector s)) cs"
    and hd: "n_inode (fnodes s node) = hd cs" "hd cs < 0x0FFFFFF8"
  shows "\<exists>q t. fat32_finddir dev node name s = Some (q, t) \<and>
    looked_up (heap_live s) (fnodes s) (find_entry name (entries_of (file_bytes (medium d0 s io) s cs))) q t \<and>
    room t (m - 239) \<and> node_only s t \<and> medium d0 t io = medium d0 s io \<and> (\<forall>a. kept s a \<longrightarrow> vmem t a = vmem s a)"
proof -
  obtain c0 cs0 where cs: "cs = c0 # cs0" using fc by (cases cs) auto
  have n: "cluster_size s \<noteq> 0" "unat (cluster_size s) + 55 < 2 ^ 32" "unat (cluster_size s) + 23 \<le> unat (cluster_size s) + 55 + m"
    using cluster_size_unat(2,3) [OF v] by auto
  obtain p k u where u: "kmalloc (cluster_size s) s = Some (p, u)" "heap_only s u" "heap_ok u"
    "unat (cluster_size s) \<le> k" "heap_live u = insert (p, k) (heap_live s)" "(p, k) \<notin> heap_live s" "room u m"
    by (rule temporary_buffer [OF rm(1) n]) (use that in auto)
  have fsu: "fs_only s u" by (rule fs_only_steps(1) [OF u(2)])
  note f = fs_only_fields [OF fsu] and io = heap_only_io [OF u(2)] and geo = fs_only_geometry [OF fsu]
  have "c0 < 0x0FFFFFF8" using hd(2) cs by simp
  from finddir_loop_spec [of dev io d0 u m c0 cs0 p k "heap_live s" name, unfolded geo f io,
      OF rdy u(7) rm(2) v cl [unfolded cs] fc [unfolded cs] this u(5,6)]
  obtain q t where qt: "finddir_loop dev (unat (cluster_size s div sizeof_dir_entry)) p c0 name u = Some (q, t)"
    "looked_up (heap_live s) (fnodes s) (find_entry name (entries_of (file_bytes (medium d0 s io) s cs))) q t"
    "room t (m - 239)" "node_only u t" "medium d0 t io = medium d0 s io" "\<forall>a. kept u a \<and> \<not> unat (a - p) < unat (cluster_size s) \<longrightarrow> vmem t a = vmem s a" unfolding cs by blast
  have "vmem t a = vmem s a" if a: "kept s a" for a
    using qt(6) buffer_apart [OF u(2-6) a] by simp
  then show ?thesis using qt(1-3,5) node_only_trans [OF node_only_steps(1) [OF fsu] qt(4)] u(1) hd(1) cs by (simp add: fat32_finddir_def Let_def)
qed

subsection \<open>Mounting\<close>

text \<open>Logging changes the port history, the screen and the cursor, and writes no word to the disk.\<close>

definition console_only :: "'a console_state_scheme \<Rightarrow> 'a console_state_scheme \<Rightarrow> bool" where
  "console_only s t \<longleftrightarrow>
     t = s\<lparr>io_log := io_log t, vga_mem := vga_mem t, vga_row := vga_row t, vga_col := vga_col t\<rparr>"

lemma log_info_frame:
  assumes "uart_ready dev"
  obtains t where "log_info dev msg s = Some t" "console_only s t"
proof -
  obtain t where t: "log_info dev msg s = Some t" "screen_only (s\<lparr>io_log := io_log t\<rparr>) t"
    using log_info_done [OF assms, of msg s] by blast
  have "console_only s t" using t(2) by (cases s; cases t) (auto simp: screen_only_def console_only_def)
  with t(1) show thesis by (rule that)
qed

lemma console_only_memory:
  assumes "console_only s t"
  shows "vmem t = vmem s" "heap_inv t bs = heap_inv s bs" "heap_live t = heap_live s" "heap_ok t = heap_ok s"
    "room t m = room s m" "disk_ready dev io d0 t = disk_ready dev io d0 s"
proof -
  show h: "heap_inv t bs = heap_inv s bs" for bs using assms by (cases s; cases t) (simp add: console_only_def heap_inv_def)
  show "vmem t = vmem s" "disk_ready dev io d0 t = disk_ready dev io d0 s"
    using assms by (cases s; cases t; simp add: console_only_def disk_ready_def)+
  show "heap_live t = heap_live s" "heap_ok t = heap_ok s" "room t m = room s m"
    by (simp_all add: heap_live_def heap_ok_def room_def h)
qed

lemma console_only_volume:
  fixes s t :: "'a fat_state_scheme"
  assumes "console_only s t"
  shows "bpb t = bpb s" "fat_start_sector t = fat_start_sector s" "data_start_sector t = data_start_sector s"
    "root_cluster t = root_cluster s" "fnodes t = fnodes s" "fs_root t = fs_root s"
  using assms by (cases s; cases t; simp add: console_only_def)+

lemma serial_wait_medium:
  assumes "serial_wait dev s = Some t"
  shows "d_store (disk_of io d0 (io_log t)) = d_store (disk_of io d0 (io_log s))"
  using assms
proof (rule serial_wait.raw_induct [rotated], goal_cases)
  case (1 serial_wait dev s t)
  from 1(2) show ?case
    by (auto simp: Let_def inb_def disk_step_def split: if_splits dest!: 1(1))
qed

lemma outb_medium [simp]: "d_store (disk_step io (Outb p v) d) = d_store d"
  by (simp add: disk_step_def disk_command_def Let_def)

lemma print_serial_medium:
  "print_serial dev cs s = Some t \<Longrightarrow> d_store (disk_of io d0 (io_log t)) = d_store (disk_of io d0 (io_log s))"
proof (induction cs arbitrary: s)
  case (Cons c cs)
  have "d_store (disk_of io d0 (io_log u)) = d_store (disk_of io d0 (io_log s))" if "serial_write dev c s = Some u" for u
    using that serial_wait_medium [of dev s _ io d0] by (auto simp: serial_write_def outb_def bind_eq_Some_conv)
  then show ?case using Cons by (fastforce simp: bind_eq_Some_conv split: if_splits)
qed simp

lemma log_info_medium:
  fixes s t :: "'a ata_state_scheme"
  assumes "log_info dev msg s = Some t"
  shows "medium d0 t io = medium d0 s io"
proof -
  have "io_log (log_screen msg u) = io_log u" for u :: "'a ata_state_scheme"
    using log_screen_ok [of msg u] by (auto simp: screen_only_def)
  then show ?thesis using assms
    by (auto simp: log_info_def bind_eq_Some_conv simp del: print_serial.simps dest!: print_serial_medium [where io = io and ?d0.0 = d0])
qed

definition bpb_of :: "u8 list \<Rightarrow> fat_bpb" where
  "bpb_of bs =
     \<lparr>jmp_boot = take 3 (drop 0 bs), oem_name = take 8 (drop 3 bs), bytes_per_sector = le16 bs 11,
      sectors_per_cluster = bs ! 13, reserved_sectors = le16 bs 14, num_fats = bs ! 16,
      root_entry_count = le16 bs 17, total_sectors_16 = le16 bs 19, media = bs ! 21, fat_size_16 = le16 bs 22,
      sectors_per_track = le16 bs 24, num_heads = le16 bs 26, hidden_sectors = le32 bs 28,
      total_sectors_32 = le32 bs 32, fat_size_32 = le32 bs 36, ext_flags = le16 bs 40, fs_version = le16 bs 42,
      bpb_root_cluster = le32 bs 44, fs_info = le16 bs 48, backup_boot_sector = le16 bs 50,
      bpb_reserved = take 12 (drop 52 bs), drive_number = bs ! 64, reserved1 = bs ! 65, boot_signature = bs ! 66,
      volume_id = le32 bs 67, volume_label = take 11 (drop 71 bs), fs_type = take 8 (drop 82 bs)\<rparr>"

lemma load_bytes_nth: "k < n \<Longrightarrow> load_bytes p n s ! k = vmem s (p + of_nat k)"
  by (simp add: load_bytes_def)

lemma load_bytes_part:
  assumes "k + n \<le> m"
  shows "take n (drop k (load_bytes p m s)) = load_bytes (p + of_nat k) n s"
  using assms by (intro nth_equalityI) (auto simp: load_bytes_def add.assoc)

lemma bpb_in_memory: "read_bpb p s = bpb_of (load_bytes p 512 s)"
  using load_bytes_part [of 0 3 512 p s] load_bytes_part [of 3 8 512 p s] load_bytes_part [of 52 12 512 p s]
    load_bytes_part [of 71 11 512 p s] load_bytes_part [of 82 8 512 p s]
  by (simp add: read_bpb_def bpb_of_def le16_def le32_def load16_def load32_def load_bytes_nth add.assoc)

lemma heap_volume [simp]:
  "heap_inv (s\<lparr>bpb := f\<rparr>) bs = heap_inv s bs" "heap_inv (s\<lparr>fat_start_sector := x\<rparr>) bs = heap_inv s bs"
  "heap_inv (s\<lparr>data_start_sector := x\<rparr>) bs = heap_inv s bs" "heap_inv (s\<lparr>root_cluster := x\<rparr>) bs = heap_inv s bs"
  "heap_inv (s\<lparr>fs_root := x\<rparr>) bs = heap_inv s bs"
  by (simp_all add: heap_inv_def)

lemma heap_same:
  assumes "\<And>bs. heap_inv t bs = heap_inv s bs"
  shows "heap_live t = heap_live s" "heap_ok t = heap_ok s" "room t m = room s m"
  by (simp_all add: heap_live_def heap_ok_def room_def assms)

text \<open>The boot sector as read into a temporary buffer.\<close>

lemma boot_sector:
  fixes s :: "'a fat_state_scheme"
  assumes rdy: "disk_ready dev io d0 s" and rm: "room s 600"
  obtains p s1 s2 where "kmalloc 512 s = Some (p, s1)" "ata_read_sectors dev 0 0 1 p s1 = Some (True, s2)"
    "fs_only s s2" "medium d0 s2 io = medium d0 s io" "read_bpb p s2 = bpb_of (map (sbyte (medium d0 s io)) [0..<512])"
    "\<And>f. let t = kfree p (s2\<lparr>bpb := f\<rparr>) in fs_only (s\<lparr>bpb := f\<rparr>) t \<and> medium d0 t io = medium d0 s io \<and>
       room t 600 \<and> heap_live t = heap_live s"
proof -
  let ?med = "medium d0 s io"
  have n: "(512 :: u32) \<noteq> 0" "unat (512 :: u32) + 55 < 2 ^ 32" "unat (512 :: u32) + 23 \<le> 600" by simp_all
  obtain p k s1 where s1: "kmalloc 512 s = Some (p, s1)" "heap_only s s1" "heap_ok s1" "unat (512 :: u32) \<le> k"
    "heap_live s1 = insert (p, k) (heap_live s)" "(p, k) \<notin> heap_live s"
    "\<And>t :: 'a fat_state_scheme. keeps_gaps s1 t \<Longrightarrow> heap_live t = heap_live s1 \<Longrightarrow> keeps_gaps s (kfree p t)"
    by (rule temporary_buffer [OF rm n]) blast
  have rdy1: "disk_ready dev io d0 s1" using rdy fs_only_base(3) [OF fs_only_steps(1) [OF s1(2)]] by blast
  obtain s2 where s2: "ata_read_sectors dev 0 0 1 p s1 = Some (True, s2)" "xfer_only s1 s2" "medium d0 s2 io = ?med"
    "vmem s2 = filled (vmem s) p (\<lambda>j. sbyte ?med j) 512"
    using ata_read_spec [OF rdy1, of 0 1 p] heap_only_io [OF s1(2)] by auto
  have "load_bytes p 512 s2 = map (sbyte ?med) [0..<512]"
    by (auto simp: load_bytes_def s2(4) filled_def unat_of_nat_u32)
  then have bpb: "read_bpb p s2 = bpb_of (map (sbyte ?med) [0..<512])" by (simp add: bpb_in_memory)
  have fs2: "fs_only s s2" by (rule fs_only_trans [OF fs_only_steps(1) [OF s1(2)] fs_only_steps(2) [OF s2(2)]])
  show thesis
  proof (rule that [OF s1(1) s2(1) fs2 s2(3) bpb])
    fix f
    define t where "t = s2\<lparr>bpb := f\<rparr>"
    have inv: "heap_inv t bs = heap_inv s1 bs" for bs using heap_inv_xfer [OF s2(2)] by (simp add: t_def)
    have "fs_only (s\<lparr>bpb := f\<rparr>) t" using fs2 by (cases s; cases s2) (simp add: t_def fs_only_def)
    then have "fs_only (s\<lparr>bpb := f\<rparr>) (kfree p t)" by (rule fs_only_trans [OF _ fs_only_steps(1) [OF kfree_heap_only]])
    moreover have "medium d0 (kfree p t) io = ?med" using heap_only_io(1) [OF kfree_heap_only, of p t] s2(3) by (simp add: t_def)
    moreover have "room (kfree p t) 600"
      by (rule keeps_gaps_room [OF s1(7) [OF keeps_gaps_same [OF s1(3) inv] heap_same(1) [OF inv]] rm])
    moreover have "heap_live (kfree p t) = heap_live s"
      using kheap.release_live [of t p k] heap_same [OF inv] s1(3,5,6) by simp
    ultimately show "let t = kfree p (s2\<lparr>bpb := f\<rparr>) in fs_only (s\<lparr>bpb := f\<rparr>) t \<and> medium d0 t io = ?med \<and>
       room t 600 \<and> heap_live t = heap_live s" by (simp add: t_def Let_def)
  qed
qed

definition valid_bpb :: "fat_bpb \<Rightarrow> bool" where
  "valid_bpb b \<longleftrightarrow> bytes_per_sector b \<noteq> 0 \<and> sectors_per_cluster b \<noteq> 0 \<and> fat_size_32 b \<noteq> 0 \<and> num_fats b \<noteq> 0"

text \<open>A mounted volume: the root node and the geometry are those of the boot sector.\<close>

definition mounted :: "fat_bpb \<Rightarrow> 'a fat_state_scheme \<Rightarrow> bool" where
  "mounted b t \<longleftrightarrow>
     (let root = fnodes t (fs_root t)
      in fs_root t \<noteq> 0 \<and> n_inode root = bpb_root_cluster b \<and> n_flags root = FS_DIRECTORY \<and>
         n_readdir root = Fat32_Readdir \<and> n_finddir root = Fat32_Finddir) \<and>
     fat_start_sector t = ucast (reserved_sectors b) \<and>
     data_start_sector t = ucast (reserved_sectors b) + ucast (num_fats b) * fat_size_32 b \<and>
     root_cluster t = bpb_root_cluster b"

lemma fat32_init_spec:
  fixes s :: "'a fat_state_scheme"
  assumes uart: "uart_ready dev" and rdy: "disk_ready dev io d0 s" and rm: "room s 600"
    and b: "b = bpb_of (map (sbyte (medium d0 s io)) [0..<512])"
  shows "\<exists>t. fat32_init dev s = Some t \<and> bpb t = b \<and> heap_ok t \<and> medium d0 t io = medium d0 s io \<and>
    (if valid_bpb b then mounted b t \<and> (\<exists>k \<ge> 184. heap_live t = insert (fs_root t, k) (heap_live s) \<and> (fs_root t, k) \<notin> heap_live s)
     else fs_root t = fs_root s \<and> fnodes t = fnodes s \<and> heap_live t = heap_live s)"
proof -
  obtain s1 where s1: "log_info dev ''FAT32: Initializing...'' s = Some s1" "console_only s s1"
    by (rule log_info_frame [OF uart])
  note c1 = console_only_memory [OF s1(2)] console_only_volume [OF s1(2)] log_info_medium [OF s1(1)]
  obtain p s2 s3 where r: "kmalloc 512 s1 = Some (p, s2)" "ata_read_sectors dev 0 0 1 p s2 = Some (True, s3)"
    "read_bpb p s3 = b" and k: "\<And>f. let t = kfree p (s3\<lparr>bpb := f\<rparr>) in fs_only (s1\<lparr>bpb := f\<rparr>) t \<and>
       medium d0 t io = medium d0 s1 io \<and> room t 600 \<and> heap_live t = heap_live s1"
    by (rule boot_sector [of dev io d0 s1]) (use rdy rm b c1 in auto)
  define s4 where "s4 = kfree p (s3\<lparr>bpb := b\<rparr>)"
  have s4: "fs_only (s1\<lparr>bpb := b\<rparr>) s4" "medium d0 s4 io = medium d0 s io" "room s4 600" "heap_live s4 = heap_live s"
    using k [of b] c1 by (simp_all add: s4_def Let_def)
  have f4: "bpb s4 = b" "fnodes s4 = fnodes s" "fs_root s4 = fs_root s"
    using fs_only_fields [OF s4(1)] c1 by simp_all
  have step: "fat32_init dev s =
      (if bytes_per_sector b = 0 \<or> sectors_per_cluster b = 0 then log_info dev ''FAT32: Invalid BPB (not a FAT32 volume)'' s4
       else if fat_size_32 b = 0 \<or> num_fats b = 0 then log_info dev ''FAT32: Invalid FAT32 parameters'' s4
       else Option.bind (log_info dev ''FAT32: Volume found'' (s4\<lparr>fat_start_sector := ucast (reserved_sectors b),
          data_start_sector := ucast (reserved_sectors b) + ucast (num_fats b) * fat_size_32 b,
          root_cluster := bpb_root_cluster b\<rparr>)) (\<lambda>s. Option.bind (kmalloc sizeof_fs_node s) (\<lambda>(root, s).
            Some (s\<lparr>fs_root := root, fnodes := (fnodes s)(root := (fnodes s root)\<lparr>n_inode := root_cluster s,
              n_flags := FS_DIRECTORY, n_readdir := Fat32_Readdir, n_finddir := Fat32_Finddir\<rparr>)\<rparr>))))"
    using s1(1) r f4 by (simp add: fat32_init_def Let_def s4_def)
  show ?thesis
  proof (cases "valid_bpb b")
    case False
    have "\<exists>t. log_info dev msg s4 = Some t \<and> bpb t = b \<and> heap_ok t \<and> medium d0 t io = medium d0 s io \<and>
        fs_root t = fs_root s \<and> fnodes t = fnodes s \<and> heap_live t = heap_live s" for msg
    proof -
      obtain t where t: "log_info dev msg s4 = Some t" "console_only s4 t" by (rule log_info_frame [OF uart])
      then show ?thesis
        using console_only_memory [OF t(2)] console_only_volume [OF t(2)] log_info_medium [OF t(1)] s4
          f4 room_ok [OF s4(3)] by simp
    qed
    then show ?thesis using False step by (auto simp: valid_bpb_def)
  next
    case True
    define s5 where "s5 = s4\<lparr>fat_start_sector := ucast (reserved_sectors b),
      data_start_sector := ucast (reserved_sectors b) + ucast (num_fats b) * fat_size_32 b,
      root_cluster := bpb_root_cluster b\<rparr>"
    have h5: "heap_inv s5 bs = heap_inv s4 bs" for bs by (simp add: s5_def)
    obtain s6 where s6: "log_info dev ''FAT32: Volume found'' s5 = Some s6" "console_only s5 s6"
      by (rule log_info_frame [OF uart])
    note c6 = console_only_memory [OF s6(2)] console_only_volume [OF s6(2)] log_info_medium [OF s6(1)]
    have rm6: "room s6 600" using s4(3) by (simp add: c6 heap_same [OF h5])
    have n: "sizeof_fs_node \<noteq> 0" "unat sizeof_fs_node + 55 < 2 ^ 32" "unat sizeof_fs_node + 23 \<le> 600" by (simp_all add: c_consts)
    obtain root k s7 where s7: "kmalloc sizeof_fs_node s6 = Some (root, s7)" "heap_only s6 s7" "heap_ok s7" "184 \<le> k"
      "heap_live s7 = insert (root, k) (heap_live s6)" "(root, k) \<notin> heap_live s6"
      by (rule temporary_buffer [OF rm6 n]) (auto simp: c_consts)
    have f7: "bpb s7 = b" "fnodes s7 = fnodes s" "fat_start_sector s7 = fat_start_sector s5"
      "data_start_sector s7 = data_start_sector s5" "root_cluster s7 = root_cluster s5"
      "medium d0 s7 io = medium d0 s io" "heap_live s6 = heap_live s"
      using s7(2) c6 f4 s4(2,4) heap_same [OF h5] by (auto simp: heap_only_def s5_def)
    define t where "t = s7\<lparr>fs_root := root, fnodes := (fnodes s7)(root := (fnodes s7 root)\<lparr>n_inode := root_cluster s7,
              n_flags := FS_DIRECTORY, n_readdir := Fat32_Readdir, n_finddir := Fat32_Finddir\<rparr>)\<rparr>"
    have "heap_inv t bs = heap_inv s7 bs" for bs by (simp add: t_def)
    note ht = heap_same [OF this]
    have "root \<noteq> 0" using live_placed(4) [OF s7(3), of root k] s7(5) by simp
    then have "mounted b t" using f7 by (simp add: mounted_def t_def s5_def Let_def)
    moreover have "fat32_init dev s = Some t" using step True s6(1) s7(1) by (simp add: valid_bpb_def s5_def t_def)
    moreover have "bpb t = b" "fs_root t = root" "medium d0 t io = medium d0 s io" using f7 by (simp_all add: t_def)
    ultimately show ?thesis using True ht s7(3-6) f7(7) by auto
  qed
qed

subsection \<open>Properties of lookup and mount\<close>

text \<open>
  C15: \<open>fat32_finddir\<close> finds the first entry of the directory with the given name: entries count up to
  the end mark, except deleted ones and those with a read-only, hidden, system or volume attribute.
  The result is a fresh node with the cluster, length and kind of the entry, or 0 when there is no
  such entry; the buffer is freed, and no memory outside of the free part of the heap changes.
\<close>

theorem fat32_finddir_correct:
  assumes "disk_ready dev io d0 s" "room s (unat (cluster_size s) + 600)" "volume_ok s"
    and "file_chain (medium d0 s io) (unat (fat_start_sector s)) cs" "\<forall>c \<in> set cs. cluster_ok s c"
    and "n_inode (fnodes s node) = hd cs" "hd cs < 0x0FFFFFF8"
  shows "\<exists>q t. fat32_finddir dev node name s = Some (q, t) \<and> heap_ok t \<and>
    (\<forall>a. kept s a \<longrightarrow> vmem t a = vmem s a) \<and>
    (case find_entry name (entries_of (file_bytes (medium d0 s io) s cs)) of
       None \<Rightarrow> q = 0 \<and> fnodes t = fnodes s \<and> heap_live t = heap_live s
     | Some e \<Rightarrow> q \<noteq> 0 \<and> n_inode (fnodes t q) = entry_cluster e \<and> n_length (fnodes t q) = e_size e \<and>
         n_flags (fnodes t q) = (if bit (e_attr e) 4 then FS_DIRECTORY else FS_FILE) \<and>
         (\<forall>n. n \<noteq> q \<longrightarrow> fnodes t n = fnodes s n) \<and>
         (\<exists>l \<ge> 184. (q, l) \<notin> heap_live s \<and> heap_live t = insert (q, l) (heap_live s)))"
proof -
  obtain q t where qt: "fat32_finddir dev node name s = Some (q, t)"
    "looked_up (heap_live s) (fnodes s) (find_entry name (entries_of (file_bytes (medium d0 s io) s cs))) q t"
    "\<forall>a. kept s a \<longrightarrow> vmem t a = vmem s a"
    using fat32_finddir_spec [of dev io d0 s 545, OF assms(1) _ _ assms(3,5,4,6,7), of name] assms(2)
    by (auto simp: add.assoc)
  have "e_attr e AND ATTR_DIRECTORY \<noteq> 0 \<longleftrightarrow> bit (e_attr e) 4" for e
    using bit_iff_and_push_bit_not_eq_0 [of "e_attr e" 4] by (simp add: c_consts)
  then show ?thesis using qt by (auto simp: looked_up_def fill_node_def Let_def split: option.splits)
qed

lemma vol_root:
  "\<exists>e. find_entry ''SHELL.BIN'' (entries_of (file_bytes (medium vol_disk demo_fat 0x1F0) demo_fat [7])) = Some e \<and>
     entry_cluster e = 2 \<and> e_size e = 600 \<and> \<not> bit (e_attr e) 4"
proof -
  let ?f = "\<lambda>j. sbyte (d_store vol_disk) (3584 + j)"
  have "[0..<512] = [0..<32] @ [32..<512]" using upt_add_eq_append [of 0 32 480] by simp
  then have "file_bytes (medium vol_disk demo_fat 0x1F0) demo_fat [7] = map ?f [0..<32] @ map ?f [32..<512]"
    by (simp only: file_bytes_simps) (simp add: vol_medium cluster_bytes_def demo_fat_simps)
  then have es: "entries_of (file_bytes (medium vol_disk demo_fat 0x1F0) demo_fat [7]) =
      entry_of (map ?f [0..<32]) # entries_of (map ?f [32..<512])"
    by (simp only: entries_of_step(1) length_map length_upt)
  have u: "[0..<32 :: nat] = [0, 1, 2, 3, 4, 5, 6, 7, 8, 9, 10, 11, 12, 13, 14, 15, 16, 17, 18, 19, 20, 21, 22, 23,
      24, 25, 26, 27, 28, 29, 30, 31]" by code_simp
  have b: "map ?f [0..<32] = [0x53, 0x48, 0x45, 0x4C, 0x4C, 0x20, 0x20, 0x20, 0x42, 0x49, 0x4E, 0x20,
      0, 0, 0, 0, 0, 0, 0, 0, 0, 0, 0, 0, 0, 0, 2, 0, 0x58, 2, 0, 0]"
    unfolding u by (simp add: sbyte_def vol_disk_def vol_dir_def)
  have "e_name (entry_of (map ?f [0..<32])) ! 0 \<noteq> 0" "\<not> skipped (entry_of (map ?f [0..<32]))"
    "name_match ''SHELL.BIN'' (entry_name (entry_of (map ?f [0..<32])))" "entry_cluster (entry_of (map ?f [0..<32])) = 2"
    "e_size (entry_of (map ?f [0..<32])) = 600" "\<not> bit (e_attr (entry_of (map ?f [0..<32]))) 4"
    unfolding b by code_simp+
  then show ?thesis unfolding es find_entry_Cons by simp
qed

theorem fat32_finddir_correct_witness:
  "\<exists>q t. fat32_finddir vol_dev 0x200 ''SHELL.BIN'' demo_fat = Some (q, t) \<and> q \<noteq> 0 \<and>
     n_inode (fnodes t q) = 2 \<and> n_length (fnodes t q) = 600 \<and> n_flags (fnodes t q) = FS_FILE"
proof -
  have "n_inode (fnodes demo_fat 0x200) = hd [7]" "hd [7] < (0x0FFFFFF8 :: u32)"
    by (simp_all add: demo_fat_simps)
  from fat32_finddir_correct [OF vol_ready vol_ok(3,1) vol_chains(2,4) this, of "''SHELL.BIN''"] vol_root
  show ?thesis by auto
qed

text \<open>
  C16: \<open>fat32_init\<close> mounts the volume that the boot sector describes: when its parameter block has
  no zero sector size, cluster size, table size or table count, the root node is a fresh directory
  node at the root cluster and the geometry is that of the block; otherwise no root is set. In
  both cases the sector buffer is freed and the medium unchanged.
\<close>

theorem fat32_init_mounts:
  assumes "uart_ready dev" "disk_ready dev io d0 s" "room s 600"
  shows "\<exists>t. let b = bpb_of (map (sbyte (medium d0 s io)) [0..<512]) in
    fat32_init dev s = Some t \<and> bpb t = b \<and> heap_ok t \<and> medium d0 t io = medium d0 s io \<and>
    (if valid_bpb b
     then mounted b t \<and>
       (\<exists>k \<ge> 184. heap_live t = insert (fs_root t, k) (heap_live s) \<and> (fs_root t, k) \<notin> heap_live s)
     else fs_root t = fs_root s \<and> fnodes t = fnodes s \<and> heap_live t = heap_live s)"
  using fat32_init_spec [OF assms refl] by (simp add: Let_def)

theorem fat32_init_mounts_witness:
  "\<exists>t. fat32_init vol_dev demo_fat = Some t \<and> n_inode (fnodes t (fs_root t)) = 7 \<and>
     fat_start_sector t = 1 \<and> data_start_sector t = 2"
proof -
  have uart: "uart_ready vol_dev" by (simp add: uart_ready_def vol_dev_def Let_def)
  have rm: "room demo_fat 600" using demo_fat_heap by (auto simp: room_def intro!: exI [of _ "[Blk 0xC0000000 0x100000 True]"])
  let ?b = "bpb_of (map (sbyte (medium vol_disk demo_fat 0x1F0)) [0..<512])"
  have "valid_bpb ?b" "bpb_root_cluster ?b = 7" "reserved_sectors ?b = 1" "num_fats ?b = 1" "fat_size_32 ?b = 1"
    unfolding vol_medium
    by (simp_all add: valid_bpb_def bpb_of_def le16_def le32_def sbyte_def vol_disk_def push_bit_eq_mult)
  with fat32_init_mounts [OF uart vol_ready rm] show ?thesis by (auto simp: Let_def mounted_def)
qed

end
