(* ===== verification/Elf.thy ===== *)
theory Elf
  imports Fat32_Dirs
begin

text \<open>
  The ELF loader (\<^verbatim>\<open>src/src/elf.c\<close>, \<^verbatim>\<open>src/src/elf.h\<close>) and the jump to user mode of
  \<^verbatim>\<open>src/src/switch.asm\<close>. The loader's local variable \<open>header\<close> is on the kernel stack; its address
  is the parameter \<open>hp\<close>. Memory contents are addressed virtually: mapping a page does not change
  the byte store \<open>vmem\<close>, whose bytes at a newly mapped address are simply not known.
\<close>

subsection \<open>Data\<close>

definition ELF_MAGIC :: u32 where [c_consts]: "ELF_MAGIC = 0x464C457F"
definition ET_EXEC :: u16 where [c_consts]: "ET_EXEC = 2"
definition EM_386 :: u16 where [c_consts]: "EM_386 = 3"
definition PT_LOAD :: u32 where [c_consts]: "PT_LOAD = 1"
definition PF_W :: u32 where [c_consts]: "PF_W = 0x2"

record elf_header =
  eh_magic :: u32
  eh_class :: u8
  eh_endianness :: u8
  eh_version :: u8
  eh_os_abi :: u8
  eh_padding :: "u8 list"
  eh_type :: u16
  eh_machine :: u16
  eh_version2 :: u32
  eh_entry :: u32
  eh_phoff :: u32
  eh_shoff :: u32
  eh_flags :: u32
  eh_ehsize :: u16
  eh_phentsize :: u16
  eh_phnum :: u16
  eh_shentsize :: u16
  eh_shnum :: u16
  eh_shstrndx :: u16

record elf_program_header =
  ph_type :: u32
  ph_offset :: u32
  ph_vaddr :: u32
  ph_paddr :: u32
  ph_filesz :: u32
  ph_memsz :: u32
  ph_flags :: u32
  ph_align :: u32

definition sizeof_elf_header :: u32 where [c_consts]: "sizeof_elf_header = 52"
definition sizeof_program_header :: u32 where [c_consts]: "sizeof_program_header = 32"

definition read_header :: "u32 \<Rightarrow> 'a ata_state_scheme \<Rightarrow> elf_header" where
  "read_header p s =
     \<lparr>eh_magic = load32 p s, eh_class = vmem s (p + 4), eh_endianness = vmem s (p + 5),
      eh_version = vmem s (p + 6), eh_os_abi = vmem s (p + 7), eh_padding = load_bytes (p + 8) 8 s,
      eh_type = load16 (p + 16) s, eh_machine = load16 (p + 18) s, eh_version2 = load32 (p + 20) s,
      eh_entry = load32 (p + 24) s, eh_phoff = load32 (p + 28) s, eh_shoff = load32 (p + 32) s,
      eh_flags = load32 (p + 36) s, eh_ehsize = load16 (p + 40) s, eh_phentsize = load16 (p + 42) s,
      eh_phnum = load16 (p + 44) s, eh_shentsize = load16 (p + 46) s, eh_shnum = load16 (p + 48) s,
      eh_shstrndx = load16 (p + 50) s\<rparr>"

definition program_header :: "u32 \<Rightarrow> nat \<Rightarrow> 'a ata_state_scheme \<Rightarrow> elf_program_header" where
  "program_header ps i s =
     (let p = ps + of_nat i * sizeof_program_header
      in \<lparr>ph_type = load32 p s, ph_offset = load32 (p + 4) s, ph_vaddr = load32 (p + 8) s,
          ph_paddr = load32 (p + 12) s, ph_filesz = load32 (p + 16) s, ph_memsz = load32 (p + 20) s,
          ph_flags = load32 (p + 24) s, ph_align = load32 (p + 28) s\<rparr>)"

subsection \<open>Loading\<close>

text \<open>The page loop of a segment: false when physical memory runs out.\<close>

primrec map_user_pages ::
  "nat \<Rightarrow> u32 \<Rightarrow> nat \<Rightarrow> u32 \<Rightarrow> 'a paging_state_scheme \<Rightarrow> bool \<times> 'a paging_state_scheme" where
  "map_user_pages 0 page_start j flags s = (True, s)"
| "map_user_pages (Suc n) page_start j flags s =
     (let (page_paddr, s) = pmm_alloc_page s
      in if page_paddr = 0 then (False, s)
         else map_user_pages n page_start (Suc j) flags
                (paging_map_page (page_start + of_nat j * PAGE_SIZE) page_paddr flags s))"

definition segment_pages :: "elf_program_header \<Rightarrow> u32 \<times> u32" where
  "segment_pages ph =
     (let page_start = ph_vaddr ph AND 0xFFFFF000;
          page_end = (ph_vaddr ph + ph_memsz ph + 0xFFF) AND 0xFFFFF000
      in (page_start, (page_end - page_start) div PAGE_SIZE))"

definition segment_flags :: "elf_program_header \<Rightarrow> u32" where
  "segment_flags ph =
     (let flags = PAGE_PRESENT OR PAGE_USER
      in if ph_flags ph AND PF_W \<noteq> 0 then flags OR PAGE_WRITE else flags)"

definition zero_bytes :: "u32 \<Rightarrow> nat \<Rightarrow> 'a ata_state_scheme \<Rightarrow> 'a ata_state_scheme" where
  "zero_bytes p n s = fold (\<lambda>j s. s\<lparr>vmem := (vmem s)(p + of_nat j := 0)\<rparr>) [0..<n] s"

definition load_segment ::
  "device \<Rightarrow> u32 \<Rightarrow> elf_program_header \<Rightarrow> 'a fat_state_scheme \<Rightarrow> (bool \<times> 'a fat_state_scheme) option" where
  "load_segment dev file ph s =
     (if ph_type ph \<noteq> PT_LOAD then Some (True, s)
      else let (page_start, num_pages) = segment_pages ph;
               (ok, s) = map_user_pages (unat num_pages) page_start 0 (segment_flags ph) s
           in if \<not> ok then do {
                s \<leftarrow> log_info dev ''ELF: Out of physical memory'' s;
                Some (False, s)
              }
              else do {
                s \<leftarrow> (if ph_filesz ph > 0
                     then map_option snd (vfs_read (call_read dev) file (ph_offset ph) (ph_filesz ph) (ph_vaddr ph) s)
                     else Some s);
                Some (True, if ph_memsz ph > ph_filesz ph
                            then zero_bytes (ph_vaddr ph + ph_filesz ph) (unat (ph_memsz ph - ph_filesz ph)) s
                            else s)
              })"

text \<open>The segment loop; the header of segment \<open>i\<close> is read when its turn comes.\<close>

primrec load_segments ::
  "nat \<Rightarrow> device \<Rightarrow> u32 \<Rightarrow> u32 \<Rightarrow> nat \<Rightarrow> 'a fat_state_scheme \<Rightarrow> (bool \<times> 'a fat_state_scheme) option" where
  "load_segments 0 dev file pheaders i s = Some (True, s)"
| "load_segments (Suc n) dev file pheaders i s = do {
     (ok, s) \<leftarrow> load_segment dev file (program_header pheaders i s) s;
     if ok then load_segments n dev file pheaders (Suc i) s else Some (False, s)
   }"

text \<open>The two pages of the user stack below 3 GiB.\<close>

primrec map_stack :: "nat \<Rightarrow> u32 \<Rightarrow> nat \<Rightarrow> 'a paging_state_scheme \<Rightarrow> bool \<times> 'a paging_state_scheme" where
  "map_stack 0 base i s = (True, s)"
| "map_stack (Suc n) base i s =
     (let (page_paddr, s) = pmm_alloc_page s
      in if page_paddr = 0 then (False, s)
         else map_stack n base (Suc i)
                (paging_map_page (base - (of_nat i + 1) * PAGE_SIZE) page_paddr
                   (PAGE_PRESENT OR PAGE_WRITE OR PAGE_USER) s))"

text \<open>
  \<open>enter_usermode\<close> of \<^verbatim>\<open>switch.asm\<close>: the return from interrupt that it ends with loads the user
  segments, the stack and the entry point, and enables interrupts.
\<close>

definition enter_usermode :: "u32 \<Rightarrow> u32 \<Rightarrow> 'a io_state_scheme \<Rightarrow> ('r, 'a io_state_scheme) outcome" where
  "enter_usermode entry stack s = Entered_User entry stack (s\<lparr>if_flag := True\<rparr>)"

text \<open>
  \<open>switch_to_user_mode\<close>, which nothing calls: user mode is entered with the current stack at the loop
  that follows the routine, whose address is \<open>entry_point\<close>.
\<close>

definition switch_to_user_mode :: "u32 \<Rightarrow> u32 \<Rightarrow> 'a io_state_scheme \<Rightarrow> ('r, 'a io_state_scheme) outcome" where
  "switch_to_user_mode entry_point esp s = Entered_User entry_point esp (s\<lparr>if_flag := True\<rparr>)"

definition elf_exec ::
  "device \<Rightarrow> u32 \<Rightarrow> string \<Rightarrow> 'a fat_state_scheme \<Rightarrow> (int, 'a fat_state_scheme) outcome option" where
  "elf_exec dev hp path s =
     (let fail = (\<lambda>msg s. map_option (Returned (-1)) (log_info dev msg s))
      in do {
        s \<leftarrow> log_info dev ''ELF: Loading executable...'' s;
        (file, s) \<leftarrow> vfs_finddir (call_finddir dev) (fs_root s) path s;
        if file = 0 then fail ''ELF: File not found'' s
        else do {
          (n, s) \<leftarrow> vfs_read (call_read dev) file 0 sizeof_elf_header hp s;
          if n \<noteq> sizeof_elf_header then fail ''ELF: Failed to read header'' s
          else let header = read_header hp s
          in if eh_magic header \<noteq> ELF_MAGIC then fail ''ELF: Invalid magic number'' s
          else if eh_machine header \<noteq> EM_386 then fail ''ELF: Not i386 executable'' s
          else if eh_type header \<noteq> ET_EXEC then fail ''ELF: Not executable file'' s
          else do {
            s \<leftarrow> log_info dev ''ELF: Valid executable detected'' s;
            let bytes = ucast (eh_phnum header) * sizeof_program_header
            in do {
              (pheaders, s) \<leftarrow> kmalloc bytes s;
              if pheaders = 0 then fail ''ELF: Out of memory'' s
              else do {
                (n, s) \<leftarrow> vfs_read (call_read dev) file (eh_phoff header) bytes pheaders s;
                if n \<noteq> bytes then do {
                  s \<leftarrow> log_info dev ''ELF: Failed to read program headers'' s;
                  Some (Returned (-1) (kfree pheaders s))
                }
                else do {
                  (ok, s) \<leftarrow> load_segments (unat (eh_phnum header)) dev file pheaders 0 s;
                  let s = kfree pheaders s
                  in if \<not> ok then Some (Returned (-1) s)
                     else let (ok, s) = map_stack 2 0xC0000000 0 s
                          in if \<not> ok then fail ''ELF: Out of memory for stack'' s
                             else do {
                               s \<leftarrow> log_info dev ''ELF: Jumping to userspace...'' s;
                               Some (enter_usermode (eh_entry header) 0xC0000000 s)
                             }
                }
              }
            }
          }
        }
      })"

end
