(* ===== verification/Elf_Exec.thy ===== *)
theory Elf_Exec
  imports Elf
begin

text \<open>
  What loading a program does. The first section is about mapping fresh frames at user addresses, the
  second about the file as the source of headers and segments; they meet in the theorems about
  \<open>elf_exec\<close>: which files are refused, and what memory looks like when a program is entered.
\<close>

subsection \<open>Fresh frames at user addresses\<close>

text \<open>
  Both page loops of the loader take a list of page addresses with their flags and put a new frame
  behind each of them.
\<close>

fun map_all :: "(u32 \<times> u32) list \<Rightarrow> 'a paging_state_scheme \<Rightarrow> bool \<times> 'a paging_state_scheme" where
  "map_all [] s = (True, s)"
| "map_all ((va, fl) # L) s =
     (let (pa, s) = pmm_alloc_page s
      in if pa = 0 then (False, s) else map_all L (paging_map_page va pa fl s))"

lemma map_user_pages_all:
  "map_user_pages n a j fl s = map_all (map (\<lambda>i. (a + of_nat i * PAGE_SIZE, fl)) [j..<j + n]) s"
proof (induction n arbitrary: j s)
  case (Suc n)
  have "[j..<j + Suc n] = j # [Suc j..<Suc j + n]" by (simp add: upt_rec)
  then show ?case by (simp add: Suc.IH Let_def split: prod.split)
qed simp

lemma map_stack_all:
  "map_stack n a j s =
     map_all (map (\<lambda>i. (a - (of_nat i + 1) * PAGE_SIZE, PAGE_PRESENT OR PAGE_WRITE OR PAGE_USER)) [j..<j + n]) s"
proof (induction n arbitrary: j s)
  case (Suc n)
  have "[j..<j + Suc n] = j # [Suc j..<Suc j + n]" by (simp add: upt_rec)
  then show ?case by (simp add: Suc.IH Let_def split: prod.split)
qed simp

text \<open>
  The pages of \<open>L\<close> have been given frames of their own that were free before and are in use now, and
  no other page is affected.
\<close>

definition placed :: "(u32 \<times> u32) list \<Rightarrow> 'a paging_state_scheme \<Rightarrow> 'a paging_state_scheme \<Rightarrow> bool" where
  "placed L s t \<longleftrightarrow>
     current_pd_phys t = current_pd_phys s \<and> free_pages t \<subseteq> free_pages s \<and>
     (\<exists>fr. inj_on fr (set (map fst L)) \<and>
        (\<forall>(va, fl) \<in> set L. page_aligned (fr va) \<and> unat (fr va) div 4096 \<in> free_pages s - free_pages t \<and>
           page_entry t (current_pd_phys t) va = Some (pte_value (fr va) fl))) \<and>
     (\<forall>vb. vb AND 0xFFFFF000 \<notin> set (map fst L) \<longrightarrow>
        page_entry t (current_pd_phys t) vb = page_entry s (current_pd_phys s) vb)"

lemma placed_Nil: "placed [] s s"
  by (simp add: placed_def)

lemma placed_append:
  assumes "placed L s t" "placed K t u" "distinct (map fst (L @ K))"
    and al: "\<And>va fl. (va, fl) \<in> set (L @ K) \<Longrightarrow> va AND 0xFFFFF000 = va"
  shows "placed (L @ K) s u"
proof -
  obtain f where f: "inj_on f (set (map fst L))" "current_pd_phys t = current_pd_phys s" "free_pages t \<subseteq> free_pages s"
    "\<And>va fl. (va, fl) \<in> set L \<Longrightarrow> page_aligned (f va) \<and> unat (f va) div 4096 \<in> free_pages s - free_pages t \<and>
       page_entry t (current_pd_phys t) va = Some (pte_value (f va) fl)"
    "\<And>vb. vb AND 0xFFFFF000 \<notin> set (map fst L) \<Longrightarrow> page_entry t (current_pd_phys t) vb = page_entry s (current_pd_phys s) vb"
    using assms(1) unfolding placed_def by blast
  obtain g where g: "inj_on g (set (map fst K))" "current_pd_phys u = current_pd_phys t" "free_pages u \<subseteq> free_pages t"
    "\<And>va fl. (va, fl) \<in> set K \<Longrightarrow> page_aligned (g va) \<and> unat (g va) div 4096 \<in> free_pages t - free_pages u \<and>
       page_entry u (current_pd_phys u) va = Some (pte_value (g va) fl)"
    "\<And>vb. vb AND 0xFFFFF000 \<notin> set (map fst K) \<Longrightarrow> page_entry u (current_pd_phys u) vb = page_entry t (current_pd_phys t) vb"
    using assms(2) unfolding placed_def by blast
  define h where "h va = (if va \<in> set (map fst L) then f va else g va)" for va
  have h: "h va = f va" if "(va, fl) \<in> set L" for va fl using that by (force simp: h_def)
  have h': "h va = g va" if "(va, fl) \<in> set K" for va fl using that assms(3) by (force simp: h_def)
  have apart: "f v \<noteq> g w" if "v \<in> set (map fst L)" "w \<in> set (map fst K)" for v w
    using f(4) g(4) that by fastforce
  have "inj_on h (set (map fst (L @ K)))"
  proof (rule inj_onI)
    fix v w assume vw: "v \<in> set (map fst (L @ K))" "w \<in> set (map fst (L @ K))" and e: "h v = h w"
    show "v = w"
      using vw e apart [of v w] apart [of w v] inj_onD [OF f(1), of v w] inj_onD [OF g(1), of v w]
      by (auto simp: h_def split: if_splits)
  qed
  moreover have "page_aligned (h va) \<and> unat (h va) div 4096 \<in> free_pages s - free_pages u \<and>
      page_entry u (current_pd_phys u) va = Some (pte_value (h va) fl)" if m: "(va, fl) \<in> set (L @ K)" for va fl
  proof (cases "(va, fl) \<in> set L")
    case True
    have "va AND 0xFFFFF000 \<notin> set (map fst K)" using al [OF m] True assms(3) by force
    then show ?thesis using f(4) [OF True] g(3,5) h [OF True] by auto
  next
    case False
    then have k: "(va, fl) \<in> set K" using m by simp
    show ?thesis using g(4) [OF k] f(3) h' [OF k] by auto
  qed
  moreover have "page_entry u (current_pd_phys u) vb = page_entry s (current_pd_phys s) vb"
    if "vb AND 0xFFFFF000 \<notin> set (map fst (L @ K))" for vb
    using f(5) [of vb] g(5) [of vb] that by simp
  moreover have "current_pd_phys u = current_pd_phys s" "free_pages u \<subseteq> free_pages s" using f(2,3) g(2,3) by auto
  ultimately show ?thesis unfolding placed_def by blast
qed

lemma map_page_uses:
  assumes "paging_ok M s"
  obtains x where "free_pages s - {x} \<subseteq> free_pages (paging_map_page va pa fl s)"
proof -
  obtain f s0 where al: "pmm_alloc_page s = (f, s0)" by fastforce
  have inv: "pmm_inv M s" using assms by (simp add: paging_ok_def)
  have "free_pages s - {unat f div 4096} \<subseteq> free_pages s0"
    using pmm_frames.alloc_fail [OF inv] pmm_frames.alloc_frame [OF inv] al by (cases "f = 0") auto
  then have "free_pages s - {unat f div 4096} \<subseteq> free_pages (paging_map_page va pa fl s)"
    by (auto simp: paging_map_page_def Let_def al)
  then show thesis by (rule that)
qed

text \<open>One page: a frame for it and perhaps one for a table.\<close>

lemma place_page:
  assumes ok: "paging_ok M s" and two: "2 \<le> card (free_pages s)" and va: "va AND 0xFFFFF000 = va"
  obtains f s1 t where "pmm_alloc_page s = (f, s1)" "f \<noteq> 0" "t = paging_map_page va f fl s1"
    "placed [(va, fl)] s t" "paging_ok M t" "tables_only s t" "card (free_pages s) \<le> card (free_pages t) + 2"
proof -
  obtain f s1 where al: "pmm_alloc_page s = (f, s1)" by fastforce
  have inv: "pmm_inv M s" using ok by (simp add: paging_ok_def)
  have f: "f \<noteq> 0" using pmm_inv_alloc_zero [OF inv] al two by auto
  note a = paging_ok_alloc [OF ok al f]
  define t where "t = paging_map_page va f fl s1"
  have c1: "card (free_pages s) = card (free_pages s1) + 1"
    using a(5,6) two by (simp add: card_Diff_singleton)
  then have can: "mappable s1 va" using two by (auto simp: mappable_def)
  note e = map_page_entry [OF a(1) can, of f fl]
  have cur: "current_pd_phys t = current_pd_phys s"
    unfolding t_def by (rule trans [OF tables_only_regs(1) [OF tables_only_map] a(2)])
  obtain x where x: "free_pages s1 - {x} \<subseteq> free_pages t" unfolding t_def by (rule map_page_uses [OF a(1)])
  have "card (free_pages s1) - 1 \<le> card (free_pages s1 - {x})" by (simp add: card_Diff_singleton_if)
  also have "\<dots> \<le> card (free_pages t)" by (rule card_mono [OF finite_free_pages x])
  finally have "card (free_pages s) \<le> card (free_pages t) + 2" using c1 by simp
  moreover have "placed [(va, fl)] s t"
    unfolding placed_def using a(3-6) e map_page_frees [OF a(1), of va f fl] cur a(2) va
    by (auto simp: t_def intro!: exI [of _ "\<lambda>_. f"])
  moreover have "tables_only s t" unfolding t_def by (rule tables_only_trans [OF tables_only_alloc [OF al] tables_only_map])
  ultimately show thesis using that [OF al f t_def] e by (simp add: t_def)
qed

lemma map_all_spec:
  assumes "paging_ok M s" "2 * length L \<le> card (free_pages s)" "distinct (map fst L)"
    and "\<And>va fl. (va, fl) \<in> set L \<Longrightarrow> va AND 0xFFFFF000 = va"
  shows "\<exists>t. map_all L s = (True, t) \<and> placed L s t \<and> paging_ok M t \<and> tables_only s t \<and>
    card (free_pages s) \<le> card (free_pages t) + 2 * length L"
  using assms
proof (induction L arbitrary: s)
  case Nil
  then show ?case by (simp add: placed_Nil)
next
  case (Cons p L)
  obtain va fl where p: "p = (va, fl)" by fastforce
  have two: "2 \<le> card (free_pages s)" "va AND 0xFFFFF000 = va" using Cons.prems p by auto
  obtain f s1 t where t: "pmm_alloc_page s = (f, s1)" "f \<noteq> 0" "t = paging_map_page va f fl s1"
    "placed [(va, fl)] s t" "paging_ok M t" "tables_only s t" "card (free_pages s) \<le> card (free_pages t) + 2"
    by (rule place_page [OF Cons.prems(1) two, of fl]) blast
  obtain u where u: "map_all L t = (True, u)" "placed L t u" "paging_ok M u" "tables_only t u"
    "card (free_pages t) \<le> card (free_pages u) + 2 * length L"
    using Cons.IH [OF t(5)] Cons.prems t(7) by auto
  have "placed ([(va, fl)] @ L) s u" by (rule placed_append [OF t(4) u(2)]) (use Cons.prems p in auto)
  then show ?case using t u(1,3,5) tables_only_trans [OF t(6) u(4)] p by simp
qed

subsection \<open>The file being loaded\<close>

text \<open>The memory management of the kernel: page tables, frame bitmap, current directory.\<close>

definition same_pages :: "'a paging_state_scheme \<Rightarrow> 'a paging_state_scheme \<Rightarrow> bool" where
  "same_pages s t \<longleftrightarrow> pmem t = pmem s \<and> bitmap t = bitmap s \<and> used_pages t = used_pages s \<and>
     total_pages t = total_pages s \<and> current_pd_phys t = current_pd_phys s \<and> kernel_pd_phys t = kernel_pd_phys s"

lemma same_pages_trans: "same_pages s t \<Longrightarrow> same_pages t u \<Longrightarrow> same_pages s u"
  by (simp add: same_pages_def)

lemma same_pages_steps:
  "console_only s t \<Longrightarrow> same_pages s t" "fs_only s' t' \<Longrightarrow> same_pages s' t'" "node_only u v \<Longrightarrow> same_pages u v"
proof -
  show "console_only s t \<Longrightarrow> same_pages s t" by (cases s; cases t) (simp add: console_only_def same_pages_def)
  show "fs_only s' t' \<Longrightarrow> same_pages s' t'" by (cases s'; cases t') (simp add: fs_only_def same_pages_def)
  show "node_only u v \<Longrightarrow> same_pages u v" by (cases u; cases v) (simp add: node_only_def fs_only_def same_pages_def)
qed

lemma same_pages_paging:
  assumes "same_pages s t"
  shows "free_pages t = free_pages s" "page_entry t = page_entry s" "paging_ok M t = paging_ok M s"
    "placed L u t = placed L u s" "placed L t v = placed L s v"
proof -
  have f: "free_pages t = free_pages s" using assms by (simp add: same_pages_def free_pages_def page_used_def)
  moreover have e: "page_entry t = page_entry s" using assms by (simp add: same_pages_def page_entry_def fun_eq_iff)
  ultimately show "free_pages t = free_pages s" "page_entry t = page_entry s" by simp_all
  show "paging_ok M t = paging_ok M s"
    using assms f by (simp add: paging_ok_def pmm_inv_def dir_wf_def same_pages_def)
  show "placed L u t = placed L u s" "placed L t v = placed L s v"
    using assms by (simp_all add: placed_def f e same_pages_def)
qed

text \<open>The volume, the drives and the extent of the heap.\<close>

definition same_volume :: "'a fat_state_scheme \<Rightarrow> 'a fat_state_scheme \<Rightarrow> bool" where
  "same_volume s t \<longleftrightarrow> bpb t = bpb s \<and> fat_start_sector t = fat_start_sector s \<and>
     data_start_sector t = data_start_sector s \<and> drives t = drives s \<and> fs_root t = fs_root s \<and>
     heap_start t = heap_start s \<and> heap_size t = heap_size s"

lemma same_volume_trans: "same_volume s t \<Longrightarrow> same_volume t u \<Longrightarrow> same_volume s u"
  by (simp add: same_volume_def)

lemma same_volume_steps:
  fixes s t :: "'a fat_state_scheme"
  shows "console_only s t \<Longrightarrow> same_volume s t" "fs_only s t \<Longrightarrow> same_volume s t" "node_only s t \<Longrightarrow> same_volume s t"
    "tables_only s t \<Longrightarrow> same_volume s t"
proof -
  show "console_only s t \<Longrightarrow> same_volume s t" by (cases s; cases t) (simp add: console_only_def same_volume_def)
  show "fs_only s t \<Longrightarrow> same_volume s t" by (cases s; cases t) (simp add: fs_only_def same_volume_def)
  show "node_only s t \<Longrightarrow> same_volume s t" by (cases s; cases t) (simp add: node_only_def fs_only_def same_volume_def)
  show "tables_only s t \<Longrightarrow> same_volume s t" by (auto simp: tables_only_def same_volume_def)
qed

lemma same_volume_geometry:
  assumes "same_volume s t"
  shows "volume_ok t = volume_ok s" "cluster_ok t = cluster_ok s" "cluster_size t = cluster_size s"
    "file_bytes med t = file_bytes med s" "fat_start_sector t = fat_start_sector s"
    "disk_ready dev io d0 t = disk_ready dev io d0 s" "heap_start t = heap_start s" "heap_size t = heap_size s"
    "fs_root t = fs_root s"
proof -
  note [simp] = assms [unfolded same_volume_def]
  show "volume_ok t = volume_ok s" "cluster_ok t = cluster_ok s" "cluster_size t = cluster_size s"
    "fat_start_sector t = fat_start_sector s" "heap_start t = heap_start s" "heap_size t = heap_size s"
    "disk_ready dev io d0 t = disk_ready dev io d0 s" "fs_root t = fs_root s"
    by (simp_all add: volume_ok_def cluster_ok_def cluster_size_def disk_ready_def fun_eq_iff)
  have "cluster_bytes med t = cluster_bytes med s" by (rule ext) (simp add: cluster_bytes_def)
  then show "file_bytes med t = file_bytes med s" by (intro ext) (simp add: file_bytes_def)
qed

text \<open>
  The node \<open>file\<close> is a regular file with the clusters \<open>cs\<close> and the bytes \<open>fb\<close>, and the heap has room for
  the buffers of the driver.
\<close>

definition file_at :: "device \<Rightarrow> u16 \<Rightarrow> disk \<Rightarrow> u32 \<Rightarrow> u32 list \<Rightarrow> u8 list \<Rightarrow> 'a fat_state_scheme \<Rightarrow> bool" where
  "file_at dev io d0 file cs fb s \<longleftrightarrow>
     disk_ready dev io d0 s \<and> volume_ok s \<and> room s (unat (cluster_size s) + 600) \<and> (\<forall>c \<in> set cs. cluster_ok s c) \<and>
     file_chain (medium d0 s io) (unat (fat_start_sector s)) cs \<and> n_inode (fnodes s file) = hd cs \<and>
     n_read (fnodes s file) = Fat32_Read \<and> fb = file_bytes (medium d0 s io) s cs"

lemma file_at_same:
  assumes "file_at dev io d0 file cs fb s" "same_volume s t" "medium d0 t io = medium d0 s io"
    and "fnodes t file = fnodes s file" "room s (unat (cluster_size s) + 600) \<Longrightarrow> room t (unat (cluster_size s) + 600)"
  shows "file_at dev io d0 file cs fb t"
  using assms(1,3-5) unfolding file_at_def same_volume_geometry [OF assms(2)] by simp

lemma tables_only_io:
  fixes s t :: "'a fat_state_scheme"
  assumes "tables_only s t"
  shows "io_log t = io_log s" "vmem t = vmem s" "fnodes t = fnodes s"
  using assms by (auto simp: tables_only_def)

lemma file_at_steps:
  fixes s t :: "'a fat_state_scheme"
  assumes "file_at dev io d0 file cs fb s"
  shows "tables_only s t \<Longrightarrow> file_at dev io d0 file cs fb t" "file_at dev io d0 file cs fb (s\<lparr>vmem := v\<rparr>)"
    "log_info dev msg s = Some t \<Longrightarrow> console_only s t \<Longrightarrow> file_at dev io d0 file cs fb t"
proof -
  show "file_at dev io d0 file cs fb t" if "tables_only s t"
    by (rule file_at_same [OF assms same_volume_steps(4) [OF that]])
      (use tables_only_io [OF that] heap_same(3) [OF heap_inv_tables [OF that]] in simp_all)
  show "file_at dev io d0 file cs fb (s\<lparr>vmem := v\<rparr>)"
    using assms by (rule file_at_same) (simp_all add: same_volume_def room_def heap_inv_def)
  show "file_at dev io d0 file cs fb t" if "log_info dev msg s = Some t" "console_only s t"
    by (rule file_at_same [OF assms same_volume_steps(1) [OF that(2)] log_info_medium [OF that(1)]])
      (use console_only_volume(5) [OF that(2)] console_only_memory(5) [OF that(2)] in simp_all)
qed

lemma file_read:
  fixes s :: "'a fat_state_scheme" and offset sz buffer :: u32
  assumes at: "file_at dev io d0 file cs fb s" and dest: "\<And>i. i < unat sz \<Longrightarrow> kept s (buffer + of_nat i)"
  defines "out \<equiv> take (unat sz) (drop (unat offset) fb)"
  obtains t where "vfs_read (call_read dev) file offset sz buffer s = Some (of_nat (length out), t)"
    "load_bytes buffer (length out) t = out" "fs_only s t" "file_at dev io d0 file cs fb t"
    "heap_live t = heap_live s" "keeps_gaps s t" "medium d0 t io = medium d0 s io"
    "\<And>a. kept s a \<Longrightarrow> \<not> unat (a - buffer) < unat sz \<Longrightarrow> vmem t a = vmem s a"
proof -
  note f = at [unfolded file_at_def]
  have "disk_ready dev io d0 s" "room s (unat (cluster_size s) + 600)" "volume_ok s" "\<forall>c \<in> set cs. cluster_ok s c"
    "file_chain (medium d0 s io) (unat (fat_start_sector s)) cs" "n_inode (fnodes s file) = hd cs" using f by simp_all
  note r = fat32_read_spec [OF this _ refl, of sz buffer offset]
  have fb: "fb = file_bytes (medium d0 s io) s cs" "n_read (fnodes s file) = Fat32_Read" using f by simp_all
  obtain t where t: "fat32_read dev file offset sz buffer s = Some (of_nat (length out), t)"
    "load_bytes buffer (length out) t = out" "fs_only s t" "medium d0 t io = medium d0 s io"
    "heap_live t = heap_live s" "keeps_gaps s t" "\<forall>a. kept s a \<and> \<not> unat (a - buffer) < unat sz \<longrightarrow> vmem t a = vmem s a"
    using r dest unfolding out_def fb(1) by blast
  have "file_at dev io d0 file cs fb t"
    by (rule file_at_same [OF at same_volume_steps(2) [OF t(3)] t(4)])
      (use fs_only_fields(4) [OF t(3)] keeps_gaps_room [OF t(6)] in simp_all)
  with t that show thesis by (simp add: vfs_read_def fb(2) call_read_def Let_def)
qed

subsection \<open>One segment\<close>

lemma zero_bytes_filled:
  assumes "n < 2 ^ 32"
  shows "zero_bytes p n s = s\<lparr>vmem := filled (vmem s) p (\<lambda>_. 0) n\<rparr>"
  using assms
proof (induction n)
  case 0
  then show ?case by (simp add: zero_bytes_def filled_def)
next
  case (Suc n)
  then show ?case using filled_Suc [of n "vmem s" p "\<lambda>_. 0"] by (simp add: zero_bytes_def)
qed

text \<open>The pages of a segment, and the addresses it occupies.\<close>

definition segment_list :: "elf_program_header \<Rightarrow> (u32 \<times> u32) list" where
  "segment_list ph = (if ph_type ph = 1 then
     map (\<lambda>i. (fst (segment_pages ph) + of_nat i * 4096, segment_flags ph)) [0..<unat (snd (segment_pages ph))] else [])"

definition in_segment :: "elf_program_header \<Rightarrow> u32 \<Rightarrow> bool" where
  "in_segment ph a \<longleftrightarrow> ph_type ph = 1 \<and> unat (ph_vaddr ph) \<le> unat a \<and> unat a < unat (ph_vaddr ph) + unat (ph_memsz ph)"

text \<open>A segment within the file and below the user stack.\<close>

definition segment_ok :: "nat \<Rightarrow> elf_program_header \<Rightarrow> bool" where
  "segment_ok n ph \<longleftrightarrow> (ph_type ph = 1 \<longrightarrow>
     unat (ph_offset ph) + unat (ph_filesz ph) \<le> n \<and> ph_filesz ph \<le> ph_memsz ph \<and>
     unat (ph_vaddr ph) + unat (ph_memsz ph) \<le> 0xBFFFE000)"

text \<open>The bytes of the file, followed by zeros.\<close>

definition segment_loaded :: "u8 list \<Rightarrow> elf_program_header \<Rightarrow> 'a ata_state_scheme \<Rightarrow> bool" where
  "segment_loaded fb ph t \<longleftrightarrow> (ph_type ph = 1 \<longrightarrow> (\<forall>i < unat (ph_memsz ph).
     vmem t (ph_vaddr ph + of_nat i) = (if i < unat (ph_filesz ph) then fb ! (unat (ph_offset ph) + i) else 0)))"

lemma segment_page_numbers:
  assumes "segment_ok n ph" "ph_type ph = 1"
  defines "A \<equiv> unat (ph_vaddr ph) div 4096" and "B \<equiv> (unat (ph_vaddr ph) + unat (ph_memsz ph) + 4095) div 4096"
  shows "unat (snd (segment_pages ph)) = B - A" "A \<le> B" "B \<le> 0xBFFFE"
    "i < B - A \<Longrightarrow> unat (fst (segment_pages ph) + of_nat i * 4096) = (A + i) * 4096"
proof -
  have le: "unat (ph_vaddr ph) + unat (ph_memsz ph) \<le> 0xBFFFE000" using assms(1,2) by (simp add: segment_ok_def)
  have "unat (ph_vaddr ph + ph_memsz ph + 0xFFF) = unat (ph_vaddr ph) + unat (ph_memsz ph) + 4095"
    using le by (simp add: unat_add_no_wrap)
  then have e: "unat ((ph_vaddr ph + ph_memsz ph + 0xFFF) AND 0xFFFFF000) = B * 4096" by (simp add: frame_mask_unat B_def)
  have a: "unat (ph_vaddr ph AND 0xFFFFF000) = A * 4096" by (simp add: frame_mask_unat A_def)
  show AB: "A \<le> B" unfolding A_def B_def by (rule div_le_mono) simp
  have "B \<le> (0xBFFFE000 + 4095) div 4096" unfolding B_def using le by (intro div_le_mono) simp
  then show B: "B \<le> 0xBFFFE" by simp
  have "unat (((ph_vaddr ph + ph_memsz ph + 0xFFF) AND 0xFFFFF000) - (ph_vaddr ph AND 0xFFFFF000)) = (B - A) * 4096"
    using AB by (simp add: unat_sub_no_wrap word_le_nat_alt e a diff_mult_distrib)
  then show "unat (snd (segment_pages ph)) = B - A"
    by (simp add: segment_pages_def Let_def unat_div_u32 c_consts)
  show "unat (fst (segment_pages ph) + of_nat i * 4096) = (A + i) * 4096" if "i < B - A"
  proof -
    have "i < 2 ^ 20" using that B by simp
    then have "unat (of_nat i * 4096 :: u32) = i * 4096" by (simp add: unat_mult_no_wrap unat_of_nat_u32)
    then show ?thesis using that B a by (simp add: segment_pages_def Let_def unat_add_no_wrap algebra_simps)
  qed
qed

lemma segment_list_aligned:
  assumes "segment_ok n ph" "(va, fl) \<in> set (segment_list ph)"
  shows "va AND 0xFFFFF000 = va" "unat va < 0xBFFFE000" "fl = segment_flags ph"
proof -
  have t: "ph_type ph = 1" using assms(2) by (auto simp: segment_list_def split: if_splits)
  note pn = segment_page_numbers [OF assms(1) t]
  obtain i where i: "i < unat (snd (segment_pages ph))" "va = fst (segment_pages ph) + of_nat i * 4096" "fl = segment_flags ph"
    using assms(2) by (auto simp: segment_list_def split: if_splits)
  have u: "unat va = (unat (ph_vaddr ph) div 4096 + i) * 4096" using pn(4) [of i] i(1,2) pn(1) by simp
  show "fl = segment_flags ph" by (rule i(3))
  show "va AND 0xFFFFF000 = va" by (rule frame_mask_aligned) (simp add: page_aligned_def u)
  show "unat va < 0xBFFFE000" using i(1) pn(1,3) u by simp
qed

lemma in_segment_page:
  assumes "segment_ok n ph" "in_segment ph a"
  shows "a AND 0xFFFFF000 \<in> set (map fst (segment_list ph))"
proof -
  have t: "ph_type ph = 1" and a: "unat (ph_vaddr ph) \<le> unat a" "unat a < unat (ph_vaddr ph) + unat (ph_memsz ph)"
    using assms(2) by (simp_all add: in_segment_def)
  note pn = segment_page_numbers [OF assms(1) t]
  define i where "i = unat a div 4096 - unat (ph_vaddr ph) div 4096"
  have "unat (ph_vaddr ph) div 4096 \<le> unat a div 4096" using a(1) by (rule div_le_mono)
  moreover have "unat a div 4096 < (unat (ph_vaddr ph) + unat (ph_memsz ph) + 4095) div 4096"
  proof -
    have "unat a + 4096 \<le> unat (ph_vaddr ph) + unat (ph_memsz ph) + 4095" using a(2) by simp
    from div_le_mono [OF this, of 4096] show ?thesis by simp
  qed
  ultimately have i: "i < unat (snd (segment_pages ph))" "unat (ph_vaddr ph) div 4096 + i = unat a div 4096"
    unfolding pn(1) by (simp_all add: i_def diff_less_mono)
  have "a AND 0xFFFFF000 = fst (segment_pages ph) + of_nat i * 4096"
    using pn(4) [of i] i by (simp add: word_eq_iff_unat_u32 frame_mask_unat pn(1))
  then show ?thesis using i(1) t by (auto simp: segment_list_def image_iff)
qed

text \<open>The loader between two segments, and what it has done to the state.\<close>

definition loading :: "nat set \<Rightarrow> device \<Rightarrow> u16 \<Rightarrow> disk \<Rightarrow> u32 \<Rightarrow> u32 list \<Rightarrow> u8 list \<Rightarrow> 'a fat_state_scheme \<Rightarrow> bool" where
  "loading M dev io d0 file cs fb s \<longleftrightarrow>
     file_at dev io d0 file cs fb s \<and> paging_ok M s \<and> 0xC0000000 \<le> unat (heap_start s)"

definition load_step :: "(u32 \<times> u32) list \<Rightarrow> 'a fat_state_scheme \<Rightarrow> 'a fat_state_scheme \<Rightarrow> bool" where
  "load_step L s t \<longleftrightarrow> placed L s t \<and> same_volume s t \<and> heap_live t = heap_live s \<and> fnodes t = fnodes s \<and>
     card (free_pages s) \<le> card (free_pages t) + 2 * length L"

lemma load_step_kept: "load_step L s t \<Longrightarrow> kept t a = kept s a"
  by (simp add: load_step_def kept_def same_volume_def)

lemma load_step_append:
  assumes "load_step L s t" "load_step K t u" "distinct (map fst (L @ K))"
    and "\<And>va fl. (va, fl) \<in> set (L @ K) \<Longrightarrow> va AND 0xFFFFF000 = va"
  shows "load_step (L @ K) s u"
  using assms(1,2) placed_append [OF _ _ assms(3,4)] same_volume_trans by (auto simp: load_step_def)

lemma user_kept:
  assumes "0xC0000000 \<le> unat (heap_start s)" "unat v + m \<le> 0xBFFFE000" "i < m"
  shows "kept s (v + of_nat i)" "unat (v + of_nat i) = unat v + i"
proof -
  show u: "unat (v + of_nat i) = unat v + i" using assms(2,3) by (simp add: unat_add_no_wrap unat_of_nat_u32)
  show "kept s (v + of_nat i)" unfolding kept_def u using assms by simp
qed

text \<open>The data of a segment: a copy from the file, then zeros.\<close>

lemma segment_data:
  fixes s :: "'a fat_state_scheme"
  assumes at: "file_at dev io d0 file cs fb s" and hs: "0xC0000000 \<le> unat (heap_start s)"
    and ok: "segment_ok (length fb) ph" and ld: "ph_type ph = 1"
  obtains t where "(if ph_filesz ph > 0
      then map_option snd (vfs_read (call_read dev) file (ph_offset ph) (ph_filesz ph) (ph_vaddr ph) s) else Some s) = Some t"
    "fs_only s t" "file_at dev io d0 file cs fb t" "heap_live t = heap_live s"
    "\<And>i. i < unat (ph_filesz ph) \<Longrightarrow> vmem t (ph_vaddr ph + of_nat i) = fb ! (unat (ph_offset ph) + i)"
    "\<And>a. kept s a \<Longrightarrow> \<not> unat (a - ph_vaddr ph) < unat (ph_filesz ph) \<Longrightarrow> vmem t a = vmem s a"
proof (cases "ph_filesz ph > 0")
  case True
  have b: "unat (ph_offset ph) + unat (ph_filesz ph) \<le> length fb" "unat (ph_vaddr ph) + unat (ph_filesz ph) \<le> 0xBFFFE000"
    using ok ld by (auto simp: segment_ok_def word_le_nat_alt)
  have k: "kept s (ph_vaddr ph + of_nat i)" if "i < unat (ph_filesz ph)" for i
    by (rule user_kept(1) [OF hs b(2) that])
  have len: "length (take (unat (ph_filesz ph)) (drop (unat (ph_offset ph)) fb)) = unat (ph_filesz ph)" using b(1) by simp
  obtain t where t: "vfs_read (call_read dev) file (ph_offset ph) (ph_filesz ph) (ph_vaddr ph) s = Some (of_nat (unat (ph_filesz ph)), t)"
    "load_bytes (ph_vaddr ph) (unat (ph_filesz ph)) t = take (unat (ph_filesz ph)) (drop (unat (ph_offset ph)) fb)"
    "fs_only s t" "file_at dev io d0 file cs fb t" "heap_live t = heap_live s"
    "\<And>a. kept s a \<Longrightarrow> \<not> unat (a - ph_vaddr ph) < unat (ph_filesz ph) \<Longrightarrow> vmem t a = vmem s a"
    by (rule file_read [OF at k, of "ph_filesz ph" "ph_offset ph", unfolded len]) (assumption, blast)
  have "vmem t (ph_vaddr ph + of_nat i) = fb ! (unat (ph_offset ph) + i)" if "i < unat (ph_filesz ph)" for i
    using arg_cong [OF t(2), of "\<lambda>xs. xs ! i"] that b(1) by (simp add: load_bytes_nth)
  then show thesis using that [of t] t True by simp
next
  case False
  then show thesis using that [of s] at by (simp add: word_neq_0_conv [symmetric])
qed

text \<open>The zeros after the bytes of the file, also when there are none.\<close>

lemma zero_tail:
  fixes v f m :: u32 and s :: "'a ata_state_scheme"
  assumes "f \<le> m" "unat v + unat m \<le> 0xBFFFE000"
  defines "t \<equiv> s\<lparr>vmem := filled (vmem s) (v + f) (\<lambda>_. 0) (unat (m - f))\<rparr>"
  shows "(if m > f then zero_bytes (v + f) (unat (m - f)) s else s) = t"
    "vmem t a = (if unat v + unat f \<le> unat a \<and> unat a < unat v + unat m then 0 else vmem s a)"
proof -
  have n: "unat (m - f) = unat m - unat f" using assms(1) by (simp add: unat_sub_no_wrap)
  have vf: "unat (v + f) = unat v + unat f" using assms by (simp add: unat_add_no_wrap word_le_nat_alt)
  have "unat (m - f) < 2 ^ 32" using assms(2) n by simp
  note zb = zero_bytes_filled [OF this, of "v + f" s]
  show "(if m > f then zero_bytes (v + f) (unat (m - f)) s else s) = t"
    using zb assms(1) by (cases "m > f") (auto simp: t_def filled_def)
  show "vmem t a = (if unat v + unat f \<le> unat a \<and> unat a < unat v + unat m then 0 else vmem s a)"
  proof (cases "unat (a - (v + f)) < unat (m - f)")
    case True
    have "unat (v + f) + unat (m - f) < 2 ^ 32" using assms vf n by (simp add: word_le_nat_alt)
    from unat_offset [OF True this] have "unat v + unat f \<le> unat a \<and> unat a < unat v + unat m"
      using True vf n by linarith
    then show ?thesis using True by (simp add: t_def filled_def)
  next
    case False
    have "unat (a - (v + f)) = unat a - (unat v + unat f)" if "unat v + unat f \<le> unat a"
      using that vf by (simp add: unat_sub_no_wrap word_le_nat_alt)
    then have "\<not> (unat v + unat f \<le> unat a \<and> unat a < unat v + unat m)" using False n by auto
    then show ?thesis unfolding t_def filled_def using False by (subst if_not_P) auto
  qed
qed

lemma load_segment_spec:
  fixes s :: "'a fat_state_scheme"
  assumes ld: "loading M dev io d0 file cs fb s" and ok: "segment_ok (length fb) ph"
    and fr: "2 * length (segment_list ph) \<le> card (free_pages s)" and di: "distinct (map fst (segment_list ph))"
  obtains t where "load_segment dev file ph s = Some (True, t)" "loading M dev io d0 file cs fb t"
    "load_step (segment_list ph) s t" "segment_loaded fb ph t"
    "\<And>a. kept s a \<Longrightarrow> \<not> in_segment ph a \<Longrightarrow> vmem t a = vmem s a"
proof (cases "ph_type ph = 1")
  case False
  show thesis
    by (rule that [of s]) (use False ld in \<open>simp_all add: load_segment_def PT_LOAD_def segment_list_def load_step_def
        placed_Nil same_volume_def segment_loaded_def\<close>)
next
  case True
  let ?v = "ph_vaddr ph" and ?f = "ph_filesz ph" and ?m = "ph_memsz ph"
  have b: "?f \<le> ?m" "unat ?v + unat ?m \<le> 0xBFFFE000" using ok True by (auto simp: segment_ok_def)
  have at: "file_at dev io d0 file cs fb s" "paging_ok M s" "0xC0000000 \<le> unat (heap_start s)"
    using ld by (simp_all add: loading_def)
  obtain s1 where s1: "map_all (segment_list ph) s = (True, s1)" "placed (segment_list ph) s s1" "paging_ok M s1"
    "tables_only s s1" "card (free_pages s) \<le> card (free_pages s1) + 2 * length (segment_list ph)"
    using map_all_spec [OF at(2) fr di] segment_list_aligned(1) [OF ok] by blast
  have map: "map_user_pages (unat (snd (segment_pages ph))) (fst (segment_pages ph)) 0 (segment_flags ph) s = (True, s1)"
    using s1(1) True by (simp add: map_user_pages_all segment_list_def PAGE_SIZE_def)
  have v1: "same_volume s s1" "heap_live s1 = heap_live s" "fnodes s1 = fnodes s" "vmem s1 = vmem s"
    using same_volume_steps(4) [OF s1(4)] heap_same(1) [OF heap_inv_tables [OF s1(4)]] tables_only_io [OF s1(4)] by simp_all
  have hs1: "0xC0000000 \<le> unat (heap_start s1)" using at(3) same_volume_geometry(7) [OF v1(1)] by simp
  obtain s2 where s2: "(if ?f > 0 then map_option snd (vfs_read (call_read dev) file (ph_offset ph) ?f ?v s1) else Some s1) = Some s2"
    "fs_only s1 s2" "file_at dev io d0 file cs fb s2" "heap_live s2 = heap_live s1"
    "\<And>i. i < unat ?f \<Longrightarrow> vmem s2 (?v + of_nat i) = fb ! (unat (ph_offset ph) + i)"
    "\<And>a. kept s1 a \<Longrightarrow> \<not> unat (a - ?v) < unat ?f \<Longrightarrow> vmem s2 a = vmem s1 a"
    by (rule segment_data [OF file_at_steps(1) [OF at(1) s1(4)] hs1 ok True]) blast
  define t where "t = s2\<lparr>vmem := filled (vmem s2) (?v + ?f) (\<lambda>_. 0) (unat (?m - ?f))\<rparr>"
  note z = zero_tail [OF b, of s2, folded t_def]
  have t2: "fs_only s1 t" using fs_only_trans [OF s2(2) fs_only_steps(3)] by (simp add: t_def)
  show thesis
  proof (rule that)
    show "load_segment dev file ph s = Some (True, t)"
      using True map s2(1) z(1) by (simp add: load_segment_def PT_LOAD_def split_beta split: if_splits)
    have lt: "heap_live t = heap_live s" using s2(4) v1(2) heap_same(1) [of t s2] by (simp add: t_def heap_inv_def)
    have v: "same_volume s t" by (rule same_volume_trans [OF v1(1) same_volume_steps(2) [OF t2]])
    note pg = same_pages_paging [OF same_pages_steps(2) [OF t2]]
    show "loading M dev io d0 file cs fb t"
      using file_at_steps(2) [OF s2(3), of "filled (vmem s2) (?v + ?f) (\<lambda>_. 0) (unat (?m - ?f))"] s1(3) at(3) v pg(3)
      by (simp add: loading_def same_volume_geometry(7) [OF v] t_def [symmetric])
    show "load_step (segment_list ph) s t"
      unfolding load_step_def pg using s1(2,5) v lt v1(3) fs_only_fields(4) [OF t2] by simp
    show "segment_loaded fb ph t"
      unfolding segment_loaded_def z(2) using s2(5) user_kept(2) [OF at(3) b(2)] by auto
    show "vmem t a = vmem s a" if "kept s a" "\<not> in_segment ph a" for a
    proof -
      have "kept s1 a" using that(1) v1(2) by (simp add: kept_def same_volume_geometry [OF v1(1)])
      moreover have "\<not> unat (a - ?v) < unat ?f"
        using unat_offset [of a ?v "unat ?f"] b that(2) True by (auto simp: in_segment_def word_le_nat_alt)
      moreover have "\<not> (unat ?v + unat ?f \<le> unat a \<and> unat a < unat ?v + unat ?m)"
        using that(2) True by (auto simp: in_segment_def)
      ultimately show ?thesis unfolding z(2) using s2(6) v1(4) by (subst if_not_P) auto
    qed
  qed
qed

subsection \<open>All segments\<close>

lemma program_header_cong:
  assumes "\<And>k. k < 32 \<Longrightarrow> vmem t (p + of_nat i * 32 + of_nat k) = vmem s (p + of_nat i * 32 + of_nat k)"
  shows "program_header p i t = program_header p i s"
proof -
  have k: "\<And>k. k < 32 \<Longrightarrow> vmem t (p + of_nat i * 32 + word_of_nat k) = vmem s (p + of_nat i * 32 + word_of_nat k)"
    by (rule assms)
  note v = k [of 0] k [of 1] k [of 2] k [of 3] k [of 4] k [of 5] k [of 6] k [of 7] k [of 8] k [of 9] k [of 10]
    k [of 11] k [of 12] k [of 13] k [of 14] k [of 15] k [of 16] k [of 17] k [of 18] k [of 19] k [of 20] k [of 21]
    k [of 22] k [of 23] k [of 24] k [of 25] k [of 26] k [of 27] k [of 28] k [of 29] k [of 30] k [of 31]
  show ?thesis using v
    by (simp add: program_header_def load32_def load16_def Let_def sizeof_program_header_def add.assoc)
qed

lemma in_buffer:
  assumes "heap_ok s" "(p, k) \<in> heap_live s" "j < k"
  shows "kept s (p + of_nat j)" "unat (heap_start s) \<le> unat (p + of_nat j)"
proof -
  note pl = live_placed [OF assms(1,2)]
  have "unat (p + of_nat j) = unat p + j" using pl(3) assms(3) by (simp add: unat_add_no_wrap unat_of_nat_u32)
  then show "kept s (p + of_nat j)" "unat (heap_start s) \<le> unat (p + of_nat j)"
    using assms(2,3) pl(1) unfolding kept_def by force+
qed

lemma load_segments_spec:
  fixes s :: "'a fat_state_scheme"
  assumes "loading M dev io d0 file cs fb s" "(pb, k) \<in> heap_live s" "(i + n) * 32 \<le> k"
    and "hs = map (\<lambda>j. program_header pb j s) [i..<i + n]" "\<forall>ph \<in> set hs. segment_ok (length fb) ph"
    and "2 * length (concat (map segment_list hs)) \<le> card (free_pages s)"
    and "distinct (map fst (concat (map segment_list hs)))"
  shows "\<exists>t. load_segments n dev file pb i s = Some (True, t) \<and> loading M dev io d0 file cs fb t \<and>
    load_step (concat (map segment_list hs)) s t \<and> (\<forall>ph \<in> set hs. segment_loaded fb ph t) \<and>
    (\<forall>a. kept s a \<and> (\<forall>ph \<in> set hs. \<not> in_segment ph a) \<longrightarrow> vmem t a = vmem s a)"
  using assms
proof (induction n arbitrary: i s hs)
  case 0
  then show ?case by (auto simp: load_step_def placed_Nil same_volume_def)
next
  case (Suc n)
  note prems = Suc.prems
  define ph where "ph = program_header pb i s"
  define ks where "ks = map (\<lambda>j. program_header pb j s) [Suc i..<Suc i + n]"
  have hs: "hs = ph # ks" unfolding prems(4) ph_def ks_def by (simp add: upt_rec)
  have ok: "segment_ok (length fb) ph" "\<forall>ph \<in> set ks. segment_ok (length fb) ph" using prems(5) hs by auto
  have di: "distinct (map fst (segment_list ph))" "distinct (map fst (concat (map segment_list ks)))"
    "set (map fst (segment_list ph)) \<inter> set (map fst (concat (map segment_list ks))) = {}"
    using prems(7) hs by (simp_all only: list.map concat.simps map_append distinct_append)
  obtain u where u: "load_segment dev file ph s = Some (True, u)" "loading M dev io d0 file cs fb u"
    "load_step (segment_list ph) s u" "segment_loaded fb ph u"
    "\<And>a. kept s a \<Longrightarrow> \<not> in_segment ph a \<Longrightarrow> vmem u a = vmem s a"
    by (rule load_segment_spec [OF prems(1) ok(1) _ di(1)]) (use prems(6) hs in auto)
  have hok: "heap_ok s" "0xC0000000 \<le> unat (heap_start s)"
    using prems(1) room_ok by (auto simp: loading_def file_at_def)
  have same: "program_header pb j u = program_header pb j s" if j: "j < i + Suc n" for j
  proof (rule program_header_cong)
    fix l :: nat assume "l < 32"
    then have "j * 32 + l < k" using j prems(3) by auto
    note ib = in_buffer [OF hok(1) prems(2) this]
    have "\<not> in_segment ph (pb + of_nat (j * 32 + l))"
      using ib(2) hok(2) ok(1) by (auto simp: in_segment_def segment_ok_def)
    from u(5) [OF ib(1) this] show "vmem u (pb + of_nat j * 32 + of_nat l) = vmem s (pb + of_nat j * 32 + of_nat l)"
      by (simp add: add.assoc mult.commute)
  qed
  have "ks = map (\<lambda>j. program_header pb j u) [Suc i..<Suc i + n]" unfolding ks_def using same by auto
  moreover have "2 * length (concat (map segment_list ks)) \<le> card (free_pages u)"
    using prems(6) u(3) hs by (simp add: load_step_def)
  moreover have "(pb, k) \<in> heap_live u" using prems(2) u(3) by (simp add: load_step_def)
  ultimately obtain t where t: "load_segments n dev file pb (Suc i) u = Some (True, t)" "loading M dev io d0 file cs fb t"
    "load_step (concat (map segment_list ks)) u t" "\<forall>ph \<in> set ks. segment_loaded fb ph t"
    "\<forall>a. kept u a \<and> (\<forall>ph \<in> set ks. \<not> in_segment ph a) \<longrightarrow> vmem t a = vmem u a"
    using Suc.IH [OF u(2), of "Suc i" ks] prems(3) ok(2) di(2) by auto
  have fr: "vmem t a = vmem u a" if "kept s a" "\<forall>ph \<in> set ks. \<not> in_segment ph a" for a
    using t(5) that load_step_kept [OF u(3)] by blast
  have "segment_loaded fb ph t"
    unfolding segment_loaded_def
  proof (intro impI allI)
    fix j assume ty: "ph_type ph = 1" and j: "j < unat (ph_memsz ph)"
    let ?a = "ph_vaddr ph + of_nat j"
    have "unat (ph_vaddr ph) + unat (ph_memsz ph) \<le> 0xBFFFE000" using ok(1) ty by (simp add: segment_ok_def)
    note uk = user_kept [OF hok(2) this j]
    then have "in_segment ph ?a" using ty j by (simp add: in_segment_def)
    then have pg: "?a AND 0xFFFFF000 \<in> set (map fst (segment_list ph))" by (rule in_segment_page [OF ok(1)])
    have "\<not> in_segment q ?a" if q: "q \<in> set ks" for q
    proof
      assume "in_segment q ?a"
      from in_segment_page [OF bspec [OF ok(2) q] this]
      have "?a AND 0xFFFFF000 \<in> set (map fst (concat (map segment_list ks)))" using q by auto
      then show False using pg di(3) by blast
    qed
    then show "vmem t ?a = (if j < unat (ph_filesz ph) then fb ! (unat (ph_offset ph) + j) else 0)"
      using fr [OF uk(1)] u(4) ty j by (simp add: segment_loaded_def)
  qed
  moreover have "load_step (segment_list ph @ concat (map segment_list ks)) s t"
    by (rule load_step_append [OF u(3) t(3)]) (use prems(7) hs segment_list_aligned(1) ok in auto)
  moreover have "load_segments (Suc n) dev file pb i s = Some (True, t)" using u(1) t(1) by (simp add: ph_def)
  moreover have "vmem t a = vmem s a" if "kept s a" "\<forall>q \<in> set hs. \<not> in_segment q a" for a
    using fr [OF that(1)] u(5) [OF that(1)] that(2) hs by simp
  ultimately show ?case using t(2,4) unfolding hs by (intro exI [of _ t]) simp
qed

subsection \<open>Headers as bytes of the file\<close>

definition header_of :: "u8 list \<Rightarrow> elf_header" where
  "header_of bs =
     \<lparr>eh_magic = le32 bs 0, eh_class = bs ! 4, eh_endianness = bs ! 5, eh_version = bs ! 6, eh_os_abi = bs ! 7,
      eh_padding = take 8 (drop 8 bs), eh_type = le16 bs 16, eh_machine = le16 bs 18, eh_version2 = le32 bs 20,
      eh_entry = le32 bs 24, eh_phoff = le32 bs 28, eh_shoff = le32 bs 32, eh_flags = le32 bs 36,
      eh_ehsize = le16 bs 40, eh_phentsize = le16 bs 42, eh_phnum = le16 bs 44, eh_shentsize = le16 bs 46,
      eh_shnum = le16 bs 48, eh_shstrndx = le16 bs 50\<rparr>"

definition program_header_at :: "u8 list \<Rightarrow> nat \<Rightarrow> elf_program_header" where
  "program_header_at bs k =
     \<lparr>ph_type = le32 bs k, ph_offset = le32 bs (k + 4), ph_vaddr = le32 bs (k + 8), ph_paddr = le32 bs (k + 12),
      ph_filesz = le32 bs (k + 16), ph_memsz = le32 bs (k + 20), ph_flags = le32 bs (k + 24), ph_align = le32 bs (k + 28)\<rparr>"

definition program_headers :: "u8 list \<Rightarrow> elf_program_header list" where
  "program_headers fb =
     map (\<lambda>i. program_header_at fb (unat (eh_phoff (header_of fb)) + i * 32)) [0..<unat (eh_phnum (header_of fb))]"

definition loadable :: "elf_header \<Rightarrow> bool" where
  "loadable h \<longleftrightarrow> eh_magic h = 0x464C457F \<and> eh_machine h = 3 \<and> eh_type h = 2"

lemma header_in_memory: "read_header p s = header_of (load_bytes p 52 s)"
  using load_bytes_part [of 8 8 52 p s]
  by (simp add: read_header_def header_of_def le16_def le32_def load16_def load32_def load_bytes_nth add.assoc)

lemma header_of_take: "header_of (take 52 bs) = header_of bs"
  by (simp add: header_of_def le16_def le32_def drop_take)

lemma le32_part: "k + 3 < n \<Longrightarrow> le32 (take n (drop p bs)) k = le32 bs (p + k)"
  if "p + n \<le> length bs" for p n bs
  using that by (simp add: le32_def le16_def add.assoc)

lemma load32_in_buffer:
  assumes "k + 3 < n"
  shows "load32 (p + of_nat k) s = le32 (load_bytes p n s) k"
  using assms by (simp add: load32_def load16_def le32_def le16_def load_bytes_nth ac_simps)

lemma program_header_in_memory:
  assumes "load_bytes pb n t = take n (drop p fb)" "p + n \<le> length fb" "i * 32 + 32 \<le> n"
  shows "program_header pb i t = program_header_at fb (p + i * 32)"
proof -
  have l: "load32 (pb + of_nat i * 32 + of_nat k) t = le32 fb (p + i * 32 + k)" if "k + 3 < 32" for k
  proof -
    have k: "i * 32 + k + 3 < n" using that assms(3) by simp
    have "load32 (pb + of_nat (i * 32 + k)) t = le32 fb (p + (i * 32 + k))"
      using load32_in_buffer [OF k, of pb t] le32_part [OF assms(2) k] assms(1) by simp
    then show ?thesis by (simp add: add.assoc mult.commute)
  qed
  show ?thesis
    using l [of 0] l [of 4] l [of 8] l [of 12] l [of 16] l [of 20] l [of 24] l [of 28]
    by (simp add: program_header_def program_header_at_def Let_def sizeof_program_header_def)
qed

subsection \<open>Finding the file and its header\<close>

text \<open>A root directory on the medium, and a file that an entry of it describes.\<close>

definition root_dir :: "(nat \<Rightarrow> u16) \<Rightarrow> 'a fat_state_scheme \<Rightarrow> u32 list \<Rightarrow> bool" where
  "root_dir med s ds \<longleftrightarrow>
     (let root = fnodes s (fs_root s)
      in n_flags root = FS_DIRECTORY \<and> n_finddir root = Fat32_Finddir \<and> n_inode root = hd ds) \<and>
     hd ds < 0x0FFFFFF8 \<and> file_chain med (unat (fat_start_sector s)) ds \<and> (\<forall>c \<in> set ds. cluster_ok s c)"

definition file_of :: "(nat \<Rightarrow> u16) \<Rightarrow> 'a fat_state_scheme \<Rightarrow> fat_dir_entry \<Rightarrow> u32 list \<Rightarrow> bool" where
  "file_of med s e cs \<longleftrightarrow>
     \<not> bit (e_attr e) 4 \<and> hd cs = entry_cluster e \<and> file_chain med (unat (fat_start_sector s)) cs \<and>
     (\<forall>c \<in> set cs. cluster_ok s c)"

text \<open>What the loader has left alone while it looks for the file and reads its header.\<close>

definition untouched :: "disk \<Rightarrow> u16 \<Rightarrow> 'a fat_state_scheme \<Rightarrow> 'a fat_state_scheme \<Rightarrow> bool" where
  "untouched d0 io s t \<longleftrightarrow> same_pages s t \<and> same_volume s t \<and> medium d0 t io = medium d0 s io"

lemma untouched_trans: "untouched d0 io s t \<Longrightarrow> untouched d0 io t u \<Longrightarrow> untouched d0 io s u"
  unfolding untouched_def using same_pages_trans same_volume_trans by fastforce

lemma untouched_steps:
  fixes s t :: "'a fat_state_scheme"
  shows "log_info dev msg s = Some t \<Longrightarrow> console_only s t \<Longrightarrow> untouched d0 io s t"
    "fs_only s t \<Longrightarrow> medium d0 t io = medium d0 s io \<Longrightarrow> untouched d0 io s t"
    "node_only s t \<Longrightarrow> medium d0 t io = medium d0 s io \<Longrightarrow> untouched d0 io s t"
  using same_pages_steps [of s t] same_pages_steps(3) [of s t] same_volume_steps [of s t] log_info_medium [of dev msg s t]
  by (simp_all add: untouched_def)

lemma elf_find:
  fixes s :: "'a fat_state_scheme"
  assumes uart: "uart_ready dev" and rdy: "disk_ready dev io d0 s" and v: "volume_ok s"
    and rd: "root_dir (medium d0 s io) s ds" and rm: "room s (unat (cluster_size s) + 55 + m)" "535 \<le> m"
  obtains s1 q t where "log_info dev ''ELF: Loading executable...'' s = Some s1"
    "vfs_finddir (call_finddir dev) (fs_root s1) path s1 = Some (q, t)"
    "looked_up (heap_live s) (fnodes s) (find_entry path (entries_of (file_bytes (medium d0 s io) s ds))) q t"
    "room t (m - 239)" "untouched d0 io s t" "\<And>a. kept s a \<Longrightarrow> vmem t a = vmem s a"
proof -
  obtain s1 where s1: "log_info dev ''ELF: Loading executable...'' s = Some s1" "console_only s s1"
    by (rule log_info_frame [OF uart])
  note vol = same_volume_geometry [OF same_volume_steps(1) [OF s1(2)]] and med = log_info_medium [OF s1(1), of io d0]
    and mm = console_only_memory [OF s1(2)] and cv = console_only_volume [OF s1(2)]
  have kp: "kept s1 a = kept s a" for a by (simp add: kept_def vol mm)
  have "n_inode (fnodes s (fs_root s)) = hd ds" "hd ds < 0x0FFFFFF8" "\<forall>c \<in> set ds. cluster_ok s c"
    "file_chain (medium d0 s io) (unat (fat_start_sector s)) ds" using rd by (simp_all add: root_dir_def Let_def)
  then obtain q t where t: "fat32_finddir dev (fs_root s) path s1 = Some (q, t)"
    "looked_up (heap_live s) (fnodes s) (find_entry path (entries_of (file_bytes (medium d0 s io) s ds))) q t"
    "room t (m - 239)" "node_only s1 t" "medium d0 t io = medium d0 s io" "\<forall>a. kept s a \<longrightarrow> vmem t a = vmem s a"
    using fat32_finddir_spec [of dev io d0 s1 m ds "fs_root s1" path, unfolded vol med mm cv kp] rdy rm v by blast
  have "untouched d0 io s t"
    by (rule untouched_trans [OF untouched_steps(1) [OF s1] untouched_steps(3) [OF t(4)]]) (simp add: t(5) med)
  moreover have "vfs_finddir (call_finddir dev) (fs_root s1) path s1 = Some (q, t)"
    using t(1) rd by (simp add: vfs_finddir_def call_finddir_def root_dir_def Let_def cv c_consts)
  ultimately show thesis using that s1(1) t(2,3,6) by blast
qed

lemma elf_read_header:
  fixes s :: "'a fat_state_scheme"
  assumes uart: "uart_ready dev" and rdy: "disk_ready dev io d0 s" and v: "volume_ok s"
    and rd: "root_dir (medium d0 s io) s ds" and rm: "room s (2 * unat (cluster_size s) + 894 + x)"
    and fe: "find_entry path (entries_of (file_bytes (medium d0 s io) s ds)) = Some e"
    and fo: "file_of (medium d0 s io) s e cs" and hp: "\<forall>i < 52. kept s (hp + of_nat i)"
  defines "fb \<equiv> file_bytes (medium d0 s io) s cs"
  obtains s1 q t u l where "log_info dev ''ELF: Loading executable...'' s = Some s1"
    "vfs_finddir (call_finddir dev) (fs_root s1) path s1 = Some (q, t)" "q \<noteq> 0"
    "vfs_read (call_read dev) q 0 52 hp t = Some (52, u)" "read_header hp u = header_of fb"
    "file_at dev io d0 q cs fb u" "room u (unat (cluster_size s) + 600 + x)" "untouched d0 io s u"
    "heap_live u = insert (q, l) (heap_live s)"
    "\<And>a. kept s a \<Longrightarrow> 52 \<le> unat (a - hp) \<Longrightarrow> vmem u a = vmem s a"
proof -
  let ?c = "unat (cluster_size s)"
  have rm': "room s (?c + 55 + (?c + 839 + x))" by (rule room_mono [OF rm]) simp
  have m: "535 \<le> ?c + 839 + x" by simp
  obtain s1 q t where t: "log_info dev ''ELF: Loading executable...'' s = Some s1"
    "vfs_finddir (call_finddir dev) (fs_root s1) path s1 = Some (q, t)"
    "looked_up (heap_live s) (fnodes s) (Some e) q t" "room t (?c + 839 + x - 239)" "untouched d0 io s t"
    "\<And>a. kept s a \<Longrightarrow> vmem t a = vmem s a"
    by (rule elf_find [OF uart rdy v rd rm' m, of path, unfolded fe]) blast
  obtain l where q: "q \<noteq> 0" "fnodes t q = fill_node e (fnodes s q)" "heap_live t = insert (q, l) (heap_live s)"
    using t(3) by (auto simp: looked_up_def)
  have ut: "same_volume s t" "medium d0 t io = medium d0 s io" using t(5) by (simp_all add: untouched_def)
  note vol = same_volume_geometry [OF ut(1)]
  have "e_attr e AND ATTR_DIRECTORY = 0"
    using fo bit_iff_and_push_bit_not_eq_0 [of "e_attr e" 4] by (simp add: file_of_def c_consts)
  then have node: "n_read (fnodes t q) = Fat32_Read" "n_inode (fnodes t q) = hd cs"
    using fo by (simp_all add: q(2) fill_node_def file_of_def Let_def)
  have at: "file_at dev io d0 q cs fb t"
    unfolding file_at_def vol ut(2) using rdy v fo node room_mono [OF t(4), of "?c + 600"] by (simp add: file_of_def fb_def)
  have len: "52 \<le> length fb"
  proof -
    have "cs \<noteq> []" using fo by (auto simp: file_of_def)
    moreover have "0 < unat (sectors_per_cluster (bpb s))" using v by (simp add: volume_ok_def unat_gt_0)
    ultimately show ?thesis by (cases cs) (auto simp: fb_def cluster_bytes_def)
  qed
  have kp: "kept t a" if "kept s a" for a by (rule kept_mono [OF vol(7,8) _ that]) (use q(3) in blast)
  have dest: "kept t (hp + of_nat i)" if "i < unat (52 :: u32)" for i using hp kp that by simp
  have o: "length (take (unat (52 :: u32)) (drop (unat (0 :: u32)) fb)) = 52" using len by simp
  obtain u where u: "vfs_read (call_read dev) q 0 52 hp t = Some (of_nat 52, u)"
    "load_bytes hp 52 u = take (unat (52 :: u32)) (drop (unat (0 :: u32)) fb)"
    "fs_only t u" "file_at dev io d0 q cs fb u" "heap_live u = heap_live t" "keeps_gaps t u" "medium d0 u io = medium d0 t io"
    "\<And>a. kept t a \<Longrightarrow> \<not> unat (a - hp) < unat (52 :: u32) \<Longrightarrow> vmem u a = vmem t a"
    by (rule file_read [OF at dest, of 52 0, unfolded o]) (assumption, blast)
  show thesis
  proof (rule that [OF t(1,2) q(1) _ _ u(4) _ untouched_trans [OF t(5) untouched_steps(2) [OF u(3,7)]]])
    show "vfs_read (call_read dev) q 0 52 hp t = Some (52, u)" using u(1) by simp
    show "read_header hp u = header_of fb" using u(2) by (simp add: header_in_memory header_of_take)
    show "room u (?c + 600 + x)" using keeps_gaps_room [OF u(6)] room_mono [OF t(4), of "?c + 600 + x"] by simp
    show "heap_live u = insert (q, l) (heap_live s)" using u(5) q(3) by simp
    show "vmem u a = vmem s a" if "kept s a" "52 \<le> unat (a - hp)" for a
      using u(8) [OF kp [OF that(1)]] t(6) [OF that(1)] that(2) by simp
  qed
qed

subsection \<open>Properties of the loader\<close>

lemma log_and_fail:
  fixes s :: "'a fat_state_scheme"
  assumes "uart_ready dev"
  obtains t where "map_option (Returned x) (log_info dev msg s) = Some (Returned x t)" "untouched d0 io s t" "vmem t = vmem s"
    "heap_ok t = heap_ok s" "heap_live t = heap_live s"
proof -
  obtain t where t: "log_info dev msg s = Some t" "console_only s t" by (rule log_info_frame [OF assms])
  show thesis by (rule that [of t]) (use t untouched_steps(1) [OF t] console_only_memory [OF t(2)] in simp_all)
qed

text \<open>
  C17: \<open>elf_exec\<close> refuses what it cannot run, before it maps anything: when the root directory has no entry
  with the name, or the entry is a file whose first 52 bytes are not the header of an executable for
  this machine (magic number, machine, type), the call returns \<open>-1\<close>. Page tables and the frame
  bitmap are as before, the heap is consistent, and no memory in use is overwritten except for the
  header structure itself.
\<close>

theorem elf_exec_rejects:
  fixes s :: "'a fat_state_scheme"
  assumes "uart_ready dev" "disk_ready dev io d0 s" "volume_ok s" "root_dir (medium d0 s io) s ds"
    and "room s (2 * unat (cluster_size s) + 894)" "\<forall>i < 52. kept s (hp + of_nat i)"
    and "case find_entry path (entries_of (file_bytes (medium d0 s io) s ds)) of None \<Rightarrow> True
         | Some e \<Rightarrow> \<exists>cs. file_of (medium d0 s io) s e cs \<and> \<not> loadable (header_of (file_bytes (medium d0 s io) s cs))"
  shows "\<exists>t. elf_exec dev hp path s = Some (Returned (-1) t) \<and> same_pages s t \<and> heap_ok t \<and>
    (\<forall>a. kept s a \<and> 52 \<le> unat (a - hp) \<longrightarrow> vmem t a = vmem s a)"
proof (cases "find_entry path (entries_of (file_bytes (medium d0 s io) s ds))")
  case None
  have rm: "room s (unat (cluster_size s) + 55 + 535)" by (rule room_mono [OF assms(5)]) simp
  obtain s1 q t where t: "log_info dev ''ELF: Loading executable...'' s = Some s1"
    "vfs_finddir (call_finddir dev) (fs_root s1) path s1 = Some (q, t)"
    "looked_up (heap_live s) (fnodes s) None q t" "untouched d0 io s t" "\<And>a. kept s a \<Longrightarrow> vmem t a = vmem s a"
    by (rule elf_find [OF assms(1-4) rm order_refl, of path, unfolded None]) blast
  obtain u where u: "map_option (Returned (-1)) (log_info dev ''ELF: File not found'' t) = Some (Returned (-1) u)"
    "untouched d0 io t u" "vmem u = vmem t" "heap_ok u = heap_ok t"
    by (rule log_and_fail [OF assms(1), where msg = "''ELF: File not found''" and x = "-1 :: int" and s = t and ?d0.0 = d0 and io = io]) blast
  have "elf_exec dev hp path s = Some (Returned (-1) u)"
    using t(1-3) u(1) by (simp add: elf_exec_def looked_up_def)
  then show ?thesis
    using t(3,5) u(3,4) untouched_trans [OF t(4) u(2)] by (auto simp: looked_up_def untouched_def)
next
  case (Some e)
  then obtain cs where cs: "file_of (medium d0 s io) s e cs" "\<not> loadable (header_of (file_bytes (medium d0 s io) s cs))"
    using assms(7) by auto
  define h where "h = header_of (file_bytes (medium d0 s io) s cs)"
  have rm: "room s (2 * unat (cluster_size s) + 894 + 0)" using assms(5) by simp
  obtain s1 q t u where t: "log_info dev ''ELF: Loading executable...'' s = Some s1"
    "vfs_finddir (call_finddir dev) (fs_root s1) path s1 = Some (q, t)" "q \<noteq> 0"
    "vfs_read (call_read dev) q 0 52 hp t = Some (52, u)" "read_header hp u = h"
    "room u (unat (cluster_size s) + 600 + 0)" "untouched d0 io s u"
    "\<And>a. kept s a \<Longrightarrow> 52 \<le> unat (a - hp) \<Longrightarrow> vmem u a = vmem s a"
    unfolding h_def by (rule elf_read_header [OF assms(1-4) rm Some cs(1) assms(6)]) blast
  define msg where "msg = (if eh_magic h \<noteq> ELF_MAGIC then ''ELF: Invalid magic number''
    else if eh_machine h \<noteq> EM_386 then ''ELF: Not i386 executable'' else ''ELF: Not executable file'')"
  obtain v where v: "map_option (Returned (-1)) (log_info dev msg u) = Some (Returned (-1) v)"
    "untouched d0 io u v" "vmem v = vmem u" "heap_ok v = heap_ok u"
    by (rule log_and_fail [OF assms(1), where msg = msg and x = "-1 :: int" and s = u and ?d0.0 = d0 and io = io]) blast
  have "elf_exec dev hp path s = Some (Returned (-1) v)"
    using t(1-5) v(1) cs(2)
    by (auto simp: elf_exec_def sizeof_elf_header_def Let_def msg_def loadable_def h_def c_consts)
  then show ?thesis
    using t(8) v(3,4) untouched_trans [OF t(7) v(2)] room_ok [OF t(6)] by (auto simp: untouched_def)
qed

text \<open>The two pages of the user stack.\<close>

definition user_stack :: "(u32 \<times> u32) list" where
  "user_stack = [(0xBFFFF000, 7), (0xBFFFE000, 7)]"

lemma map_stack_pages: "map_stack 2 0xC0000000 0 s = map_all user_stack s"
proof -
  have "[0..<0 + 2] = [0, Suc 0]" by (simp add: upt_rec_numeral)
  then show ?thesis unfolding map_stack_all by (simp add: user_stack_def c_consts)
qed

text \<open>All pages that a program gets, the segments' and the stack's.\<close>

definition program_pages :: "u8 list \<Rightarrow> (u32 \<times> u32) list" where
  "program_pages fb = concat (map segment_list (program_headers fb)) @ user_stack"

lemma program_pages_aligned:
  assumes "\<forall>ph \<in> set (program_headers fb). segment_ok (length fb) ph"
  shows "(va, fl) \<in> set (program_pages fb) \<Longrightarrow> va AND 0xFFFFF000 = va"
    "distinct (map fst (concat (map segment_list (program_headers fb)))) \<Longrightarrow> distinct (map fst (program_pages fb))"
proof -
  have seg: "va AND 0xFFFFF000 = va \<and> unat va < 0xBFFFE000"
    if "(va, fl) \<in> set (concat (map segment_list (program_headers fb)))" for va fl
    using that assms segment_list_aligned by fastforce
  show "va AND 0xFFFFF000 = va" if "(va, fl) \<in> set (program_pages fb)"
    using that seg by (auto simp: program_pages_def user_stack_def)
  show "distinct (map fst (program_pages fb))" if "distinct (map fst (concat (map segment_list (program_headers fb))))"
    using that seg by (fastforce simp: program_pages_def user_stack_def)
qed

text \<open>The program headers in a buffer on the heap.\<close>

lemma read_program_headers:
  fixes s :: "'a fat_state_scheme"
  assumes at: "file_at dev io d0 q cs fb s" and rm: "room s (unat (cluster_size s) + 655 + unat n)"
    and n: "n = ucast (eh_phnum (header_of fb)) * 32" "eh_phnum (header_of fb) \<noteq> 0"
    and len: "unat (eh_phoff (header_of fb)) + 32 * unat (eh_phnum (header_of fb)) \<le> length fb"
  obtains pb k t u where "kmalloc n s = Some (pb, t)" "pb \<noteq> 0"
    "vfs_read (call_read dev) q (eh_phoff (header_of fb)) n pb t = Some (n, u)"
    "file_at dev io d0 q cs fb u" "untouched d0 io s u" "(pb, k) \<notin> heap_live s" "heap_live u = insert (pb, k) (heap_live s)"
    "unat (eh_phnum (header_of fb)) * 32 \<le> k"
    "map (\<lambda>j. program_header pb j u) [0..<unat (eh_phnum (header_of fb))] = program_headers fb"
    "\<And>a. kept s a \<Longrightarrow> vmem u a = vmem s a"
proof -
  let ?h = "header_of fb"
  let ?k = "unat (eh_phnum ?h)"
  have "unat (ucast (eh_phnum ?h) :: u32) = ?k" "?k < 2 ^ 16"
    using unsigned_less [where 'a = nat and w = "eh_phnum ?h"] by (simp_all add: unsigned_ucast_eq take_bit_nat_eq_self)
  then have un: "unat n = ?k * 32" "?k * 32 < 2 ^ 21" unfolding n(1) by (simp_all add: unat_mult_no_wrap)
  moreover have "0 < ?k" using n(2) by (simp add: unat_gt_0)
  ultimately have nn: "n \<noteq> 0" "unat n + 55 < 2 ^ 32" "unat n + 23 \<le> unat (cluster_size s) + 655 + unat n" by auto
  obtain pb k t where t: "kmalloc n s = Some (pb, t)" "heap_only s t" "heap_ok t" "unat n \<le> k"
    "heap_live t = insert (pb, k) (heap_live s)" "(pb, k) \<notin> heap_live s" "room t (unat (cluster_size s) + 600)"
    by (rule temporary_buffer [OF rm nn]) (use that in auto)
  have fst: "fs_only s t" by (rule fs_only_steps(1) [OF t(2)])
  have med: "medium d0 t io = medium d0 s io" using heap_only_io(1) [OF t(2)] by simp
  have at': "file_at dev io d0 q cs fb t"
    by (rule file_at_same [OF at same_volume_steps(2) [OF fst] med])
      (use t(7) fs_only_fields(4) [OF fst] same_volume_geometry(3) [OF same_volume_steps(2) [OF fst]] in simp_all)
  have pk: "(pb, k) \<in> heap_live t" using t(5) by simp
  have dest: "kept t (pb + of_nat i)" if "i < unat n" for i using in_buffer(1) [OF t(3) pk] that t(4) by simp
  have o: "length (take (unat n) (drop (unat (eh_phoff ?h)) fb)) = unat n" using len un by simp
  obtain u where u: "vfs_read (call_read dev) q (eh_phoff ?h) n pb t = Some (of_nat (unat n), u)"
    "load_bytes pb (unat n) u = take (unat n) (drop (unat (eh_phoff ?h)) fb)"
    "fs_only t u" "file_at dev io d0 q cs fb u" "heap_live u = heap_live t" "medium d0 u io = medium d0 t io"
    "\<And>a. kept t a \<Longrightarrow> \<not> unat (a - pb) < unat n \<Longrightarrow> vmem u a = vmem t a"
    by (rule file_read [OF at' dest, of n "eh_phoff ?h", unfolded o]) (assumption, blast)
  show thesis
  proof (rule that [OF t(1) live_placed(4) [OF t(3) pk] _ u(4) _ t(6)])
    show "vfs_read (call_read dev) q (eh_phoff ?h) n pb t = Some (n, u)" using u(1) by simp
    show "untouched d0 io s u"
      by (rule untouched_trans [OF untouched_steps(2) [OF fst med] untouched_steps(2) [OF u(3,6)]])
    show "heap_live u = insert (pb, k) (heap_live s)" "?k * 32 \<le> k" using u(5) t(4,5) un by simp_all
    show "map (\<lambda>j. program_header pb j u) [0..<?k] = program_headers fb"
      unfolding program_headers_def using program_header_in_memory [OF u(2)] len un by simp
    show "vmem u a = vmem s a" if "kept s a" for a
      using u(7) buffer_apart [OF t(2-6) that] heap_only_io(2) [OF t(2)] by auto
  qed
qed

text \<open>Everything from the segment loop to the stack.\<close>

lemma load_and_stack:
  fixes s :: "'a fat_state_scheme"
  assumes ld: "loading M dev io d0 q cs fb s" and pb: "(pb, k) \<notin> L" "heap_live s = insert (pb, k) L"
    and n: "unat (eh_phnum (header_of fb)) * 32 \<le> k"
    and hs: "map (\<lambda>j. program_header pb j s) [0..<unat (eh_phnum (header_of fb))] = program_headers fb"
    and ok: "\<forall>ph \<in> set (program_headers fb). segment_ok (length fb) ph"
    and di: "distinct (map fst (concat (map segment_list (program_headers fb))))"
    and fr: "2 * length (program_pages fb) \<le> card (free_pages s)"
  obtains t u where "load_segments (unat (eh_phnum (header_of fb))) dev q pb 0 s = Some (True, t)"
    "map_stack 2 0xC0000000 0 (kfree pb t) = (True, u)" "placed (program_pages fb) s u" "paging_ok M u" "heap_ok u"
    "heap_live u = L" "\<And>ph. ph \<in> set (program_headers fb) \<Longrightarrow> segment_loaded fb ph u"
    "\<And>a. kept s a \<Longrightarrow> \<forall>ph \<in> set (program_headers fb). \<not> in_segment ph a \<Longrightarrow> vmem u a = vmem s a"
proof -
  let ?S = "concat (map segment_list (program_headers fb))"
  have live: "(pb, k) \<in> heap_live s" using pb(2) by simp
  have fr': "2 * length ?S \<le> card (free_pages s)" using fr by (simp add: program_pages_def)
  obtain t where t: "load_segments (unat (eh_phnum (header_of fb))) dev q pb 0 s = Some (True, t)"
    "loading M dev io d0 q cs fb t" "load_step ?S s t" "\<forall>ph \<in> set (program_headers fb). segment_loaded fb ph t"
    "\<forall>a. kept s a \<and> (\<forall>ph \<in> set (program_headers fb). \<not> in_segment ph a) \<longrightarrow> vmem t a = vmem s a"
    using load_segments_spec [OF ld live _ _ ok fr' di, of 0 "unat (eh_phnum (header_of fb))"] n hs by fastforce
  have tl: "heap_ok t" "heap_live t = insert (pb, k) L" "paging_ok M t" "placed ?S s t"
    "card (free_pages s) \<le> card (free_pages t) + 2 * length ?S"
    using t(2,3) pb(2) room_ok by (auto simp: loading_def load_step_def file_at_def)
  note fk = release_buffer [OF tl(1,2) pb(1)]
  note pg = same_pages_paging [OF same_pages_steps(2) [OF fs_only_steps(1) [OF kfree_heap_only [of t pb]]]]
  have "paging_ok M (kfree pb t)" "2 * length user_stack \<le> card (free_pages (kfree pb t))" "distinct (map fst user_stack)"
    using tl(3,5) fr by (simp_all add: pg program_pages_def user_stack_def)
  moreover have "va AND 0xFFFFF000 = va" if "(va, fl) \<in> set user_stack" for va fl using that by (auto simp: user_stack_def)
  ultimately obtain u where u: "map_all user_stack (kfree pb t) = (True, u)" "placed user_stack (kfree pb t) u"
    "paging_ok M u" "tables_only (kfree pb t) u" using map_all_spec [of M "kfree pb t" user_stack] by blast
  have um: "vmem u = vmem t" "heap_ok u" "heap_live u = L"
    using tables_only_io(2) [OF u(4)] heap_same [OF heap_inv_tables [OF u(4)]] fk by simp_all
  show thesis
  proof (rule that [OF t(1)])
    show "map_stack 2 0xC0000000 0 (kfree pb t) = (True, u)" using u(1) by (simp add: map_stack_pages)
    show "placed (program_pages fb) s u"
      unfolding program_pages_def using placed_append [OF tl(4), of user_stack u] u(2) program_pages_aligned [OF ok] di
      by (simp add: pg program_pages_def)
    show "segment_loaded fb ph u" if "ph \<in> set (program_headers fb)" for ph
      using t(4) that um(1) by (simp add: segment_loaded_def)
  qed (use u(3) um t(5) in auto)
qed


subsection \<open>A program on a volume\<close>

text \<open>
  The volume of the file system theories with an executable as \<open>SHELL.BIN\<close>: one segment of 84 bytes of
  the file and 16 zeros at 1 GiB. Eight frames are free and no page is mapped.
\<close>

definition elf_words :: "u16 list" where
  "elf_words = [0x457F, 0x464C, 0, 0, 0, 0, 0, 0, 2, 3, 1, 0, 0, 0x4000, 52, 0, 0, 0, 0, 0, 52, 32, 1, 0, 0, 0,
     1, 0, 0, 0, 0, 0x4000, 0, 0, 84, 0, 100, 0, 7, 0, 0x1000, 0]"

definition elf_disk :: disk where
  "elf_disk = vol_disk\<lparr>d_store := (\<lambda>n. if 512 \<le> n \<and> n < 554 then elf_words ! (n - 512) else d_store vol_disk n)\<rparr>"

definition elf_dev :: device where
  "elf_dev h port =
     (let d = disk_of 0x1F0 elf_disk h
      in if port = 0x1F7 then (if d_left d > 0 then 0x48 else 0x40)
         else if port = 0x1F0 then d_store d (d_pos d) else 0x20)"

definition elf_start :: fat_state where
  "elf_start = demo_fat\<lparr>fs_root := 0x200, bitmap := (\<lambda>_. - 1)(0 := NOT (mask 12) OR mask 4), total_pages := 8, used_pages := 0,
     pmem := \<lambda>_. 0, current_pd_phys := 0x2000,
     fnodes := (\<lambda>_. demo_node)(0x200 := demo_node\<lparr>n_flags := FS_DIRECTORY, n_inode := 7, n_finddir := Fat32_Finddir\<rparr>)\<rparr>"

lemma elf_start_volume:
  "bpb elf_start = bpb demo_fat" "fat_start_sector elf_start = 1" "data_start_sector elf_start = 2"
  "drives elf_start = drives demo_fat" "io_log elf_start = []" "heap_start elf_start = 0xC0000000"
  "sectors_per_cluster (bpb elf_start) = 1" "bytes_per_sector (bpb elf_start) = 512"
  by (simp_all add: elf_start_def demo_fat_simps)

lemma elf_start_same:
  "volume_ok elf_start" "unat (cluster_size elf_start) = 512" "cluster_ok elf_start = cluster_ok demo_fat"
  "file_bytes med elf_start = file_bytes med demo_fat"
proof -
  show "volume_ok elf_start" using vol_ok(1) by (simp add: volume_ok_def elf_start_volume(1))
  show "unat (cluster_size elf_start) = 512" using vol_ok(2) by (simp add: cluster_size_def elf_start_volume(1))
  show "cluster_ok elf_start = cluster_ok demo_fat"
    by (simp add: cluster_ok_def fun_eq_iff elf_start_volume demo_fat_simps)
  have "cluster_bytes med elf_start = cluster_bytes med demo_fat"
    by (simp add: cluster_bytes_def fun_eq_iff elf_start_volume demo_fat_simps)
  then show "file_bytes med elf_start = file_bytes med demo_fat" by (intro ext) (simp add: file_bytes_def)
qed

lemma elf_start_heap: "m \<le> 0x100000 \<Longrightarrow> room elf_start m"
proof -
  have "heap_inv elf_start [Blk 0xC0000000 0x100000 True]" using demo_fat_heap by (simp add: heap_inv_def elf_start_def)
  then show "m \<le> 0x100000 \<Longrightarrow> room elf_start m" by (auto simp: room_def intro!: exI [of _ "[Blk 0xC0000000 0x100000 True]"])
qed

lemma elf_start_kept: "\<forall>i < 52. kept elf_start (0x5000 + of_nat i)"
  by (simp add: kept_def elf_start_volume unat_add_no_wrap unat_of_nat_u32)

lemma elf_start_paging: "free_pages elf_start = {4..<12}" "paging_ok {4..<12} elf_start"
proof -
  have b: "bit (bitmap elf_start q) r \<longleftrightarrow> r < 32 \<and> (q = 0 \<longrightarrow> r < 4 \<or> 12 \<le> r)" for q r
    by (auto simp: elf_start_def bit_minus_1_iff bit_simps dest: bit_imp_le_length)
  have "p \<in> free_pages elf_start \<longleftrightarrow> p \<in> {4..<12}" for p
  proof (cases "p < 32")
    case True
    then show ?thesis by (auto simp: free_pages_def page_used_def b)
  next
    case False
    then have "p div 32 \<noteq> 0" by simp
    then show ?thesis using False unfolding free_pages_def page_used_def b by simp
  qed
  then show f: "free_pages elf_start = {4..<12}" by blast
  show "paging_ok {4..<12} elf_start"
    by (auto simp: paging_ok_def pmm_inv_def f dir_wf_def page_aligned_def) (simp_all add: elf_start_def)
qed

lemma elf_start_root:
  assumes "d_store d 270 = 0xFFFF" "d_store d 271 = 0x0FFF"
  shows "root_dir (d_store d) elf_start [7]"
  using assms vol_chains(4)
  by (simp add: root_dir_def elf_start_volume elf_start_same fat_entry_def push_bit_eq_mult)
    (simp add: elf_start_def)

lemma elf_medium: "medium d elf_start io = d_store d"
  by (simp add: elf_start_volume)

lemma elf_disk_directory: "file_bytes (d_store elf_disk) elf_start [7] = file_bytes (medium vol_disk demo_fat 0x1F0) demo_fat [7]"
proof -
  have "sbyte (d_store elf_disk) (3584 + j) = sbyte (d_store vol_disk) (3584 + j)" for j
  proof -
    have "\<not> (3584 + j) div 2 < 554" by simp
    then show ?thesis by (simp add: sbyte_def elf_disk_def)
  qed
  then show ?thesis unfolding elf_start_same(4) vol_medium by (simp add: cluster_bytes_def demo_fat_simps)
qed

lemma elf_ready: "disk_ready elf_dev 0x1F0 elf_disk elf_start" "uart_ready elf_dev"
  "disk_ready vol_dev 0x1F0 vol_disk elf_start" "uart_ready vol_dev"
proof -
  have "drive_at 0x1F0 elf_disk elf_dev"
    unfolding drive_at_def Let_def by (auto simp: elf_dev_def Let_def bit_numeral_rec)
  then show "disk_ready elf_dev 0x1F0 elf_disk elf_start" "disk_ready vol_dev 0x1F0 vol_disk elf_start"
    using vol_ready by (simp_all add: disk_ready_def elf_start_volume(4))
  show "uart_ready elf_dev" "uart_ready vol_dev" by (simp_all add: uart_ready_def elf_dev_def vol_dev_def Let_def)
qed

lemma shell_bytes:
  "k < 512 \<Longrightarrow> file_bytes med elf_start [2, 5] ! k = sbyte med (1024 + k)" "length (file_bytes med elf_start [2, 5]) = 1024"
  unfolding elf_start_same(4) by (simp_all add: cluster_bytes_def demo_fat_simps nth_append)

lemma shell_words: "k < 256 \<Longrightarrow> le16 (file_bytes med elf_start [2, 5]) (2 * k) = med (512 + k)"
proof -
  assume k: "k < 256"
  have b: "file_bytes med elf_start [2, 5] ! (2 * k) = ucast (med (512 + k))"
    "file_bytes med elf_start [2, 5] ! Suc (2 * k) = ucast (drop_bit 8 (med (512 + k)))"
    using shell_bytes(1) [of "2 * k" med] shell_bytes(1) [of "Suc (2 * k)" med] k
    by (simp_all add: sbyte_def add.commute del: file_bytes_simps)
  show ?thesis unfolding le16_def b by (auto simp: bit_eq_iff bit_simps dest: bit_imp_le_length)
qed

lemma shell_header:
  defines "fb \<equiv> \<lambda>med. file_bytes med elf_start [2, 5]"
  shows "eh_magic (header_of (fb med)) = ucast (med 512) OR push_bit 16 (ucast (med 513))"
    "eh_type (header_of (fb med)) = med 520" "eh_machine (header_of (fb med)) = med 521"
    "eh_entry (header_of (fb med)) = ucast (med 524) OR push_bit 16 (ucast (med 525))"
    "eh_phoff (header_of (fb med)) = ucast (med 526) OR push_bit 16 (ucast (med 527))"
    "eh_phnum (header_of (fb med)) = med 534"
  unfolding fb_def header_of_def le32_def
  using shell_words [of 0 med] shell_words [of 1 med] shell_words [of 8 med] shell_words [of 9 med] shell_words [of 12 med]
    shell_words [of 13 med] shell_words [of 14 med] shell_words [of 15 med] shell_words [of 22 med]
  by (simp_all del: file_bytes_simps add: numeral_2_eq_2)

theorem elf_exec_rejects_witness:
  "\<exists>t. elf_exec vol_dev 0x5000 ''SHELL.BIN'' elf_start = Some (Returned (-1) t) \<and> same_pages elf_start t \<and> heap_ok t"
proof -
  have root: "root_dir (medium vol_disk elf_start 0x1F0) elf_start [7]"
    unfolding elf_medium by (rule elf_start_root) (simp_all add: vol_disk_def)
  obtain e where e: "find_entry ''SHELL.BIN'' (entries_of (file_bytes (medium vol_disk elf_start 0x1F0) elf_start [7])) = Some e"
    "entry_cluster e = 2" "\<not> bit (e_attr e) 4"
    using vol_root unfolding elf_medium elf_start_same(4) vol_medium by blast
  have "file_of (medium vol_disk elf_start 0x1F0) elf_start e [2, 5]"
    using vol_chains(1,3) e by (simp add: file_of_def elf_medium vol_medium elf_start_volume elf_start_same demo_fat_simps)
  moreover have "\<not> loadable (header_of (file_bytes (medium vol_disk elf_start 0x1F0) elf_start [2, 5]))"
    unfolding loadable_def shell_header elf_medium by (simp add: vol_disk_def push_bit_eq_mult)
  ultimately have c: "case find_entry ''SHELL.BIN'' (entries_of (file_bytes (medium vol_disk elf_start 0x1F0) elf_start [7])) of None \<Rightarrow> True
      | Some e \<Rightarrow> \<exists>cs. file_of (medium vol_disk elf_start 0x1F0) elf_start e cs \<and>
          \<not> loadable (header_of (file_bytes (medium vol_disk elf_start 0x1F0) elf_start cs))"
    unfolding e(1) option.case by blast
  have rm: "room elf_start (2 * unat (cluster_size elf_start) + 894)" by (rule elf_start_heap) (simp add: elf_start_same)
  from elf_exec_rejects [OF elf_ready(4,3) elf_start_same(1) root rm elf_start_kept c] show ?thesis by blast
qed

lemma elf_program:
  defines "fb \<equiv> file_bytes (d_store elf_disk) elf_start [2, 5]"
  shows "loadable (header_of fb)" "eh_entry (header_of fb) = 0x40000000" "eh_phoff (header_of fb) = 52"
    "eh_phnum (header_of fb) = 1"
    "program_headers fb = [\<lparr>ph_type = 1, ph_offset = 0, ph_vaddr = 0x40000000, ph_paddr = 0, ph_filesz = 84,
       ph_memsz = 100, ph_flags = 7, ph_align = 0x1000\<rparr>]"
proof -
  note w = shell_words [of _ "d_store elf_disk", folded fb_def]
  show "loadable (header_of fb)" "eh_entry (header_of fb) = 0x40000000"
    and h: "eh_phoff (header_of fb) = 52" "eh_phnum (header_of fb) = 1"
    unfolding loadable_def fb_def shell_header by (simp_all add: elf_disk_def elf_words_def push_bit_eq_mult)
  show "program_headers fb = [\<lparr>ph_type = 1, ph_offset = 0, ph_vaddr = 0x40000000, ph_paddr = 0, ph_filesz = 84,
       ph_memsz = 100, ph_flags = 7, ph_align = 0x1000\<rparr>]"
    using w [of 26] w [of 27] w [of 28] w [of 29] w [of 30] w [of 31] w [of 32] w [of 33] w [of 34] w [of 35] w [of 36]
      w [of 37] w [of 38] w [of 39] w [of 40] w [of 41]
    by (simp add: program_headers_def h program_header_at_def le32_def elf_disk_def elf_words_def push_bit_eq_mult)
qed


end
