(* ===== verification/Syscalls.thy ===== *)
theory Syscalls
  imports Elf_Exec
begin

text \<open>
  System calls (\<^verbatim>\<open>src/src/syscalls.c\<close>, \<^verbatim>\<open>src/src/syscalls.h\<close>): the handler of interrupt 0x80, which
  takes the call number and the arguments from the saved registers. Pointers that user code
  passes are addresses in \<open>vmem\<close>; the code does not check them.
\<close>

subsection \<open>Operations\<close>

definition SYS_EXIT :: u32 where [c_consts]: "SYS_EXIT = 1"
definition SYS_READ :: u32 where [c_consts]: "SYS_READ = 3"
definition SYS_WRITE :: u32 where [c_consts]: "SYS_WRITE = 4"
definition SYS_EXEC :: u32 where [c_consts]: "SYS_EXEC = 11"

text \<open>The characters at an address up to the terminating NUL, which may be missing.\<close>

partial_function (option) c_string :: "(u32 \<Rightarrow> u8) \<Rightarrow> u32 \<Rightarrow> string option" where
  "c_string m a =
     (if m a = 0 then Some []
      else Option.bind (c_string m (a + 1)) (\<lambda>cs. Some (char_of (unat (m a)) # cs)))"

definition sys_exit :: "device \<Rightarrow> u32 \<Rightarrow> 'a fat_state_scheme \<Rightarrow> (int, 'a fat_state_scheme) outcome option" where
  "sys_exit dev code s = map_option Halted (log_info dev ''Process exited'' s)"

definition put_byte :: "u32 \<Rightarrow> u8 \<Rightarrow> 'a ata_state_scheme \<Rightarrow> 'a ata_state_scheme" where
  "put_byte a v s = s\<lparr>vmem := (vmem s)(a := v)\<rparr>"

partial_function (option) sys_read_loop ::
  "'a fat_state_scheme halt \<Rightarrow> u32 \<Rightarrow> int \<Rightarrow> int \<Rightarrow> 'a fat_state_scheme \<Rightarrow>
   (int \<times> 'a fat_state_scheme) option" where
  "sys_read_loop hlt buffer max_len i s =
     (if i < max_len - 1 then
        Option.bind (keyboard_get_char hlt s) (\<lambda>r.
          let c = fst r; s = snd r
          in if c = NEWLINE then Some (i, vga_put_char NEWLINE (put_byte (buffer + of_int i) 0 s))
             else if c = BACKSPACE then
               (if i > 0 then sys_read_loop hlt buffer max_len (i - 1) (vga_put_char BACKSPACE s)
                else sys_read_loop hlt buffer max_len i s)
             else sys_read_loop hlt buffer max_len (i + 1)
                    (vga_put_char c (put_byte (buffer + of_int i) (of_char c) s)))
      else Some (i, put_byte (buffer + of_int i) 0 s))"

definition sys_read ::
  "'a fat_state_scheme halt \<Rightarrow> u32 \<Rightarrow> int \<Rightarrow> 'a fat_state_scheme \<Rightarrow> (int \<times> 'a fat_state_scheme) option" where
  "sys_read hlt buffer max_len s = sys_read_loop hlt buffer max_len 0 s"

definition sys_write :: "device \<Rightarrow> u32 \<Rightarrow> 'a fat_state_scheme \<Rightarrow> 'a fat_state_scheme option" where
  "sys_write dev str s = do {
     msg \<leftarrow> c_string (vmem s) str;
     log_info dev msg s
   }"

definition sys_exec ::
  "device \<Rightarrow> u32 \<Rightarrow> u32 \<Rightarrow> 'a fat_state_scheme \<Rightarrow> (int, 'a fat_state_scheme) outcome option" where
  "sys_exec dev hp path s = do {
     p \<leftarrow> c_string (vmem s) path;
     elf_exec dev hp p s
   }"

text \<open>The end of the handler: the result of the call goes to \<open>eax\<close>.\<close>

definition set_eax ::
  "registers \<Rightarrow> (int, 's) outcome \<Rightarrow> (registers, 's) outcome" where
  "set_eax regs r =
     (case r of
        Returned ret s \<Rightarrow> Returned (regs\<lparr>r_eax := of_int ret\<rparr>) s
      | Halted s \<Rightarrow> Halted s
      | Entered_User entry stack s \<Rightarrow> Entered_User entry stack s
      | Faulted f \<Rightarrow> Faulted f)"

definition syscall_handler ::
  "device \<Rightarrow> 'a fat_state_scheme halt \<Rightarrow> u32 \<Rightarrow> registers \<Rightarrow> 'a fat_state_scheme \<Rightarrow>
   (registers, 'a fat_state_scheme) outcome option" where
  "syscall_handler dev hlt hp regs s =
     (let s = sti s
      in map_option (set_eax regs)
           (if r_eax regs = SYS_EXIT then sys_exit dev (r_ebx regs) s
            else if r_eax regs = SYS_READ then
              map_option (\<lambda>(n, s). Returned n s) (sys_read hlt (r_ebx regs) (sint (r_ecx regs)) s)
            else if r_eax regs = SYS_WRITE then map_option (Returned 0) (sys_write dev (r_ebx regs) s)
            else if r_eax regs = SYS_EXEC then sys_exec dev hp (r_ebx regs) s
            else map_option (Returned (-1)) (log_info dev ''Unknown Syscall'' s)))"

definition syscall_init :: "device \<Rightarrow> u32 \<Rightarrow> 'a fat_state_scheme \<Rightarrow> 'a fat_state_scheme option" where
  "syscall_init dev isr128 s = do {
     s \<leftarrow> log_info dev ''Syscalls: Initializing...'' s;
     let s = register_interrupt_handler 0x80 Syscall_Handler s
     in Some (idt_set_gate 0x80 isr128 0x08 0xEE s)
   }"

text \<open>
  The handlers that the kernel registers, as \<open>isr_handler\<close> and \<open>irq_handler\<close> call them: \<open>cr2\<close> is
  the register with the address of a page fault.
\<close>

definition run_handlers ::
  "device \<Rightarrow> 'a fat_state_scheme halt \<Rightarrow> u32 \<Rightarrow> u32 \<Rightarrow> 'a fat_state_scheme run_handler" where
  "run_handlers dev hlt hp cr2 h regs s =
     (case h of
        Timer_Callback \<Rightarrow> Some (Returned regs (timer_callback s))
      | Keyboard_Callback \<Rightarrow> Some (Returned regs (keyboard_callback dev s))
      | Page_Fault_Handler \<Rightarrow> page_fault_handler dev cr2 regs s
      | Syscall_Handler \<Rightarrow> syscall_handler dev hlt hp regs s)"

subsection \<open>Reading a line\<close>

text \<open>
  The line that results from a sequence of keys: newline ends it, backspace removes the last
  character, and it also ends when \<open>m - 1\<close> characters have been typed.
\<close>

fun edit_line :: "nat \<Rightarrow> string \<Rightarrow> string \<Rightarrow> string option" where
  "edit_line m acc keys =
     (if m \<le> Suc (length acc) then Some acc
      else case keys of
        [] \<Rightarrow> None
      | c # keys \<Rightarrow>
          if c = NEWLINE then Some acc
          else if c = BACKSPACE then edit_line m (butlast acc) keys
          else edit_line m (acc @ [c]) keys)"

declare edit_line.simps [simp del]

text \<open>Memory holds the string at the address; nothing at or beyond offset \<open>n\<close> differs from \<open>m0\<close>.\<close>

definition typed :: "(u32 \<Rightarrow> u8) \<Rightarrow> u32 \<Rightarrow> nat \<Rightarrow> string \<Rightarrow> (u32 \<Rightarrow> u8) \<Rightarrow> bool" where
  "typed m0 buf n str m \<longleftrightarrow>
     (\<forall>i < length str. m (buf + of_nat i) = of_char (str ! i)) \<and>
     (\<forall>a. n \<le> unat (a - buf) \<longrightarrow> m a = m0 a)"

lemma typed_snoc:
  assumes "typed m0 buf n str m" "length str < n" "n \<le> 2 ^ 31"
  shows "typed m0 buf n (str @ [c]) (m(buf + of_nat (length str) := of_char c))"
proof -
  have inj: "buf + of_nat i = buf + of_nat (length str) \<longleftrightarrow> i = length str" if "i < n" for i
  proof -
    have "unat (of_nat i :: u32) = i" "unat (of_nat (length str) :: u32) = length str"
      using that assms(2,3) by (auto intro!: unat_of_nat_u32)
    then show ?thesis by (metis add_left_cancel)
  qed
  have "unat (of_nat (length str) :: u32) = length str" using assms(2,3) by (intro unat_of_nat_u32) simp
  then have "a \<noteq> buf + of_nat (length str)" if "n \<le> unat (a - buf)" for a using that assms(2) by auto
  moreover have "(m(buf + of_nat (length str) := of_char c)) (buf + of_nat i) = of_char ((str @ [c]) ! i)"
    if "i < length (str @ [c])" for i
    using that assms(1,2) inj [of i] by (auto simp: typed_def nth_append less_Suc_eq)
  ultimately show ?thesis using assms(1) by (auto simp: typed_def)
qed

lemma typed_end:
  assumes "typed m0 buf n str m" "length str < n" "n \<le> 2 ^ 31"
  shows "typed m0 buf n str (m(buf + of_nat (length str) := 0))"
  using typed_snoc [OF assms, of NUL] by (auto simp: typed_def nth_append)

lemma put_char_frame [simp]:
  "ring_items (vga_put_char c s) = ring_items s" "ring_ok (vga_put_char c s) = ring_ok s"
  "ring_items (put_byte a v s) = ring_items s" "ring_ok (put_byte a v s) = ring_ok s"
  "vmem (vga_put_char c s) = vmem s" "vmem (put_byte a v s) = (vmem s)(a := v)"
  by (auto simp: ring_items_def ring_ok_def ring_count_def vga_put_char_def set_cell_def put_byte_def Let_def)

lemma take_frame [simp]: "vmem (snd (buffer_take s)) = vmem s"
  by (simp add: buffer_take_def)

lemma typed_butlast: "typed m0 buf n str m \<Longrightarrow> typed m0 buf n (butlast str) m"
  by (auto simp: typed_def nth_butlast)

lemma sys_read_loop_line:
  assumes "ring_ok s" "ring_items s = keys" "typed m0 buf n acc (vmem s)" "length acc < n" "n \<le> 2 ^ 31"
    and "edit_line n acc keys = Some line"
  shows "\<exists>s'. sys_read_loop hlt buf (int n) (int (length acc)) s = Some (int (length line), s') \<and>
    typed m0 buf n line (vmem s') \<and> vmem s' (buf + of_nat (length line)) = 0 \<and> length line < n"
  using assms
proof (induction keys arbitrary: acc s)
  case Nil
  then have l: "n \<le> Suc (length acc)" "line = acc" by (auto simp: edit_line.simps [of n] split: if_splits)
  then have "\<not> int (length acc) < int n - 1" by simp
  then show ?case
    using Nil typed_end [OF Nil(3-5)] l(2) by (subst sys_read_loop.simps) simp
next
  case (Cons c keys)
  show ?case
  proof (cases "n \<le> Suc (length acc)")
    case True
    then have l: "line = acc" using Cons.prems(6) by (simp add: edit_line.simps [of n])
    have "\<not> int (length acc) < int n - 1" using True by simp
    then show ?thesis
      using Cons.prems typed_end [OF Cons.prems(3-5)] l by (subst sys_read_loop.simps) simp
  next
    case False
    define t where "t = snd (buffer_take s)"
    have g: "keyboard_get_char hlt s = Some (c, t)"
      and t: "ring_ok t" "ring_items t = keys" "vmem t = vmem s"
      using keyboard_get_char_ready [OF Cons.prems(1)] keys.get_items [OF Cons.prems(1,2)] Cons.prems(2)
      by (auto simp: t_def prod_eq_iff)
    have lt: "int (length acc) < int n - 1" using False by simp
    note step = sys_read_loop.simps [of hlt buf "int n" "int (length acc)" s, unfolded g]
    consider (nl) "c = NEWLINE" | (bs) "c \<noteq> NEWLINE" "c = BACKSPACE" "acc \<noteq> []"
      | (no) "c \<noteq> NEWLINE" "c = BACKSPACE" "acc = []" | (ch) "c \<noteq> NEWLINE" "c \<noteq> BACKSPACE" by blast
    then show ?thesis
    proof cases
      case nl
      then have "line = acc" using Cons.prems(6) False by (simp add: edit_line.simps [of n])
      then show ?thesis
        using nl lt t(3) typed_end [OF Cons.prems(3-5)] Cons.prems(4) by (subst step) simp
    next
      case bs
      have e: "edit_line n (butlast acc) keys = Some line"
        using Cons.prems(6) False bs by (simp add: edit_line.simps [of n acc])
      have i: "int (length acc) - 1 = int (length (butlast acc))" using bs(3) by (cases acc rule: rev_cases) auto
      have "sys_read_loop hlt buf (int n) (int (length acc)) s =
          sys_read_loop hlt buf (int n) (int (length (butlast acc))) (vga_put_char BACKSPACE t)"
        using bs lt by (subst step) (simp add: i)
      then show ?thesis
        using Cons.IH [of "vga_put_char BACKSPACE t" "butlast acc"] t e typed_butlast [OF Cons.prems(3)]
          Cons.prems(4,5) by simp
    next
      case no
      have e: "edit_line n acc keys = Some line"
        using Cons.prems(6) False no by (simp add: edit_line.simps [of n "[]" "BACKSPACE # keys"])
      have "sys_read_loop hlt buf (int n) (int (length acc)) s = sys_read_loop hlt buf (int n) (int (length acc)) t"
        using no lt by (subst step) simp
      then show ?thesis using Cons.IH [of t acc] t e Cons.prems(3-5) by simp
    next
      case ch
      define u where "u = vga_put_char c (put_byte (buf + of_int (int (length acc))) (of_char c) t)"
      have e: "edit_line n (acc @ [c]) keys = Some line"
        using Cons.prems(6) False ch by (simp add: edit_line.simps [of n acc])
      have "sys_read_loop hlt buf (int n) (int (length acc)) s =
          sys_read_loop hlt buf (int n) (int (length (acc @ [c]))) u"
        using ch lt by (subst step) (simp add: u_def add.commute)
      moreover have "ring_ok u" "ring_items u = keys" "typed m0 buf n (acc @ [c]) (vmem u)"
        "length (acc @ [c]) < n"
        using t typed_snoc [OF Cons.prems(3-5), of c] False by (simp_all add: u_def)
      ultimately show ?thesis using Cons.IH [of u "acc @ [c]"] Cons.prems(5) e by simp
    qed
  qed
qed

subsection \<open>Properties of the system calls\<close>

lemma demo_fat_ring: "ring_ok demo_fat" "ring_items demo_fat = []"
  using demo_keyboard_ring
  by (simp_all add: demo_fat_def demo_ata_def demo_proc_def vfs_state.extend_def ata_state.extend_def
      proc_state.extend_def keyboard_state.extend_def ring_ok_def ring_items_def ring_count_def)

text \<open>
  C18: \<open>sys_read\<close> returns the line that was typed: when the keys waiting in the keyboard ring make
  up a line (backspace edits it, newline ends it, and so does filling the buffer), the call
  returns its length, the user's buffer holds it with a terminating NUL, and no byte outside
  the buffer of \<open>max_len\<close> bytes is written.
\<close>

theorem sys_read_returns_line:
  assumes "ring_ok s" "0 < n" "n \<le> 2 ^ 31" "edit_line n [] (ring_items s) = Some line"
  shows "\<exists>s'. sys_read hlt buf (int n) s = Some (int (length line), s') \<and> length line < n \<and>
    (\<forall>i < length line. vmem s' (buf + of_nat i) = of_char (line ! i)) \<and>
    vmem s' (buf + of_nat (length line)) = 0 \<and>
    (\<forall>a. n \<le> unat (a - buf) \<longrightarrow> vmem s' a = vmem s a)"
proof -
  have "typed (vmem s) buf n [] (vmem s)" by (simp add: typed_def)
  from sys_read_loop_line [OF assms(1) refl this _ assms(3,4), of hlt] assms(2)
  show ?thesis by (auto simp: sys_read_def typed_def)
qed

theorem sys_read_returns_line_witness:
  "\<exists>s'. sys_read (\<lambda>_. None) 0x4000 128 (fold buffer_put (''hx'' @ [BACKSPACE] @ ''i'' @ [NEWLINE]) demo_fat) =
     Some (2, s') \<and> vmem s' 0x4000 = of_char CHR ''h'' \<and> vmem s' 0x4001 = of_char CHR ''i'' \<and> vmem s' 0x4002 = 0"
proof -
  let ?keys = "''hx'' @ [BACKSPACE] @ ''i'' @ [NEWLINE]"
  let ?s = "fold buffer_put ?keys demo_fat"
  have r: "ring_ok ?s" "ring_items ?s = ?keys"
    using ring_put_all [OF demo_fat_ring(1) demo_fat_ring(1), of ?keys] demo_fat_ring(2) by simp_all
  have e: "edit_line 128 [] ?keys = Some ''hi''" by code_simp
  have "\<exists>s'. sys_read (\<lambda>_. None) 0x4000 (int 128) ?s = Some (int (length ''hi''), s') \<and>
      (\<forall>i < length ''hi''. vmem s' (0x4000 + of_nat i) = of_char (''hi'' ! i)) \<and>
      vmem s' (0x4000 + of_nat (length ''hi'')) = 0"
    using sys_read_returns_line [OF r(1), of 128 "''hi''" "\<lambda>_. None" "0x4000"] r(2) e by auto
  then show ?thesis by (auto simp: less_Suc_eq numeral_2_eq_2)
qed

text \<open>
  C28: the gate of interrupt 0x80 that \<open>syscall_init\<close> installs can be called from user mode and
  leads through \<open>isr_handler\<close> to \<open>syscall_handler\<close>.
\<close>

theorem syscall_gate:
  assumes "uart_ready dev"
  shows "\<exists>s'. syscall_init dev isr128 s = Some s' \<and>
    gate_offset (idt s' 0x80) = isr128 \<and> gate_dpl (idt s' 0x80) = 3 \<and>
    (int_no regs = 0x80 \<longrightarrow>
       isr_handler (run_handlers dev hlt hp cr2) regs s' = syscall_handler dev hlt hp regs s')"
proof -
  obtain t where t: "log_info dev ''Syscalls: Initializing...'' s = Some t"
    using log_info_done [OF assms] by blast
  define u where "u = idt_set_gate 0x80 isr128 0x08 0xEE (register_interrupt_handler 0x80 Syscall_Handler t)"
  have "syscall_init dev isr128 s = Some u" by (simp add: syscall_init_def t u_def)
  moreover have "gate_offset (idt u 0x80) = isr128" by (simp add: u_def gate_offset_set)
  moreover have "gate_dpl (idt u 0x80) = 3" by (simp add: u_def gate_dpl_def idt_set_gate_def)
  moreover have "interrupt_handlers u 128 = Some Syscall_Handler"
    by (simp add: u_def register_interrupt_handler_def)
  ultimately show ?thesis by (auto simp: isr_handler_def run_handlers_def c_consts)
qed

theorem syscall_gate_witness:
  "\<exists>s'. syscall_init (\<lambda>_ _. 0x20) 0x12345678 demo_fat = Some s' \<and>
     gate_offset (idt s' 0x80) = 0x12345678 \<and> gate_dpl (idt s' 0x80) = 3"
proof -
  have "uart_ready (\<lambda>_ _. 0x20)" by (simp add: uart_ready_def)
  from syscall_gate [OF this, of "0x12345678" demo_fat] show ?thesis by blast
qed

text \<open>
  C30: a system call with an unknown number is refused: the handler logs it, returns \<open>-1\<close> in
  \<open>eax\<close> with all other registers as they were, enables interrupts, and changes nothing else of
  the kernel but the console. \<open>SYS_EXIT\<close> never returns: the processor halts.
\<close>

theorem syscall_unknown_refused:
  assumes "uart_ready dev"
  shows "if r_eax regs = SYS_EXIT then \<exists>t. syscall_handler dev hlt hp regs s = Some (Halted t)
    else if r_eax regs \<in> {SYS_READ, SYS_WRITE, SYS_EXEC} then True
    else \<exists>t. syscall_handler dev hlt hp regs s = Some (Returned (regs\<lparr>r_eax := 0xFFFFFFFF\<rparr>) t) \<and>
      if_flag t \<and> log_only (sti s) t"
proof -
  consider "r_eax regs = SYS_EXIT" | "r_eax regs \<in> {SYS_READ, SYS_WRITE, SYS_EXEC}"
    | "r_eax regs \<notin> {SYS_EXIT, SYS_READ, SYS_WRITE, SYS_EXEC}" by blast
  then show ?thesis
  proof cases
    case 1
    then show ?thesis
      using log_info_done [OF assms, of "''Process exited''" "sti s"]
      by (auto simp: syscall_handler_def sys_exit_def set_eax_def)
  next
    case 2
    then show ?thesis by (auto simp: c_consts)
  next
    case 3
    obtain t where t: "log_info dev ''Unknown Syscall'' (sti s) = Some t"
      "screen_only ((sti s)\<lparr>io_log := io_log t\<rparr>) t"
      using log_info_done [OF assms, of "''Unknown Syscall''" "sti s"] by blast
    then have o: "log_only (sti s) t" by (auto simp: log_only_def)
    then have "if_flag t" by (simp add: log_only_regs(2) sti_def)
    moreover have "syscall_handler dev hlt hp regs s = Some (Returned (regs\<lparr>r_eax := 0xFFFFFFFF\<rparr>) t)"
      using 3 t(1) by (simp add: syscall_handler_def set_eax_def)
    ultimately show ?thesis using 3 o by auto
  qed
qed

theorem syscall_unknown_refused_witness:
  "\<exists>t. syscall_handler (\<lambda>_ _. 0x20) (\<lambda>_. None) 0 (demo_regs\<lparr>r_eax := 99\<rparr>) demo_fat =
     Some (Returned (demo_regs\<lparr>r_eax := 0xFFFFFFFF\<rparr>) t) \<and> if_flag t"
proof -
  have "uart_ready (\<lambda>_ _. 0x20)" by (simp add: uart_ready_def)
  from syscall_unknown_refused [OF this, of "demo_regs\<lparr>r_eax := 99\<rparr>" "\<lambda>_. None" 0 demo_fat]
  show ?thesis by (auto simp: c_consts)
qed

end
