(* ===== verification/Kernel_Main.thy ===== *)
theory Kernel_Main
  imports Syscalls
begin

text \<open>
  The boot sequence, the login dialogue and the boot screen (\<^verbatim>\<open>src/src/kernel.c\<close>). The addresses
  that the linker chooses are the record \<open>link_map\<close>; \<open>hlt\<close> is the processor waiting for the next
  interrupt, as in the timer and keyboard drivers.
\<close>

subsection \<open>The login dialogue\<close>

record boot_state = fat_state +
  login_username :: "nat \<Rightarrow> char"
  login_password :: "nat \<Rightarrow> char"

definition printable :: "char \<Rightarrow> bool" where
  "printable c \<longleftrightarrow> 32 \<le> (of_char c :: nat) \<and> (of_char c :: nat) < 127"

text \<open>The loop of \<open>read_input\<close>; the buffer is passed along and returned with the length.\<close>

partial_function (option) read_input_loop ::
  "'a keyboard_state_scheme halt \<Rightarrow> int \<Rightarrow> int \<Rightarrow> int \<Rightarrow> bool \<Rightarrow> int \<Rightarrow> (nat \<Rightarrow> char) \<Rightarrow>
   'a keyboard_state_scheme \<Rightarrow> (int \<times> (nat \<Rightarrow> char) \<times> 'a keyboard_state_scheme) option" where
  "read_input_loop hlt row col max_len is_password pos buf s =
     Option.bind (keyboard_get_char hlt s) (\<lambda>r.
       let c = fst r; s = snd r
       in if c = NEWLINE then Some (pos, buf(nat pos := NUL), s)
          else if c = BACKSPACE then
            (if pos > 0
             then read_input_loop hlt row col max_len is_password (pos - 1) buf
                    (set_cell (cell_idx row (col + (pos - 1))) CHR ''_'' (vga_color s) s)
             else read_input_loop hlt row col max_len is_password pos buf s)
          else if pos < max_len - 1 \<and> printable c then
            read_input_loop hlt row col max_len is_password (pos + 1) (buf(nat pos := c))
              (set_cell (cell_idx row (col + pos)) (if is_password then CHR ''*'' else c) (vga_color s) s)
          else read_input_loop hlt row col max_len is_password pos buf s)"

definition read_input ::
  "'a keyboard_state_scheme halt \<Rightarrow> int \<Rightarrow> int \<Rightarrow> (nat \<Rightarrow> char) \<Rightarrow> int \<Rightarrow> bool \<Rightarrow>
   'a keyboard_state_scheme \<Rightarrow> (int \<times> (nat \<Rightarrow> char) \<times> 'a keyboard_state_scheme) option" where
  "read_input hlt row col buf max_len is_password s =
     read_input_loop hlt row col max_len is_password 0 buf (draw_input_field row col max_len s)"

text \<open>The characters of a 32-byte array, and the part before the terminator.\<close>

definition chars32 :: "(nat \<Rightarrow> char) \<Rightarrow> string" where
  "chars32 f = map f [0..<32]"

partial_function (option) login_loop ::
  "'a boot_state_scheme halt \<Rightarrow> int \<Rightarrow> int \<Rightarrow> 'a boot_state_scheme \<Rightarrow> 'a boot_state_scheme option" where
  "login_loop hlt box_top field_col s =
     Option.bind (read_input hlt (box_top + 4) field_col (login_username s) 20 False s) (\<lambda>u.
       let s = (snd (snd u))\<lparr>login_username := fst (snd u)\<rparr>
       in Option.bind (read_input hlt (box_top + 6) field_col (login_password s) 20 True s) (\<lambda>p.
         let s = (snd (snd p))\<lparr>login_password := fst (snd p)\<rparr>
         in if kstrlen (chars32 (login_username s)) > 0 \<and> kstrlen (chars32 (login_password s)) > 0
            then Some s
            else Option.bind (timer_wait hlt 100 (vga_write_centered (box_top + 9) ''Invalid credentials!'' s)) (\<lambda>s.
              let s = vga_write_centered (box_top + 9) ''                             '' s;
                  s = vga_write_centered (box_top + 9) ''Press ENTER after each field'' s;
                  s = draw_input_field (box_top + 4) field_col 20 s;
                  s = draw_input_field (box_top + 6) field_col 20 s
              in login_loop hlt box_top field_col s)))"

definition show_login_screen :: "'a boot_state_scheme halt \<Rightarrow> 'a boot_state_scheme \<Rightarrow> 'a boot_state_scheme option" where
  "show_login_screen hlt s =
     (let s = vga_clear s;
          box_width = 40; box_height = 12;
          box_left = c_half (VGA_COLS - box_width);
          box_top = 6;
          s = draw_box box_top box_left box_height box_width s;
          s = vga_write_centered (box_top + 2) ''FlowOS Login'' s;
          label_col = box_left + 4;
          field_col = box_left + 15;
          field_width = 20;
          s = vga_write_at (box_top + 4) label_col ''Username:'' s;
          s = draw_input_field (box_top + 4) field_col field_width s;
          s = vga_write_at (box_top + 6) label_col ''Password:'' s;
          s = draw_input_field (box_top + 6) field_col field_width s;
          s = vga_write_centered (box_top + 9) ''Press ENTER after each field'' s
      in do {
        s \<leftarrow> login_loop hlt box_top field_col s;
        let s = vga_write_centered (box_top + 9) ''                             '' s;
            s = vga_write_centered (box_top + 9) ''Authenticating...'' s;
            s = vga_write_centered (box_top + 9) ''Authenticating...'' s
        in timer_wait hlt 100 s
      })"

definition welcome_text :: "(nat \<Rightarrow> char) \<Rightarrow> string" where
  "welcome_text name = ''Welcome, '' @ take 37 (takeWhile (\<lambda>c. c \<noteq> NUL) (chars32 name)) @ [CHR ''!'']"

definition show_booted_message :: "'a boot_state_scheme \<Rightarrow> 'a boot_state_scheme" where
  "show_booted_message s =
     (let s = vga_clear s;
          box_width = 50; box_height = 7;
          box_left = c_half (VGA_COLS - box_width);
          box_top = 9;
          s = draw_box box_top box_left box_height box_width s;
          old_color = vga_color s;
          s = s\<lparr>vga_color := 0x0A\<rparr>;
          s = vga_write_centered (box_top + 3) ''FlowOS Booted'' s;
          s = s\<lparr>vga_color := old_color\<rparr>
      in vga_write_centered (box_top + box_height + 2) (welcome_text (login_username s)) s)"

subsection \<open>Boot\<close>

text \<open>Addresses that the linker chooses.\<close>

record link_map =
  l_gdt :: u32
  l_gp :: u32
  l_tss :: u32
  l_isr :: "nat \<Rightarrow> u32"
  l_irq :: "nat \<Rightarrow> u32"
  l_isr128 :: u32
  l_idt :: u32
  l_idtp :: u32
  l_interrupt_stack :: u32
  l_end :: u32
  l_kernel_pd :: u32
  l_kernel_pts :: u32
  l_idle_process :: u32
  l_elf_header :: u32

definition KERNEL_HEAP_VIRT :: u32 where [c_consts]: "KERNEL_HEAP_VIRT = 0xC0000000"
definition HEAP_PAGES :: u32 where [c_consts]: "HEAP_PAGES = 256"

definition map_heap :: "u32 \<Rightarrow> 'a paging_state_scheme \<Rightarrow> 'a paging_state_scheme" where
  "map_heap heap_phys s =
     fold (\<lambda>i. paging_map_page (KERNEL_HEAP_VIRT + of_nat i * PAGE_SIZE) (heap_phys + of_nat i * PAGE_SIZE)
                 (PAGE_PRESENT OR PAGE_WRITE)) [0..<unat HEAP_PAGES] s"

text \<open>The debugging loop that lists up to 20 files.\<close>

primrec list_root :: "nat \<Rightarrow> device \<Rightarrow> nat \<Rightarrow> 'a fat_state_scheme \<Rightarrow> 'a fat_state_scheme option" where
  "list_root 0 dev i s = Some s"
| "list_root (Suc n) dev i s = do {
     (entry, s) \<leftarrow> vfs_readdir (call_readdir dev) (fs_root s) (of_nat i) s;
     if entry = 0 then Some s
     else do {
       s \<leftarrow> log_info dev (de_name (dirents s entry)) s;
       list_root n dev (Suc i) (kfree entry s)
     }
   }"

text \<open>Up to the memory manager: consoles, descriptor tables, interrupt controller, frames.\<close>

definition boot_tables ::
  "device \<Rightarrow> link_map \<Rightarrow> (u32 \<Rightarrow> multiboot_mmap_entry) \<Rightarrow> multiboot_info \<Rightarrow> 'a boot_state_scheme \<Rightarrow>
   'a boot_state_scheme option" where
  "boot_tables dev l rd mboot s = do {
     s \<leftarrow> log_info dev ''FlowOS: Starting kernel...'' (serial_init s);
     let s = vga_clear s;
         s = vga_write_centered 8 ''FlowOS is initializing...'' s;
         s = vga_write_centered 10 ''Please wait...'' s;
         s = vga_write_at 24 0 ''Initializing GDT...'' s
     in do {
       s \<leftarrow> log_info dev ''FlowOS: Initializing GDT...'' s;
       let s = gdt_init (l_gdt l) (l_gp l) (l_tss l) s;
           s = write_tss (l_tss l) 5 0x10 (l_interrupt_stack l + 8192) s
       in do {
         s \<leftarrow> log_info dev ''FlowOS: TSS configured with kernel interrupt stack'' s;
         let s = vga_write_at 24 0 ''Initializing IDT...'' s
         in do {
           s \<leftarrow> log_info dev ''FlowOS: Initializing IDT...'' s;
           let s = idt_init dev (l_isr l) (l_irq l) (l_idt l) (l_idtp l) s
           in do {
             s \<leftarrow> log_info dev ''FlowOS: Remapping PIC...'' s;
             let s = pic_remap dev 0x20 0x28 s;
                 s = vga_write_at 24 0 ''Initializing PMM...'' s
             in do {
               s \<leftarrow> log_info dev ''FlowOS: Initializing PMM...'' s;
               pmm_init (l_end l) rd mboot s
             }
           }
         }
       }
     }
   }"

text \<open>
  Paging and the kernel heap. When no memory is left for the heap, the code reports it, halts
  until the next interrupt and then goes on with physical address 0.
\<close>

definition boot_memory ::
  "device \<Rightarrow> 'a boot_state_scheme halt \<Rightarrow> link_map \<Rightarrow> 'a boot_state_scheme \<Rightarrow> 'a boot_state_scheme option" where
  "boot_memory dev hlt l s =
     (let s = vga_write_at 24 0 ''Initializing Paging...'' s
      in do {
        s \<leftarrow> log_info dev ''FlowOS: Initializing paging...'' s;
        let s = paging_init (l_kernel_pd l) (l_kernel_pts l) s
        in do {
          s \<leftarrow> log_info dev ''FlowOS: Allocating kernel heap...'' s;
          case pmm_alloc_pages HEAP_PAGES s of
            Inl _ \<Rightarrow> None
          | Inr (heap_phys, s) \<Rightarrow> do {
              s \<leftarrow> (if heap_phys = 0 then do {
                     s \<leftarrow> log_info dev ''Heap OOM'' (vga_write_centered 12 ''CRITICAL ERROR: Heap OOM'' s);
                     hlt s
                   } else Some s);
              s \<leftarrow> log_info dev ''FlowOS: Initializing heap...'' (map_heap heap_phys s);
              Some (heap_init KERNEL_HEAP_VIRT (HEAP_PAGES * PAGE_SIZE) s)
            }
        }
      })"

definition boot_devices ::
  "device \<Rightarrow> link_map \<Rightarrow> 'a boot_state_scheme \<Rightarrow> 'a boot_state_scheme option" where
  "boot_devices dev l s = do {
     s \<leftarrow> log_info dev ''FlowOS: Initializing ATA...'' s;
     s \<leftarrow> ata_init dev s;
     s \<leftarrow> log_info dev ''FlowOS: Initializing FAT32...'' s;
     s \<leftarrow> fat32_init dev s;
     s \<leftarrow> log_info dev ''FAT32: Files in root directory:'' s;
     s \<leftarrow> list_root 20 dev 0 s;
     s \<leftarrow> log_info dev ''FlowOS: Initializing timer...'' (vga_write_at 24 0 ''Initializing Timer...'' s);
     s \<leftarrow> (case timer_init dev 100 s of Inl _ \<Rightarrow> None | Inr s \<Rightarrow> Some s);
     s \<leftarrow> log_info dev ''FlowOS: Initializing keyboard...'' s;
     s \<leftarrow> log_info dev ''FlowOS: Initializing process management...''
           (vga_write_at 24 0 ''Initializing Process Manager...'' (keyboard_init dev s));
     s \<leftarrow> process_init (l_idle_process l) s;
     s \<leftarrow> syscall_init dev (l_isr128 l) (scheduler_init s);
     s \<leftarrow> log_info dev ''FlowOS: Enabling interrupts...'' s;
     log_info dev ''FlowOS: Kernel initialized successfully!'' (sti s)
   }"

primrec loading_bar :: "nat \<Rightarrow> 'a boot_state_scheme halt \<Rightarrow> int \<Rightarrow> 'a boot_state_scheme \<Rightarrow> 'a boot_state_scheme option" where
  "loading_bar 0 hlt percent s = Some s"
| "loading_bar (Suc n) hlt percent s = do {
     s \<leftarrow> timer_wait hlt 15 (draw_loading_bar percent s);
     loading_bar n hlt (percent + 10) s
   }"

definition boot_screens ::
  "'a boot_state_scheme halt \<Rightarrow> 'a boot_state_scheme \<Rightarrow> 'a boot_state_scheme option" where
  "boot_screens hlt s =
     (let s = vga_clear s;
          s = vga_write_centered 8 ''FlowOS is initializing...'' s;
          s = vga_write_centered 11 ''Loading core modules...'' s
      in do {
        s \<leftarrow> loading_bar 11 hlt 0 s;
        s \<leftarrow> show_login_screen hlt s;
        Some (show_booted_message s)
      })"

text \<open>
  The whole of \<open>kmain\<close>: it ends in user mode when the shell could be loaded, and otherwise in the
  idle loop, which is \<^const>\<open>Halted\<close>.
\<close>

definition kmain ::
  "device \<Rightarrow> 'a boot_state_scheme halt \<Rightarrow> link_map \<Rightarrow> (u32 \<Rightarrow> multiboot_mmap_entry) \<Rightarrow> multiboot_info \<Rightarrow>
   'a boot_state_scheme \<Rightarrow> (unit, 'a boot_state_scheme) outcome option" where
  "kmain dev hlt l rd mboot s = do {
     s \<leftarrow> boot_tables dev l rd mboot s;
     s \<leftarrow> boot_memory dev hlt l s;
     s \<leftarrow> boot_devices dev l s;
     s \<leftarrow> boot_screens hlt s;
     s \<leftarrow> log_info dev ''FlowOS: Boot complete! Loading shell...'' s;
     r \<leftarrow> elf_exec dev (l_elf_header l) ''SHELL'' s;
     (case r of
        Returned n s \<Rightarrow> do {
          s \<leftarrow> (if n < 0 then log_info dev ''ELF: Failed to load shell'' s else Some s);
          map_option Halted (log_info dev ''FlowOS: System ready.'' s)
        }
      | Halted s \<Rightarrow> Some (Halted s)
      | Entered_User entry stack s \<Rightarrow> Some (Entered_User entry stack s)
      | Faulted f \<Rightarrow> Some (Faulted f))
   }"

subsection \<open>Typing into a field\<close>

text \<open>
  The text of a field of \<open>m\<close> columns after a sequence of keys, and the keys that follow the newline
  that ends it: printable characters are appended while there is room, backspace removes the last one.
\<close>

fun edit_field :: "nat \<Rightarrow> string \<Rightarrow> string \<Rightarrow> (string \<times> string) option" where
  "edit_field m acc [] = None"
| "edit_field m acc (c # keys) =
     (if c = NEWLINE then Some (acc, keys)
      else if c = BACKSPACE then edit_field m (butlast acc) keys
      else if Suc (length acc) < m \<and> printable c then edit_field m (acc @ [c]) keys
      else edit_field m acc keys)"

text \<open>The buffer holds the text; from index \<open>n\<close> on it is as before.\<close>

definition holds :: "(nat \<Rightarrow> char) \<Rightarrow> nat \<Rightarrow> string \<Rightarrow> (nat \<Rightarrow> char) \<Rightarrow> bool" where
  "holds f0 n str f \<longleftrightarrow> (\<forall>i < length str. f i = str ! i) \<and> (\<forall>i \<ge> n. f i = f0 i)"

text \<open>What may appear on the screen while a password is typed.\<close>

definition masked :: "'a console_state_scheme \<Rightarrow> 'a console_state_scheme \<Rightarrow> bool" where
  "masked s s' \<longleftrightarrow> vga_color s' = vga_color s \<and>
     (\<forall>i. vga_mem s' i \<in> {vga_mem s i, of_char CHR ''*'', of_char CHR ''_'', vga_color s})"

lemma masked_cell:
  "masked s t \<Longrightarrow> c \<in> {CHR ''*'', CHR ''_''} \<Longrightarrow> masked s (set_cell i c (vga_color t) t)"
  by (auto simp: masked_def set_cell_def)

lemma set_cell_ring [simp]:
  "ring_items (set_cell i c a s) = ring_items s" "ring_ok (set_cell i c a s) = ring_ok s"
  "keyboard_state.more (set_cell i c a s) = keyboard_state.more s"
  by (simp_all add: set_cell_def ring_items_def ring_ok_def ring_count_def)

lemma take_screen [simp]:
  "vga_mem (snd (buffer_take s)) = vga_mem s" "vga_color (snd (buffer_take s)) = vga_color s"
  "keyboard_state.more (snd (buffer_take s)) = keyboard_state.more s"
  by (simp_all add: buffer_take_def)

lemma read_input_loop_text:
  assumes "ring_ok s" "ring_items s = keys" "holds f0 n acc f" "length acc < n"
    and "edit_field n acc keys = Some (str, rest)" and "is_password \<Longrightarrow> masked s0 s"
    and "\<forall>c \<in> set acc. printable c"
  shows "\<exists>g s'. read_input_loop hlt row col (int n) is_password (int (length acc)) f s =
      Some (int (length str), g, s') \<and> length str < n \<and> holds f0 n str g \<and> g (length str) = NUL \<and>
      (\<forall>c \<in> set str. printable c) \<and> (is_password \<longrightarrow> masked s0 s') \<and>
      ring_ok s' \<and> ring_items s' = rest \<and> keyboard_state.more s' = keyboard_state.more s"
  using assms
proof (induction keys arbitrary: acc f s)
  case Nil
  then show ?case by simp
next
  case (Cons c keys)
  define t where "t = snd (buffer_take s)"
  have g: "keyboard_get_char hlt s = Some (c, t)" and t: "ring_ok t" "ring_items t = keys"
    using keyboard_get_char_ready [OF Cons.prems(1)] keys.get_items [OF Cons.prems(1,2)] Cons.prems(2)
    by (auto simp: t_def prod_eq_iff)
  have mo: "keyboard_state.more t = keyboard_state.more s" by (simp add: t_def)
  have m: "is_password \<Longrightarrow> masked s0 t" using Cons.prems(6) by (simp add: masked_def t_def)
  note step = read_input_loop.simps [of hlt row col "int n" is_password "int (length acc)" f s, unfolded g]
  consider (nl) "c = NEWLINE" | (bs) "c \<noteq> NEWLINE" "c = BACKSPACE" "acc \<noteq> []"
    | (no) "c \<noteq> NEWLINE" "c = BACKSPACE" "acc = []"
    | (ch) "c \<noteq> NEWLINE" "c \<noteq> BACKSPACE" "Suc (length acc) < n" "printable c"
    | (ig) "c \<noteq> NEWLINE" "c \<noteq> BACKSPACE" "\<not> (Suc (length acc) < n \<and> printable c)" by blast
  then show ?case
  proof cases
    case nl
    then have "str = acc" "rest = keys" using Cons.prems(5) by simp_all
    then show ?thesis using nl Cons.prems(3,4,7) m t mo by (subst step) (auto simp: holds_def)
  next
    case bs
    define u where "u = set_cell (cell_idx row (col + int (length (butlast acc)))) CHR ''_'' (vga_color t) t"
    have i: "int (length acc) - 1 = int (length (butlast acc))" using bs(3) by (cases acc rule: rev_cases) auto
    have "read_input_loop hlt row col (int n) is_password (int (length acc)) f s =
        read_input_loop hlt row col (int n) is_password (int (length (butlast acc))) f u"
      using bs by (subst step) (simp add: i u_def)
    moreover have "holds f0 n (butlast acc) f" using Cons.prems(3) by (auto simp: holds_def nth_butlast)
    moreover have "is_password \<Longrightarrow> masked s0 u" unfolding u_def by (rule masked_cell [OF m]) auto
    moreover have "length (butlast acc) < n" using Cons.prems(4) by simp
    moreover have "\<forall>c \<in> set (butlast acc). printable c" using Cons.prems(7) by (blast dest: in_set_butlastD)
    ultimately show ?thesis
      using Cons.IH [of u "butlast acc" f] bs(1,2) Cons.prems(5) t mo by (simp add: u_def)
  next
    case no
    then have "read_input_loop hlt row col (int n) is_password (int (length acc)) f s =
        read_input_loop hlt row col (int n) is_password (int (length acc)) f t" by (subst step) simp
    then show ?thesis using Cons.IH [of t acc f] no Cons.prems(3-5,7) t m mo by simp
  next
    case ch
    define u where "u = set_cell (cell_idx row (col + int (length acc)))
      (if is_password then CHR ''*'' else c) (vga_color t) t"
    define f' where "f' = f(length acc := c)"
    have "read_input_loop hlt row col (int n) is_password (int (length acc)) f s =
        read_input_loop hlt row col (int n) is_password (int (length (acc @ [c]))) f' u"
      using ch by (subst step) (simp add: u_def f'_def add.commute)
    moreover have "holds f0 n (acc @ [c]) f'"
      using Cons.prems(3,4) by (auto simp: f'_def holds_def nth_append less_Suc_eq)
    moreover have "is_password \<Longrightarrow> masked s0 u"
      unfolding u_def using masked_cell [OF m, of "CHR ''*''"] by simp
    moreover have "ring_ok u" "ring_items u = keys" "keyboard_state.more u = keyboard_state.more s" using t mo by (simp_all add: u_def)
    ultimately show ?thesis
      using Cons.IH [of u "acc @ [c]" f'] ch Cons.prems(5,7) by simp
  next
    case ig
    then have "read_input_loop hlt row col (int n) is_password (int (length acc)) f s =
        read_input_loop hlt row col (int n) is_password (int (length acc)) f t"
      by (subst step) auto
    then show ?thesis using Cons.IH [of t acc f] ig Cons.prems(3-5,7) t m mo by auto
  qed
qed

lemma masked_refl [simp]: "masked s s"
  by (simp add: masked_def)

lemma input_field_frame:
  "keyboard_state.more (draw_input_field row col w s) = keyboard_state.more s \<and>
   ring_ok (draw_input_field row col w s) = ring_ok s \<and> ring_items (draw_input_field row col w s) = ring_items s \<and>
   masked s (draw_input_field row col w s)"
  unfolding draw_input_field_def
  by (rule for_loop_inv [where P = "\<lambda>t. keyboard_state.more t = keyboard_state.more s \<and> ring_ok t = ring_ok s \<and> ring_items t = ring_items s \<and> masked s t"])
    (auto intro: masked_cell)

lemma read_input_text:
  assumes "ring_ok s" "edit_field n [] (ring_items s) = Some (str, rest)" "0 < n"
  shows "\<exists>g s'. read_input hlt row col buf (int n) is_password s = Some (int (length str), g, s') \<and>
      length str < n \<and> holds buf n str g \<and> g (length str) = NUL \<and> (\<forall>c \<in> set str. printable c) \<and>
      (is_password \<longrightarrow> masked s s') \<and> ring_ok s' \<and> ring_items s' = rest \<and> keyboard_state.more s' = keyboard_state.more s"
  using read_input_loop_text [of "draw_input_field row col (int n) s" "ring_items s" buf n "[]" buf str rest
      is_password s hlt row col] assms input_field_frame [of row col "int n" s]
  by (simp add: read_input_def holds_def)

text \<open>The C string in a 32-byte array.\<close>

definition text32 :: "(nat \<Rightarrow> char) \<Rightarrow> string" where
  "text32 f = takeWhile (\<lambda>c. c \<noteq> NUL) (chars32 f)"

lemma printable_not_NUL: "printable c \<Longrightarrow> c \<noteq> NUL"
  by (auto simp: printable_def)

lemma holds_text32:
  assumes "holds f0 n str g" "length str < n" "n \<le> 32" "g (length str) = NUL" "\<forall>c \<in> set str. printable c"
  shows "text32 g = str"
proof -
  have len: "length str < 32" using assms(2,3) by simp
  have "[0..<32] = [0..<length str] @ [length str..<32]"
    using upt_add_eq_append [of 0 "length str" "32 - length str"] len by simp
  then have "chars32 g = map g [0..<length str] @ NUL # map g [Suc (length str)..<32]"
    using assms(4) upt_conv_Cons [OF len] by (simp only: chars32_def map_append list.map)
  moreover have "map g [0..<length str] = str" using assms(1) by (auto simp: holds_def intro: nth_equalityI)
  moreover have "takeWhile (\<lambda>c. c \<noteq> NUL) (str @ NUL # ys) = str" for ys
    using assms(5) printable_not_NUL by (subst takeWhile_append2) auto
  ultimately show ?thesis by (simp add: text32_def)
qed

lemma kstrlen_text32: "kstrlen (chars32 f) > 0 \<longleftrightarrow> text32 f \<noteq> []"
  by (simp add: kstrlen_length text32_def)

lemma login_more:
  fixes s s' :: "'a boot_state_scheme"
  assumes "keyboard_state.more s' = keyboard_state.more s"
  shows "login_username s' = login_username s" "login_password s' = login_password s"
  using assms by (cases s; cases s'; simp)+

lemma ring_login [simp]:
  "ring_ok (s\<lparr>login_username := f\<rparr>) = ring_ok s" "ring_items (s\<lparr>login_username := f\<rparr>) = ring_items s"
  "ring_ok (s\<lparr>login_password := f\<rparr>) = ring_ok s" "ring_items (s\<lparr>login_password := f\<rparr>) = ring_items s"
  by (simp_all add: ring_ok_def ring_items_def ring_count_def)

text \<open>One round of the dialogue, when the keys for both fields are waiting.\<close>

lemma login_round:
  assumes "ring_ok s" "edit_field 20 [] (ring_items s) = Some (u, keys)" "edit_field 20 [] keys = Some (p, rest)"
  shows "\<exists>s'. text32 (login_username s') = u \<and> text32 (login_password s') = p \<and> ring_ok s' \<and> ring_items s' = rest \<and>
    (u \<noteq> [] \<and> p \<noteq> [] \<longrightarrow> login_loop hlt row col s = Some s')"
proof -
  obtain g s1 where u: "read_input hlt (row + 4) col (login_username s) 20 False s = Some (int (length u), g, s1)"
    "text32 g = u" "ring_ok s1" "ring_items s1 = keys"
    using read_input_text [OF assms(1,2), of hlt "row + 4" col "login_username s" False]
      holds_text32 [of "login_username s" 20 u] by auto
  define s2 where "s2 = s1\<lparr>login_username := g\<rparr>"
  have s2: "ring_ok s2" "edit_field 20 [] (ring_items s2) = Some (p, rest)" using u(3,4) assms(3) by (simp_all add: s2_def)
  obtain h s3 where p: "read_input hlt (row + 6) col (login_password s2) 20 True s2 = Some (int (length p), h, s3)"
    "text32 h = p" "ring_ok s3" "ring_items s3 = rest" "keyboard_state.more s3 = keyboard_state.more s2"
    using read_input_text [OF s2, of hlt "row + 6" col "login_password s2" True]
      holds_text32 [of "login_password s2" 20 p] by auto
  define s4 where "s4 = s3\<lparr>login_password := h\<rparr>"
  have s4: "text32 (login_username s4) = u" "text32 (login_password s4) = p" "ring_ok s4" "ring_items s4 = rest"
    using u(2) p(2-4) login_more(1) [OF p(5)] by (simp_all add: s4_def s2_def)
  have "login_loop hlt row col s = Some s4" if "u \<noteq> []" "p \<noteq> []"
    using s4(1,2) u(1) p(1,2) that
    by (subst login_loop.simps) (simp add: s2_def [symmetric] Let_def kstrlen_text32, simp add: s2_def s4_def)
  then show ?thesis using s4 by blast
qed

lemma login_only_nonempty:
  assumes "login_loop hlt row col s = Some s'"
  shows "text32 (login_username s') \<noteq> [] \<and> text32 (login_password s') \<noteq> []"
  using assms
proof (rule login_loop.raw_induct [rotated], goal_cases)
  case (1 login_loop hlt box_top field_col s y)
  from 1(2) show ?case
    by (auto simp: Let_def kstrlen_text32 bind_eq_Some_conv split: if_splits dest!: 1(1))
qed

subsection \<open>Properties of the login dialogue\<close>

definition demo_boot :: boot_state where
  "demo_boot = fat_state.extend demo_fat \<lparr>login_username = \<lambda>_. CHR ''?'', login_password = \<lambda>_. CHR ''?''\<rparr>"

lemma demo_boot_ring: "ring_ok demo_boot" "ring_items demo_boot = []"
  using demo_fat_ring
  by (simp_all add: demo_boot_def fat_state.extend_def ring_ok_def ring_items_def ring_count_def)

lemma demo_typed:
  assumes "length keys < 255"
  shows "ring_ok (fold buffer_put keys demo_boot) \<and> ring_items (fold buffer_put keys demo_boot) = keys"
  using ring_put_all [OF demo_boot_ring(1) demo_boot_ring(1), of keys] demo_boot_ring(2) assms by simp

text \<open>
  C28: \<open>read_input\<close> returns what was typed into a field of \<open>n\<close> columns: fewer than \<open>n\<close> characters, all
  printable, as edited with backspace up to the newline; they are in the buffer with a terminating
  NUL, nothing at index \<open>n\<close> or beyond is written, exactly the keys up to the newline are consumed,
  and while a password is typed only stars and underscores are put on the screen.
\<close>

theorem read_input_returns_text:
  assumes "ring_ok s" "0 < n" "edit_field n [] (ring_items s) = Some (str, rest)"
  shows "\<exists>g s'. read_input hlt row col buf (int n) is_password s = Some (int (length str), g, s') \<and>
    length str < n \<and> (\<forall>i < length str. g i = str ! i \<and> printable (g i)) \<and> g (length str) = NUL \<and>
    (\<forall>i \<ge> n. g i = buf i) \<and> ring_items s' = rest \<and>
    (is_password \<longrightarrow> (\<forall>i. vga_mem s' i \<in> {vga_mem s i, of_char CHR ''*'', of_char CHR ''_'', vga_color s}))"
  using read_input_text [OF assms(1,3,2), of hlt row col buf is_password]
  by (auto simp: holds_def masked_def)

theorem read_input_returns_text_witness:
  "\<exists>g s'. read_input (\<lambda>_. None) 10 35 (\<lambda>_. CHR ''?'') (int 4) True
      (fold buffer_put (''ab'' @ [BACKSPACE] @ ''xyz'' @ [NEWLINE] @ ''q'') demo_boot) = Some (int 3, g, s') \<and>
    g 0 = CHR ''a'' \<and> g 3 = NUL \<and> g 4 = CHR ''?'' \<and> ring_items s' = ''q''"
proof -
  let ?keys = "''ab'' @ [BACKSPACE] @ ''xyz'' @ [NEWLINE] @ ''q''"
  have e: "edit_field 4 [] ?keys = Some (''axy'', ''q'')" by code_simp
  have r: "ring_ok (fold buffer_put ?keys demo_boot)"
    "edit_field 4 [] (ring_items (fold buffer_put ?keys demo_boot)) = Some (''axy'', ''q'')"
    using demo_typed [of ?keys] e by simp_all
  from read_input_returns_text [OF r(1) _ r(2), of "\<lambda>_. None" 10 35 "\<lambda>_. CHR ''?''" True]
  obtain g s' where "read_input (\<lambda>_. None) 10 35 (\<lambda>_. CHR ''?'') (int 4) True (fold buffer_put ?keys demo_boot) =
      Some (int (length ''axy''), g, s')" and g: "\<forall>i < length ''axy''. g i = ''axy'' ! i \<and> printable (g i)"
      "g (length ''axy'') = NUL" "\<forall>i \<ge> 4. g i = CHR ''?''" and "ring_items s' = ''q''" by auto
  moreover have "g 0 = CHR ''a''" "g 3 = NUL" "g 4 = CHR ''?''" using g by (simp_all add: numeral_3_eq_3)
  moreover have "length ''axy'' = 3" by simp
  ultimately show ?thesis by metis
qed

text \<open>
  C19: the login dialogue accepts every user name and password that are not empty, without any
  other check: when the keys of the two fields are waiting, the loop ends after this round with the
  two texts in \<open>login_username\<close> and \<open>login_password\<close>; and it ends in no other way than with both
  texts non-empty.
\<close>

theorem login_accepts_any_nonempty:
  assumes "ring_ok s" "edit_field 20 [] (ring_items s) = Some (u, keys)" "edit_field 20 [] keys = Some (p, rest)"
  shows "(u \<noteq> [] \<and> p \<noteq> [] \<longrightarrow> (\<exists>s'. login_loop hlt row col s = Some s' \<and>
      text32 (login_username s') = u \<and> text32 (login_password s') = p)) \<and>
    (\<forall>s'. login_loop hlt row col s = Some s' \<longrightarrow>
      text32 (login_username s') \<noteq> [] \<and> text32 (login_password s') \<noteq> [])"
  using login_round [OF assms, of hlt row col] login_only_nonempty [of hlt row col s] by blast

theorem login_accepts_any_nonempty_witness:
  "\<exists>s'. login_loop (\<lambda>_. None) 6 35 (fold buffer_put (''eve'' @ [NEWLINE] @ ''x'' @ [NEWLINE]) demo_boot) = Some s' \<and>
     text32 (login_username s') = ''eve'' \<and> text32 (login_password s') = ''x''"
proof -
  let ?keys = "''eve'' @ [NEWLINE] @ ''x'' @ [NEWLINE]"
  have e: "edit_field 20 [] ?keys = Some (''eve'', ''x'' @ [NEWLINE])" "edit_field 20 [] (''x'' @ [NEWLINE]) = Some (''x'', [])"
    by code_simp+
  have r: "ring_ok (fold buffer_put ?keys demo_boot)"
    "edit_field 20 [] (ring_items (fold buffer_put ?keys demo_boot)) = Some (''eve'', ''x'' @ [NEWLINE])"
    using demo_typed [of ?keys] e(1) by simp_all
  from login_accepts_any_nonempty [OF r e(2), of "\<lambda>_. None" 6 35] show ?thesis by simp
qed

end
