(* ===== verification/Boot_Memory.thy ===== *)
theory Boot_Memory
  imports Kernel_Main
begin

text \<open>
  What the memory section of \<open>kmain\<close> establishes (\<^verbatim>\<open>src/src/kernel.c\<close>): after paging, the frames for
  the heap and the heap itself have been set up, the processor maps the first GiB one to one and the MiB
  from 3 GiB on to a run of frames of its own, and the heap is one free block. These are the states
  that the theorems about the heap, the file system and the loader start from.
\<close>

subsection \<open>Frames\<close>

lemma console_only_screen: "screen_only s t \<Longrightarrow> console_only s t"
  by (cases s; cases t) (auto simp: screen_only_def console_only_def)

lemma console_only_trans: "console_only s t \<Longrightarrow> console_only t u \<Longrightarrow> console_only s u"
  by (cases s; cases t; cases u) (simp add: console_only_def)

lemma console_only_paging:
  assumes "console_only s t"
  shows "same_pages s t" "paging_on t = paging_on s"
    "interrupt_handlers t = interrupt_handlers s"
  using assms same_pages_steps(1) by (auto, (cases s; cases t; simp add: console_only_def)+)

lemma log_after_screen:
  assumes "uart_ready dev"
  obtains t where "log_info dev msg (vga_write_at r c txt s) = Some t" "console_only s t"
proof -
  obtain t where t: "log_info dev msg (vga_write_at r c txt s) = Some t" "console_only (vga_write_at r c txt s) t"
    by (rule log_info_frame [OF assms])
  show thesis using that [OF t(1)] console_only_trans [OF console_only_screen t(2)] vga_write_at_ok by blast
qed

lemma pmm_only_paging:
  fixes s t :: "'a paging_state_scheme"
  assumes "pmm_only s t"
  shows "pmem t = pmem s" "current_pd_phys t = current_pd_phys s" "paging_on t = paging_on s"
    "interrupt_handlers t = interrupt_handlers s"
  using assms by (auto simp: pmm_only_def)

subsection \<open>The pages of the heap\<close>

definition heap_page :: "nat \<Rightarrow> u32" where
  "heap_page i = 0xC0000000 + of_nat i * 4096"

lemma heap_page_unat:
  assumes "i < 256"
  shows "unat (heap_page i) = 0xC0000000 + i * 4096" "heap_page i AND 0xFFFFF000 = heap_page i" "pd_index (heap_page i) = 768"
proof -
  have "unat (of_nat i * 4096 :: u32) = i * 4096" using assms by (simp add: unat_mult_no_wrap unat_of_nat_u32)
  then show u: "unat (heap_page i) = 0xC0000000 + i * 4096" using assms by (simp add: heap_page_def unat_add_no_wrap)
  show "heap_page i AND 0xFFFFF000 = heap_page i" by (rule frame_mask_aligned) (simp add: page_aligned_def u)
  have "unat (drop_bit 22 (heap_page i)) = unat (heap_page i) div 2 ^ 22" by (subst unat_drop_bit_eq) (simp only: drop_bit_eq_div)
  also have "\<dots> = (768 * 4194304 + i * 4096) div 4194304" by (simp add: u)
  also have "\<dots> = 768" using assms by (subst div_mult_self3) simp_all
  finally show "pd_index (heap_page i) = 768" by (simp add: pd_index_def word_eq_iff_unat_u32)
qed

lemma heap_page_of:
  fixes va :: u32
  shows "(\<exists>i < 256. heap_page i AND 0xFFFFF000 = va AND 0xFFFFF000) \<longleftrightarrow> 0xC0000000 \<le> unat va \<and> unat va < 0xC0100000"
    "0xC0000000 \<le> unat va \<Longrightarrow> unat va < 0xC0100000 \<Longrightarrow>
       va AND 0xFFFFF000 = heap_page ((unat va - 0xC0000000) div 4096) \<and> (unat va - 0xC0000000) div 4096 < 256"
proof -
  have q: "unat va div 4096 = 0xC0000 + (unat va - 0xC0000000) div 4096" if "0xC0000000 \<le> unat va"
  proof -
    have "unat va = 4096 * 0xC0000 + (unat va - 0xC0000000)" using that by simp
    then have "unat va div 4096 = (4096 * 0xC0000 + (unat va - 0xC0000000)) div 4096" by simp
    then show ?thesis by (subst (asm) div_mult_self4) simp_all
  qed
  show p: "va AND 0xFFFFF000 = heap_page ((unat va - 0xC0000000) div 4096) \<and> (unat va - 0xC0000000) div 4096 < 256"
    if "0xC0000000 \<le> unat va" "unat va < 0xC0100000"
  proof -
    have "unat va - 0xC0000000 < 256 * 4096" using that by simp
    then have i: "(unat va - 0xC0000000) div 4096 < 256" by (simp add: less_mult_imp_div_less)
    then show ?thesis using q [OF that(1)] by (simp add: word_eq_iff_unat_u32 frame_mask_unat heap_page_unat(1) distrib_right)
  qed
  show "(\<exists>i < 256. heap_page i AND 0xFFFFF000 = va AND 0xFFFFF000) \<longleftrightarrow> 0xC0000000 \<le> unat va \<and> unat va < 0xC0100000"
  proof
    assume "\<exists>i < 256. heap_page i AND 0xFFFFF000 = va AND 0xFFFFF000"
    then obtain i where i: "i < 256" "heap_page i = va AND 0xFFFFF000" using heap_page_unat(2) by auto
    then have "unat va div 4096 * 4096 = 0xC0000000 + i * 4096" using heap_page_unat(1) [OF i(1)] frame_mask_unat [of va] by simp
    moreover have "unat va div 4096 * 4096 \<le> unat va" "unat va < unat va div 4096 * 4096 + 4096"
      using div_mult_mod_eq [of "unat va" 4096] mod_less_divisor [of 4096 "unat va"] by linarith+
    ultimately show "0xC0000000 \<le> unat va \<and> unat va < 0xC0100000" using i(1) by linarith
  next
    assume "0xC0000000 \<le> unat va \<and> unat va < 0xC0100000"
    then show "\<exists>i < 256. heap_page i AND 0xFFFFF000 = va AND 0xFFFFF000" using p heap_page_unat(2) by metis
  qed
qed

lemma map_heap_run:
  fixes s :: "'a paging_state_scheme" and p :: u32
  assumes "paging_ok M s" "free_pages s \<noteq> {}"
  defines "t \<equiv> map_heap p s"
  shows "paging_ok M t" "current_pd_phys t = current_pd_phys s" "tables_only s t"
    "page_entry t (current_pd_phys s) va =
       (if 0xC0000000 \<le> unat va \<and> unat va < 0xC0100000
        then Some (pte_value (p + of_nat ((unat va - 0xC0000000) div 4096) * 4096) 3) else page_entry s (current_pd_phys s) va)"
proof -
  have t: "t = fold (\<lambda>i. paging_map_page (heap_page i) (p + of_nat i * 4096) 3) [0..<256] s"
    unfolding t_def map_heap_def heap_page_def by (simp add: KERNEL_HEAP_VIRT_def HEAP_PAGES_def c_consts)
  have "tables_only u (fold (\<lambda>i. paging_map_page (heap_page i) (p + of_nat i * 4096) 3) xs u)" for xs and u :: "'a paging_state_scheme"
    by (induction xs arbitrary: u) (auto intro: tables_only_trans [OF tables_only_map])
  then show to: "tables_only s t" unfolding t .
  then show cur: "current_pd_phys t = current_pd_phys s" by (rule tables_only_regs(1))
  have can: "mappable s (heap_page 0)" using assms(2) by (simp add: mappable_def)
  have A: "pd_index (heap_page i) = pd_index (heap_page 0)" if "i < 256" for i
    using heap_page_unat(3) [OF that] heap_page_unat(3) [of 0] by simp
  have B: "i = j" if "i < 256" "j < 256" "heap_page i AND 0xFFFFF000 = heap_page j AND 0xFFFFF000" for i j
  proof -
    have e: "heap_page i = heap_page j" using that(3) unfolding heap_page_unat(2) [OF that(1)] heap_page_unat(2) [OF that(2)] .
    show ?thesis using arg_cong [OF e, of unat] unfolding heap_page_unat(1) [OF that(1)] heap_page_unat(1) [OF that(2)] by simp
  qed
  note r = pages.map_run [where va = heap_page and n = 256 and pa = "\<lambda>i. p + of_nat i * 4096" and fl = 3,
      OF assms(1) can A B, unfolded Let_def, folded t]
  have run: "paging_ok M t" "\<forall>i < 256. page_entry t (current_pd_phys t) (heap_page i) = Some (pte_value (p + of_nat i * 4096) 3)"
    "\<forall>vb. (\<forall>i < 256. heap_page i AND 0xFFFFF000 \<noteq> vb AND 0xFFFFF000) \<longrightarrow>
       page_entry t (current_pd_phys t) vb = page_entry s (current_pd_phys s) vb"
    using r by blast+
  show "paging_ok M t" by (rule run(1))
  show "page_entry t (current_pd_phys s) va = (if 0xC0000000 \<le> unat va \<and> unat va < 0xC0100000
        then Some (pte_value (p + of_nat ((unat va - 0xC0000000) div 4096) * 4096) 3) else page_entry s (current_pd_phys s) va)"
  proof (cases "0xC0000000 \<le> unat va \<and> unat va < 0xC0100000")
    case True
    then have i: "va AND 0xFFFFF000 = heap_page ((unat va - 0xC0000000) div 4096)" "(unat va - 0xC0000000) div 4096 < 256"
      using heap_page_of(2) [of va] by blast+
    then have "page_entry t (current_pd_phys t) va = page_entry t (current_pd_phys t) (heap_page ((unat va - 0xC0000000) div 4096))"
      by (intro page_entry_in_page) (simp add: heap_page_unat(2))
    then show ?thesis using run(2) i(2) True cur by simp
  next
    case False
    then have "\<forall>i < 256. heap_page i AND 0xFFFFF000 \<noteq> va AND 0xFFFFF000" using heap_page_of(1) [of va] by blast
    then show ?thesis using run(3) cur unfolding if_not_P [OF False] by simp
  qed
qed

subsection \<open>The memory section of the boot sequence\<close>

lemma paging_ok_after_init:
  fixes s :: "'a paging_state_scheme"
  assumes "boot_tables_ok kpd kpt" "unat kpd div 4096 \<notin> free_pages s" "\<forall>i < 256. unat kpt div 4096 + i \<notin> free_pages s"
    and "pmm_inv M s"
  shows "paging_ok M (paging_init kpd kpt s)"
proof -
  note p = paging_init_spec [OF assms(1-3)]
  have w: "total_pages (fold (\<lambda>i. mem_write (f i) (g i)) xs u) = total_pages u \<and>
      used_pages (fold (\<lambda>i. mem_write (f i) (g i)) xs u) = used_pages u" for f g xs and u :: "'a paging_state_scheme"
    by (induction xs arbitrary: u) (simp_all add: mem_write_def)
  have i: "total_pages (init_table kpd kpt i u) = total_pages u \<and> used_pages (init_table kpd kpt i u) = used_pages u"
    for i and u :: "'a paging_state_scheme"
    using w by (simp add: init_table_def fill_table_def Let_def mem_write_def)
  have "total_pages (fold (init_table kpd kpt) xs u) = total_pages u \<and> used_pages (fold (init_table kpd kpt) xs u) = used_pages u"
    for xs and u :: "'a paging_state_scheme"
    by (induction xs arbitrary: u) (simp_all add: i)
  then have "total_pages (paging_init kpd kpt s) = total_pages s \<and> used_pages (paging_init kpd kpt s) = used_pages s"
    using w by (simp add: paging_init_def paging_enable_def register_interrupt_handler_def Let_def fill_table_def)
  then have "pmm_inv M (paging_init kpd kpt s)" using assms(4) p(9) by (simp add: pmm_inv_def)
  then show ?thesis using p(2,4) by (simp add: paging_ok_def)
qed

lemma granted_frames:
  fixes s t :: "'a paging_state_scheme"
  assumes ok: "paging_ok M s" and g: "pmm_alloc_pages 256 s = Inr (of_nat st * PAGE_SIZE, t)" "run_free s st 256"
    and fr: "free_pages t = free_pages s - {st..<st + 256}" "pmm_only s t" and big: "256 < card (free_pages s)"
  shows "paging_ok M t" "free_pages t \<noteq> {}" "page_entry t = page_entry s" "of_nat st * PAGE_SIZE \<noteq> 0"
proof -
  note po = pmm_only_paging [OF fr(2)]
  have "pmm_inv M t" using ok pmm_inv_alloc_pages [OF _ g(1)] by (simp add: paging_ok_def)
  moreover have "dir_wf t (current_pd_phys t)"
    using ok po fr(1) dir_wf_shrink [of s "current_pd_phys s" t] by (simp add: paging_ok_def)
  ultimately show "paging_ok M t" by (simp add: paging_ok_def)
  show "free_pages t \<noteq> {}"
  proof
    assume "free_pages t = {}"
    then have "free_pages s \<subseteq> {st..<st + 256}" using fr(1) by blast
    from card_mono [OF _ this] show False using big by simp
  qed
  show "page_entry t = page_entry s" using po(1) by (simp add: page_entry_def fun_eq_iff)
  have "st \<in> free_pages s" using g(2) by auto
  then have "0 < st" "st < max_pages" using ok by (auto simp: paging_ok_def pmm_inv_def)
  then have "unat (of_nat st * PAGE_SIZE) \<noteq> 0" by (simp add: page_addr_inverse)
  then show "of_nat st * PAGE_SIZE \<noteq> 0" by auto
qed

text \<open>Paging enabled and the frames of the heap granted.\<close>

lemma boot_frames:
  fixes s :: "'a boot_state_scheme"
  assumes uart: "uart_ready dev" and lay: "boot_tables_ok d p" and inv: "pmm_inv M s"
    and used: "unat d div 4096 \<notin> free_pages s" "\<forall>i < 256. unat p div 4096 + i \<notin> free_pages s"
    and run: "\<exists>k. run_free s k 256" and big: "256 < card (free_pages s)"
  obtains s1 s3 s4 st where "log_info dev ''FlowOS: Initializing paging...'' (vga_write_at 24 0 ''Initializing Paging...'' s) = Some s1"
    "log_info dev ''FlowOS: Allocating kernel heap...'' (paging_init d p s1) = Some s3"
    "pmm_alloc_pages 256 s3 = Inr (of_nat st * PAGE_SIZE, s4)" "of_nat st * PAGE_SIZE \<noteq> 0" "run_free s st 256"
    "\<And>k. k < st \<Longrightarrow> \<not> run_free s k 256" "paging_ok M s4" "free_pages s4 \<noteq> {}" "current_pd_phys s4 = d" "paging_on s4"
    "\<And>va. page_entry s4 d va = (if unat va < 0x40000000 then Some ((va AND 0xFFFFF000) OR PAGE_PRESENT OR PAGE_WRITE) else None)"
proof -
  obtain s1 where s1: "log_info dev ''FlowOS: Initializing paging...'' (vga_write_at 24 0 ''Initializing Paging...'' s) = Some s1"
    "console_only s s1" by (rule log_after_screen [OF uart])
  note q1 = same_pages_paging(1) [OF console_only_paging(1) [OF s1(2)]]
  have inv1: "pmm_inv M s1" using inv q1 console_only_paging(1) [OF s1(2)] by (simp add: pmm_inv_def same_pages_def)
  have u1: "unat d div 4096 \<notin> free_pages s1" "\<forall>i < 256. unat p div 4096 + i \<notin> free_pages s1"
    unfolding q1 by (rule used)+
  note i = paging_init_spec [OF lay u1]
  obtain s3 where s3: "log_info dev ''FlowOS: Allocating kernel heap...'' (paging_init d p s1) = Some s3"
    "console_only (paging_init d p s1) s3" by (rule log_info_frame [OF uart])
  note c3 = console_only_paging [OF s3(2)] and q3 = same_pages_paging [OF console_only_paging(1) [OF s3(2)]]
  have fr3: "free_pages s3 = free_pages s" using q3(1) i(9) q1 by simp
  obtain st s4 where g: "pmm_alloc_pages 256 s3 = Inr (of_nat st * PAGE_SIZE, s4)" "run_free s3 st 256"
    "free_pages s4 = free_pages s3 - {st..<st + 256}" "pmm_only s3 s4" "\<And>k. k < st \<Longrightarrow> \<not> run_free s3 k 256"
  proof (rule pmm_alloc_pages_cases [of 256 s3])
    show "unat (256 :: u32) \<le> max_pages" by simp
  next
    assume "(256 :: u32) = 0 \<or> (\<forall>st. \<not> run_free s3 st (unat (256 :: u32)))"
    then show ?thesis using run fr3 by auto
  next
    fix st
    assume "granted_run s3 256 st (pmm_alloc_pages 256 s3)" "\<And>k. k < st \<Longrightarrow> \<not> run_free s3 k (unat (256 :: u32))"
    then show ?thesis using that by (auto simp: granted_run_def)
  qed
  have "paging_ok M s3" using paging_ok_after_init [OF lay u1 inv1] q3(3) by simp
  note f = granted_frames [OF this g(1-4)] and po = pmm_only_paging [OF g(4)]
  show thesis
    by (rule that [OF s1(1) s3(1) g(1)])
      (use f big fr3 g(2,5) po c3 i(1,4,7) q3(2) in \<open>auto simp: same_pages_def\<close>)
qed

text \<open>The address space of the kernel after booting, with the heap on the frames from \<open>st\<close> on.\<close>

definition boot_entry :: "nat \<Rightarrow> u32 \<Rightarrow> u32 option" where
  "boot_entry st va =
     (if unat va < 0x40000000 then Some ((va AND 0xFFFFF000) OR PAGE_PRESENT OR PAGE_WRITE)
      else if 0xC0000000 \<le> unat va \<and> unat va < 0xC0100000
      then Some (pte_value (of_nat st * 4096 + of_nat ((unat va - 0xC0000000) div 4096) * 4096) 3)
      else None)"

text \<open>
  C13: The memory section of \<open>kmain\<close> does its work: when the linker has placed the page tables of the
  kernel in frames that are not free, 256 free frames in a row exist and at least one more for a page
  table, the section completes with paging enabled on the kernel's directory. The first GiB is mapped one
  to one, the MiB from 3 GiB on is mapped to the lowest run of 256 free frames, and nothing else is
  mapped; the directory is well formed, and the heap occupies exactly that MiB and is entirely free.
\<close>

theorem boot_memory_ready:
  fixes s :: "'a boot_state_scheme"
  assumes "uart_ready dev" "boot_tables_ok (l_kernel_pd l) (l_kernel_pts l)" "pmm_inv M s"
    and "unat (l_kernel_pd l) div 4096 \<notin> free_pages s" "\<forall>i < 256. unat (l_kernel_pts l) div 4096 + i \<notin> free_pages s"
    and "\<exists>k. run_free s k 256" "256 < card (free_pages s)"
  shows "\<exists>t st. boot_memory dev hlt l s = Some t \<and> run_free s st 256 \<and> (\<forall>k < st. \<not> run_free s k 256) \<and>
    paging_on t \<and> paging_ok M t \<and> current_pd_phys t = l_kernel_pd l \<and>
    page_entry t (l_kernel_pd l) = boot_entry st \<and>
    heap_ok t \<and> heap_live t = {} \<and> heap_start t = 0xC0000000 \<and> heap_size t = 0x100000 \<and> room t 0x100000"
proof -
  let ?d = "l_kernel_pd l" and ?p = "l_kernel_pts l"
  obtain s1 s3 s4 st where b: "log_info dev ''FlowOS: Initializing paging...'' (vga_write_at 24 0 ''Initializing Paging...'' s) = Some s1"
    "log_info dev ''FlowOS: Allocating kernel heap...'' (paging_init ?d ?p s1) = Some s3"
    "pmm_alloc_pages 256 s3 = Inr (of_nat st * PAGE_SIZE, s4)" "of_nat st * PAGE_SIZE \<noteq> 0" "run_free s st 256"
    "\<And>k. k < st \<Longrightarrow> \<not> run_free s k 256" "paging_ok M s4" "free_pages s4 \<noteq> {}" "current_pd_phys s4 = ?d" "paging_on s4"
    "\<And>va. page_entry s4 ?d va = (if unat va < 0x40000000 then Some ((va AND 0xFFFFF000) OR PAGE_PRESENT OR PAGE_WRITE) else None)"
    by (rule boot_frames [OF assms]) blast
  define s5 where "s5 = map_heap (of_nat st * PAGE_SIZE) s4"
  note m = map_heap_run [OF b(7,8), where p = "of_nat st * PAGE_SIZE", folded s5_def]
  obtain s6 where s6: "log_info dev ''FlowOS: Initializing heap...'' s5 = Some s6" "console_only s5 s6"
    by (rule log_info_frame [OF assms(1)])
  note c6 = console_only_paging [OF s6(2)] and q6 = same_pages_paging [OF console_only_paging(1) [OF s6(2)]]
  define t where "t = heap_init 0xC0000000 0x100000 s6"
  have hi: "heap_inv t [Blk 0xC0000000 0x100000 True]" unfolding t_def by (rule heap_init_inv) simp_all
  have th: "same_pages s6 t" "paging_on t = paging_on s6" "heap_start t = 0xC0000000" "heap_size t = 0x100000"
    by (simp_all add: t_def heap_init_def upd_blk_def Let_def same_pages_def)
  note qt = same_pages_paging [OF th(1)]
  have "page_entry t ?d va = boot_entry st va" for va
    unfolding qt(2) q6(2) boot_entry_def using m(4) [of va] b(11) [of va] by (simp add: b(9) PAGE_SIZE_def)
  moreover have "boot_memory dev hlt l s = Some t"
    using b(1-4) s6(1)
    by (simp add: boot_memory_def Let_def s5_def [symmetric] t_def HEAP_PAGES_def KERNEL_HEAP_VIRT_def)
      (simp add: t_def PAGE_SIZE_def)
  moreover have "paging_on t"
    using th(2) c6(2) b(10) m(3) by (auto simp: tables_only_def)
  moreover have "current_pd_phys t = ?d" using th(1) c6(1) m(2) b(9) by (simp add: same_pages_def)
  moreover have "paging_ok M t" using qt(3) q6(3) m(1) by simp
  moreover have "heap_live t = {}" "heap_ok t" "room t 0x100000"
    using heap_live_eq [OF hi] heap_inv_ok [OF hi] hi by (auto simp: room_def intro!: exI [of _ "[Blk 0xC0000000 0x100000 True]"])
  ultimately show ?thesis using b(5,6) th(3,4) by (intro exI [of _ t] exI [of _ st]) auto
qed

text \<open>A machine with the frames 512 to 1023 free and the page tables of the kernel below them.\<close>

definition boot_start :: boot_state where
  "boot_start = demo_boot\<lparr>bitmap := (\<lambda>q. if 16 \<le> q \<and> q < 32 then 0 else - 1), total_pages := 512, used_pages := 0\<rparr>"

definition boot_link :: link_map where
  "boot_link = \<lparr>l_gdt = 0, l_gp = 0, l_tss = 0, l_isr = \<lambda>_. 0, l_irq = \<lambda>_. 0, l_isr128 = 0, l_idt = 0, l_idtp = 0,
     l_interrupt_stack = 0, l_end = 0, l_kernel_pd = 0x2000, l_kernel_pts = 0x100000, l_idle_process = 0, l_elf_header = 0\<rparr>"

lemma boot_start_frames: "free_pages boot_start = {512..<1024}" "pmm_inv {512..<1024} boot_start"
proof -
  have "p \<in> free_pages boot_start \<longleftrightarrow> p \<in> {512..<1024}" for p
  proof -
    have "16 \<le> p div 32 \<longleftrightarrow> 512 \<le> p" "p div 32 < 32 \<longleftrightarrow> p < 1024"
      using less_eq_div_iff_mult_less_eq [of 32 16 p] div_less_iff_less_mult [of 32 p 32] by simp_all
    then show ?thesis by (auto simp: free_pages_def page_used_def boot_start_def bit_minus_1_iff)
  qed
  then show f: "free_pages boot_start = {512..<1024}" by blast
  show "pmm_inv {512..<1024} boot_start"
    unfolding pmm_inv_def f by (auto simp: boot_start_def)
qed

theorem boot_memory_ready_witness:
  "\<exists>t. boot_memory vol_dev Some boot_link boot_start = Some t \<and> heap_ok t \<and> heap_live t = {} \<and>
     page_entry t 0x2000 0xC0000000 = Some 0x200003 \<and> page_entry t 0x2000 0x1000 = Some 0x1003"
proof -
  have b: "boot_tables_ok (l_kernel_pd boot_link) (l_kernel_pts boot_link)"
    by (simp add: boot_tables_ok_def boot_link_def page_aligned_def)
  have run: "run_free boot_start 512 256" unfolding boot_start_frames by auto
  then have ex: "\<exists>k. run_free boot_start k 256" by blast
  have u: "unat (l_kernel_pd boot_link) div 4096 \<notin> free_pages boot_start"
    "\<forall>i < 256. unat (l_kernel_pts boot_link) div 4096 + i \<notin> free_pages boot_start" "256 < card (free_pages boot_start)"
    unfolding boot_start_frames by (auto simp: boot_link_def)
  obtain t st where t: "boot_memory vol_dev Some boot_link boot_start = Some t" "run_free boot_start st 256"
    "\<forall>k < st. \<not> run_free boot_start k 256" "page_entry t (l_kernel_pd boot_link) = boot_entry st" "heap_ok t" "heap_live t = {}"
    using boot_memory_ready [OF elf_ready(4) b boot_start_frames(2) u(1,2) ex u(3), of Some] by blast
  have "st = 512"
  proof (rule antisym)
    show "st \<le> 512" using t(3) run by (meson not_le)
    have "st \<in> free_pages boot_start" using t(2) by auto
    then show "512 \<le> st" unfolding boot_start_frames by simp
  qed
  then show ?thesis using t by (simp add: boot_link_def boot_entry_def pte_value_def c_consts)
qed

subsection \<open>Page tables stay well formed\<close>

text \<open>
  The operations that change page tables while the kernel's directory is in use: frames are allocated,
  pages mapped and unmapped, directories cloned for new processes, and page faults repaired.
\<close>

inductive vm_step :: "'a paging_state_scheme \<Rightarrow> 'a paging_state_scheme \<Rightarrow> bool" where
  vm_alloc: "pmm_alloc_page s = (f, t) \<Longrightarrow> vm_step s t"
| vm_map: "vm_step s (paging_map_page va pa fl s)"
| vm_unmap: "vm_step s (paging_unmap_page va s)"
| vm_clone: "paging_clone_pd s = (d, t) \<Longrightarrow> vm_step s t"
| vm_fault: "page_fault_handler dev cr2 regs s = Some (Returned regs' t) \<Longrightarrow> vm_step s t"

inductive_cases vm_stepE: "vm_step s t"

lemma paging_ok_alloc_any: "paging_ok M s \<Longrightarrow> pmm_alloc_page s = (f, t) \<Longrightarrow> paging_ok M t \<and> tables_only s t"
  using paging_ok_alloc(1) [of M s f t] pmm_frames.alloc_fail [of M s] tables_only_alloc
  by (cases "f = 0") (auto simp: paging_ok_def)

lemma paging_ok_clone:
  assumes "paging_ok M s" "kernel_pd_phys s = current_pd_phys s" "paging_clone_pd s = (d, t)"
  shows "paging_ok M t \<and> tables_only s t"
proof -
  have inv: "pmm_inv M s" "dir_wf s (kernel_pd_phys s)" using assms(1,2) by (simp_all add: paging_ok_def)
  note c = paging_clone_spec [OF inv assms(3)]
  have to: "tables_only s t" using clone_tables_only assms(3) by (metis snd_conv)
  have "pmm_inv M t \<and> dir_wf t (current_pd_phys s)"
    using c inv assms(2) by (cases "free_pages s = {}") auto
  then show ?thesis using to tables_only_regs(1) [OF to] by (simp add: paging_ok_def)
qed

lemma panic_not_returned: "page_fault_panic dev cr2 s \<noteq> Some (Returned regs t)"
  by (auto simp: page_fault_panic_def bind_eq_Some_conv Let_def)

lemma paging_ok_fault:
  assumes "paging_ok M s" "page_fault_handler dev cr2 regs s = Some (Returned regs' t)"
  shows "paging_ok M t \<and> tables_only s t"
proof -
  obtain f s1 where al: "pmm_alloc_page s = (f, s1)" by fastforce
  note s1 = paging_ok_alloc_any [OF assms(1) al]
  obtain fl where "t = paging_map_page (cr2 AND 0xFFFFF000) f fl s1"
    using assms(2) al by (auto simp: page_fault_handler_def Let_def panic_not_returned split: if_splits)
  then show ?thesis using map_page_ok s1 tables_only_trans [OF _ tables_only_map] by blast
qed

lemma vm_step_ok:
  assumes "vm_step s t" "paging_ok M s" "kernel_pd_phys s = current_pd_phys s"
  shows "paging_ok M t \<and> tables_only s t"
  using assms
proof cases
  case (vm_map va pa fl)
  then show ?thesis using map_page_ok [OF assms(2)] by simp
next
  case (vm_unmap va)
  then show ?thesis using unmap_page_entry [OF assms(2)] by simp
qed (use paging_ok_alloc_any [OF assms(2)] paging_ok_clone [OF assms(2,3)] paging_ok_fault [OF assms(2)] in blast)+

text \<open>
  C14: The page tables of the kernel stay well formed: from the moment \<open>paging_init\<close> has built them, in
  every sequence of frame allocations, mappings, unmappings, clonings and repaired page faults, the
  frame counters agree with the bitmap, and in the kernel's directory, which stays in use, all present
  entries point to page tables in frames that are not free, are different from each other and from the
  directory itself.
\<close>

theorem page_tables_well_formed:
  assumes "boot_tables_ok kpd kpt" "pmm_inv M s" "unat kpd div 4096 \<notin> free_pages s"
    and "\<forall>i < 256. unat kpt div 4096 + i \<notin> free_pages s" "vm_step\<^sup>*\<^sup>* (paging_init kpd kpt s) t"
  shows "pmm_inv M t \<and> current_pd_phys t = kpd \<and> kernel_pd_phys t = kpd \<and> dir_wf t kpd"
proof -
  have "paging_ok M t \<and> current_pd_phys t = kpd \<and> kernel_pd_phys t = kpd"
    using assms(5)
  proof (induction rule: rtranclp_induct)
    case base
    then show ?case
      using paging_ok_after_init [OF assms(1,3,4,2)] paging_init_spec(4,5) [OF assms(1,3,4)] by blast
  next
    case (step u v)
    have "paging_ok M v \<and> tables_only u v" using vm_step_ok [OF step(2), of M] step.IH by simp
    then show ?case using step.IH tables_only_regs [of u v] by simp
  qed
  then show ?thesis unfolding paging_ok_def by blast
qed

theorem page_tables_well_formed_witness:
  "dir_wf (paging_unmap_page 0x1000 (paging_map_page 0xC0000000 0x5000 7
     (snd (pmm_alloc_page (paging_init 0x2000 0x100000 boot_start))))) 0x2000"
proof -
  let ?s = "paging_init 0x2000 0x100000 boot_start"
  let ?t = "paging_unmap_page 0x1000 (paging_map_page 0xC0000000 0x5000 7 (snd (pmm_alloc_page ?s)))"
  have "vm_step ?s (snd (pmm_alloc_page ?s))" by (rule vm_alloc [OF surjective_pairing])
  then have "vm_step\<^sup>*\<^sup>* ?s ?t"
    by (meson rtranclp.rtrancl_into_rtrancl rtranclp.rtrancl_refl vm_map vm_unmap)
  from page_tables_well_formed [OF _ boot_start_frames(2) _ _ this] show ?thesis
    by (simp add: boot_tables_ok_def page_aligned_def boot_start_frames)
qed

end
