(* ===== verification/Shell.thy ===== *)
theory Shell
  imports Boot_Memory
begin

text \<open>
  The shell, a user program (\<^verbatim>\<open>src/userspace/shell.c\<close>). It reaches the kernel by interrupt 0x80,
  which runs the kernel's handler on the registers of the wrapper; its memory is user memory in
  \<open>vmem\<close>. The addresses of its string literals and of its two buffers are chosen by the compiler:
  the parameters \<open>lit\<close>, \<open>buffer\<close> and \<open>path\<close>.
\<close>

subsection \<open>System call wrappers\<close>

text \<open>What the user program needs of the kernel: the effect of one interrupt.\<close>

type_synonym 's trap = "registers \<Rightarrow> 's \<Rightarrow> (registers, 's) outcome option"

definition syscall1 :: "'s trap \<Rightarrow> registers \<Rightarrow> u32 \<Rightarrow> u32 \<Rightarrow> 's \<Rightarrow> (registers, 's) outcome option" where
  "syscall1 trap regs num arg1 s = trap (regs\<lparr>r_eax := num, r_ebx := arg1\<rparr>) s"

definition syscall2 :: "'s trap \<Rightarrow> registers \<Rightarrow> u32 \<Rightarrow> u32 \<Rightarrow> u32 \<Rightarrow> 's \<Rightarrow> (registers, 's) outcome option" where
  "syscall2 trap regs num arg1 arg2 s = trap (regs\<lparr>r_eax := num, r_ebx := arg1, r_ecx := arg2\<rparr>) s"

definition shell_read :: "'s trap \<Rightarrow> registers \<Rightarrow> u32 \<Rightarrow> u32 \<Rightarrow> 's \<Rightarrow> (registers, 's) outcome option" where
  "shell_read trap regs buf max_len s = syscall2 trap regs SYS_READ buf max_len s"

definition shell_exec :: "'s trap \<Rightarrow> registers \<Rightarrow> u32 \<Rightarrow> 's \<Rightarrow> (registers, 's) outcome option" where
  "shell_exec trap regs pth s = syscall1 trap regs SYS_EXEC pth s"

definition shell_exit :: "'s trap \<Rightarrow> registers \<Rightarrow> u32 \<Rightarrow> 's \<Rightarrow> (registers, 's) outcome option" where
  "shell_exit trap regs code s = syscall1 trap regs SYS_EXIT code s"

text \<open>Going on after a system call that returned; otherwise the program has ended.\<close>

definition after ::
  "(registers, 's) outcome option \<Rightarrow> (u32 \<Rightarrow> 's \<Rightarrow> (unit, 's) outcome option) \<Rightarrow> (unit, 's) outcome option" where
  "after r k =
     Option.bind r (\<lambda>r. case r of
        Returned regs s \<Rightarrow> k (r_eax regs) s
      | Halted s \<Rightarrow> Some (Halted s)
      | Entered_User entry stack s \<Rightarrow> Some (Entered_User entry stack s)
      | Faulted f \<Rightarrow> Some (Faulted f))"

primrec writes :: "u32 list \<Rightarrow> 's trap \<Rightarrow> registers \<Rightarrow> ('s \<Rightarrow> (unit, 's) outcome option) \<Rightarrow> 's \<Rightarrow> (unit, 's) outcome option" where
  "writes [] trap regs k s = k s"
| "writes (a # as) trap regs k s = after (syscall1 trap regs SYS_WRITE a s) (\<lambda>_. writes as trap regs k)"

subsection \<open>String helpers\<close>

partial_function (option) shell_strcmp :: "(u32 \<Rightarrow> u8) \<Rightarrow> u32 \<Rightarrow> u32 \<Rightarrow> int option" where
  "shell_strcmp m a b =
     (if m a \<noteq> 0 \<and> m a = m b then shell_strcmp m (a + 1) (b + 1) else Some (uint (m a) - uint (m b)))"

partial_function (option) shell_strlen :: "(u32 \<Rightarrow> u8) \<Rightarrow> u32 \<Rightarrow> int \<Rightarrow> int option" where
  "shell_strlen m str i = (if m (str + of_int i) \<noteq> 0 then shell_strlen m str (i + 1) else Some i)"

partial_function (option) shell_strcpy ::
  "u32 \<Rightarrow> u32 \<Rightarrow> 'a ata_state_scheme \<Rightarrow> 'a ata_state_scheme option" where
  "shell_strcpy dest src s =
     (let c = vmem s src; s = put_byte dest c s
      in if c \<noteq> 0 then shell_strcpy (dest + 1) (src + 1) s else Some s)"

definition upper_byte :: "u8 \<Rightarrow> u8" where
  "upper_byte c = (if 0x61 \<le> c \<and> c \<le> 0x7A then c - 32 else c)"

partial_function (option) upper_loop ::
  "u32 \<Rightarrow> u32 \<Rightarrow> nat \<Rightarrow> 'a ata_state_scheme \<Rightarrow> 'a ata_state_scheme option" where
  "upper_loop buffer path i s =
     (if vmem s (buffer + of_nat i) \<noteq> 0
      then upper_loop buffer path (Suc i)
             (put_byte (path + of_nat i) (upper_byte (vmem s (buffer + of_nat i))) s)
      else Some s)"

subsection \<open>The command loop\<close>

text \<open>The branch that tries to run a program: \<open>k\<close> is the next round of the loop.\<close>

definition run_program ::
  "'a ata_state_scheme trap \<Rightarrow> registers \<Rightarrow> (string \<Rightarrow> u32) \<Rightarrow> u32 \<Rightarrow> u32 \<Rightarrow> u32 \<Rightarrow>
   ('a ata_state_scheme \<Rightarrow> (unit, 'a ata_state_scheme) outcome option) \<Rightarrow> 'a ata_state_scheme \<Rightarrow>
   (unit, 'a ata_state_scheme) outcome option" where
  "run_program trap regs lit buffer path count k s =
     Option.bind (upper_loop buffer path 0 s) (\<lambda>s.
       after (shell_exec trap regs path (put_byte (path + count) 0 s)) (\<lambda>ret s.
         if sint ret < 0
         then writes [lit ''Command not found: '', buffer, lit [NEWLINE]] trap regs k s
         else k s))"

definition help_text :: "string list" where
  "help_text =
     [''Available commands:'' @ [NEWLINE], ''  help  - Show this help'' @ [NEWLINE],
      ''  clear - Clear screen'' @ [NEWLINE], ''  test  - Run test program'' @ [NEWLINE],
      ''  exit  - Exit shell'' @ [NEWLINE, NEWLINE]]"

text \<open>One round after a line has been read.\<close>

definition run_command ::
  "'a ata_state_scheme trap \<Rightarrow> registers \<Rightarrow> (string \<Rightarrow> u32) \<Rightarrow> u32 \<Rightarrow> u32 \<Rightarrow> u32 \<Rightarrow>
   ('a ata_state_scheme \<Rightarrow> (unit, 'a ata_state_scheme) outcome option) \<Rightarrow> 'a ata_state_scheme \<Rightarrow>
   (unit, 'a ata_state_scheme) outcome option" where
  "run_command trap regs lit buffer path count k s = do {
     help \<leftarrow> shell_strcmp (vmem s) buffer (lit ''help'');
     if help = 0 then writes (map lit help_text) trap regs k s
     else do {
       clear \<leftarrow> shell_strcmp (vmem s) buffer (lit ''clear'');
       cls \<leftarrow> (if clear = 0 then Some 0 else shell_strcmp (vmem s) buffer (lit ''cls''));
       if clear = 0 \<or> cls = 0 then writes (replicate 25 (lit [NEWLINE])) trap regs k s
       else do {
         ex \<leftarrow> shell_strcmp (vmem s) buffer (lit ''exit'');
         if ex = 0 then
           writes [lit (''Goodbye!'' @ [NEWLINE])] trap regs
             (\<lambda>s. after (shell_exit trap regs 0 s) (\<lambda>_. k)) s
         else if sint count > 0 then run_program trap regs lit buffer path count k s
         else k s
       }
     }
   }"

text \<open>
  Up to \<open>n\<close> rounds of the endless loop of \<open>_start\<close>: \<^const>\<open>Returned\<close> means that the shell is still
  running after them.
\<close>

primrec shell_rounds ::
  "nat \<Rightarrow> 'a ata_state_scheme trap \<Rightarrow> registers \<Rightarrow> (string \<Rightarrow> u32) \<Rightarrow> u32 \<Rightarrow> u32 \<Rightarrow> 'a ata_state_scheme \<Rightarrow>
   (unit, 'a ata_state_scheme) outcome option" where
  "shell_rounds 0 trap regs lit buffer path s = Some (Returned () s)"
| "shell_rounds (Suc n) trap regs lit buffer path s =
     writes [lit ''FlowOS> ''] trap regs
       (\<lambda>s. after (shell_read trap regs buffer 128 s) (\<lambda>count s.
          if count = 0 then shell_rounds n trap regs lit buffer path s
          else writes [lit [NEWLINE]] trap regs
            (run_command trap regs lit buffer path count (shell_rounds n trap regs lit buffer path)) s)) s"

definition shell_start ::
  "nat \<Rightarrow> 'a ata_state_scheme trap \<Rightarrow> registers \<Rightarrow> (string \<Rightarrow> u32) \<Rightarrow> u32 \<Rightarrow> u32 \<Rightarrow> 'a ata_state_scheme \<Rightarrow>
   (unit, 'a ata_state_scheme) outcome option" where
  "shell_start n trap regs lit buffer path s =
     writes [lit ([NEWLINE, NEWLINE] @ ''*** FlowOS Shell ***'' @ [NEWLINE]),
             lit (''Type '' @ [CHR 0x27] @ ''help'' @ [CHR 0x27] @ '' for available commands'' @ [NEWLINE, NEWLINE])]
       trap regs (shell_rounds n trap regs lit buffer path) s"

subsection \<open>The test program\<close>

text \<open>\<^verbatim>\<open>src/userspace/test.c\<close>: a message, whose address is \<open>msg\<close>, and an endless loop.\<close>

partial_function (option) spin :: "'s \<Rightarrow> (unit, 's) outcome option" where
  "spin s = spin s"

definition test_start :: "'s trap \<Rightarrow> registers \<Rightarrow> u32 \<Rightarrow> 's \<Rightarrow> (unit, 's) outcome option" where
  "test_start trap regs msg s = after (syscall1 trap regs SYS_WRITE msg s) (\<lambda>_. spin)"

lemma spin_diverges: "spin s = None"
proof (cases "spin s")
  case (Some r)
  then have False by (rule spin.raw_induct [rotated]) blast
  then show ?thesis ..
qed

text \<open>Whatever the kernel does with the message, the test program itself never ends.\<close>

lemma test_start_never_returns: "test_start trap regs msg s \<noteq> Some (Returned () t)"
  by (auto simp: test_start_def after_def spin_diverges split: bind_splits outcome.splits)

subsection \<open>Text in memory\<close>

text \<open>The bytes \<open>bs\<close>, none of them 0, followed by 0.\<close>

fun c_text :: "(u32 \<Rightarrow> u8) \<Rightarrow> u32 \<Rightarrow> u8 list \<Rightarrow> bool" where
  "c_text m a [] \<longleftrightarrow> m a = 0"
| "c_text m a (b # bs) \<longleftrightarrow> m a = b \<and> b \<noteq> 0 \<and> c_text m (a + 1) bs"

lemma c_text_nth:
  "c_text m a bs \<longleftrightarrow> (\<forall>j < length bs. m (a + of_nat j) = bs ! j \<and> bs ! j \<noteq> 0) \<and> m (a + of_nat (length bs)) = 0"
proof (induction bs arbitrary: a)
  case (Cons b bs)
  have e: "a + 1 + of_nat j = a + of_nat (Suc j)" for j by simp
  show ?case unfolding c_text.simps Cons.IH length_Cons All_less_Suc2 e by auto
qed simp

lemma c_string_text: "c_text m a bs \<Longrightarrow> c_string m a = Some (map (\<lambda>b. char_of (unat b)) bs)"
proof (induction bs arbitrary: a)
  case Nil
  then show ?case by (subst c_string.simps) simp
next
  case (Cons b bs)
  then show ?case by (subst c_string.simps) simp
qed

lemma shell_strcmp_text:
  assumes "c_text m a xs" "c_text m b ys"
  shows "\<exists>r. shell_strcmp m a b = Some r \<and> (r = 0 \<longleftrightarrow> xs = ys)"
  using assms
proof (induction xs arbitrary: a b ys)
  case Nil
  then show ?case by (cases ys) (subst shell_strcmp.simps, simp add: uint_0_iff)+
next
  case (Cons x xs)
  show ?case
  proof (cases ys)
    case Nil
    then show ?thesis using Cons.prems by (subst shell_strcmp.simps) (auto simp: uint_0_iff)
  next
    case (Cons y zs)
    then show ?thesis using Cons.prems Cons.IH [of "a + 1" "b + 1" zs]
      by (subst shell_strcmp.simps) (auto simp: word_uint_eq_iff)
  qed
qed

subsection \<open>Upper case\<close>

lemma upper_byte_nonzero: "c \<noteq> 0 \<Longrightarrow> upper_byte c \<noteq> 0"
proof -
  assume "c \<noteq> 0"
  moreover have "c - 32 \<noteq> 0" if "0x61 \<le> c" using that by auto
  ultimately show ?thesis by (simp add: upper_byte_def)
qed

lemma filled_Cons:
  assumes "n + 1 < 2 ^ 32"
  shows "filled (m(p := f 0)) (p + 1) (\<lambda>j. f (Suc j)) n = filled m p f (Suc n)"
proof (rule ext)
  fix a
  show "filled (m(p := f 0)) (p + 1) (\<lambda>j. f (Suc j)) n a = filled m p f (Suc n) a"
  proof (cases "a = p")
    case True
    have "unat (p - (p + 1)) = 2 ^ 32 - 1" by (simp add: unsigned_minus_1_eq_mask mask_eq_exp_minus_1)
    then show ?thesis using True assms by (simp add: filled_def)
  next
    case False
    then have "a - p \<noteq> 0" by simp
    then have "0 < unat (a - p)" by (simp only: unat_gt_0 not_False_eq_True)
    then have "1 \<le> a - p" by (simp add: word_le_nat_alt)
    then have "unat (a - p) = Suc (unat (a - (p + 1)))" using unat_sub_no_wrap [of 1 "a - p"] False
      by (simp add: diff_diff_eq word_le_nat_alt)
    then show ?thesis using False by (simp add: filled_def)
  qed
qed

lemma upper_loop_text:
  assumes "c_text (vmem s) (buffer + of_nat i) bs" "i + length bs < n" "n < 2 ^ 32"
    and "\<forall>j < n. n \<le> unat (buffer + of_nat j - path)"
  shows "upper_loop buffer path i s =
    Some (s\<lparr>vmem := filled (vmem s) (path + of_nat i) (\<lambda>j. upper_byte (bs ! j)) (length bs)\<rparr>)"
  using assms
proof (induction bs arbitrary: i s)
  case Nil
  then show ?case by (subst upper_loop.simps) (simp add: filled_def)
next
  case (Cons b bs)
  define t where "t = put_byte (path + of_nat i) (upper_byte b) s"
  have ne: "path + of_nat i \<noteq> buffer + of_nat j" if "j < n" for j
  proof
    assume "path + of_nat i = buffer + of_nat j"
    then have "buffer + of_nat j - path = of_nat i" by (simp add: algebra_simps)
    moreover have "unat (of_nat i :: u32) = i" using Cons.prems(2,3) by (simp add: unat_of_nat_u32)
    ultimately show False using Cons.prems(2,4) that by fastforce
  qed
  have keep: "vmem t (buffer + of_nat j) = vmem s (buffer + of_nat j)" if "j < n" for j
    using ne [OF that] by (auto simp: t_def put_byte_def)
  have "buffer + of_nat i + 1 = buffer + of_nat (Suc i)" by simp
  then have "c_text (vmem s) (buffer + of_nat (Suc i)) bs" using Cons.prems(1) by (simp only: c_text.simps)
  then have "c_text (vmem t) (buffer + of_nat (Suc i)) bs"
    unfolding c_text_nth using keep Cons.prems(2)
    by (auto simp: add.assoc of_nat_add [symmetric] simp del: of_nat_add of_nat_Suc)
  then have "upper_loop buffer path (Suc i) t =
      Some (t\<lparr>vmem := filled (vmem t) (path + of_nat (Suc i)) (\<lambda>j. upper_byte (bs ! j)) (length bs)\<rparr>)"
    using Cons.IH Cons.prems(2-4) by simp
  moreover have "upper_loop buffer path i s = upper_loop buffer path (Suc i) t"
    using Cons.prems(1) by (subst upper_loop.simps) (auto simp: t_def)
  moreover have "filled (vmem t) (path + of_nat (Suc i)) (\<lambda>j. upper_byte (bs ! j)) (length bs) =
      filled (vmem s) (path + of_nat i) (\<lambda>j. upper_byte ((b # bs) ! j)) (length (b # bs))"
  proof -
    have e: "path + of_nat i + 1 = path + of_nat (Suc i)" by simp
    show ?thesis
      using filled_Cons [of "length bs" "vmem s" "path + of_nat i" "\<lambda>j. upper_byte ((b # bs) ! j)"] Cons.prems(2,3)
      unfolding e by (simp add: t_def put_byte_def)
  qed
  ultimately show ?case by (simp add: t_def put_byte_def)
qed

subsection \<open>Properties of the shell\<close>

text \<open>The command words of the shell are in memory, as the compiler has placed them.\<close>

definition words_at :: "(u32 \<Rightarrow> u8) \<Rightarrow> (string \<Rightarrow> u32) \<Rightarrow> bool" where
  "words_at m lit \<longleftrightarrow> (\<forall>w \<in> {''help'', ''clear'', ''cls'', ''exit''}. c_text m (lit w) (map of_char w))"

lemma compare_word:
  assumes "words_at (vmem s) lit" "c_text (vmem s) buffer w" "l \<in> {''help'', ''clear'', ''cls'', ''exit''}"
  obtains r where "shell_strcmp (vmem s) buffer (lit l) = Some r" "r = 0 \<longleftrightarrow> w = map of_char l"
  using shell_strcmp_text [OF assms(2), of "lit l" "map of_char l"] assms(1,3) by (auto simp: words_at_def)

text \<open>The path that the shell builds from a command.\<close>

lemma program_path:
  assumes "c_text (vmem s) buffer w" "length w < 128" "\<forall>j < 128. 128 \<le> unat (buffer + of_nat j - path)"
  defines "m \<equiv> filled (vmem s) path (\<lambda>j. if j < length w then upper_byte (w ! j) else 0) (Suc (length w))"
  shows "Option.bind (upper_loop buffer path 0 s) (\<lambda>s. Some (put_byte (path + of_nat (length w)) 0 s)) = Some (s\<lparr>vmem := m\<rparr>)"
    "c_string m path = Some (map (\<lambda>b. char_of (unat (upper_byte b))) w)"
    "128 \<le> unat (a - path) \<Longrightarrow> m a = vmem s a"
proof -
  have n: "length w < 2 ^ 32" "unat (of_nat (length w) :: u32) = length w" using assms(2) by (simp_all add: unat_of_nat_u32)
  have "upper_loop buffer path 0 s = Some (s\<lparr>vmem := filled (vmem s) path (\<lambda>j. upper_byte (w ! j)) (length w)\<rparr>)"
    using upper_loop_text [of s buffer 0 w 128 path] assms(1-3) by simp
  moreover have "(filled (vmem s) path (\<lambda>j. upper_byte (w ! j)) (length w))(path + of_nat (length w) := 0) = m"
  proof -
    have "filled (vmem s) path (\<lambda>j. upper_byte (w ! j)) (length w) =
        filled (vmem s) path (\<lambda>j. if j < length w then upper_byte (w ! j) else 0) (length w)"
      by (auto simp: filled_def)
    then show ?thesis using filled_Suc [OF n(1), of "vmem s" path "\<lambda>j. if j < length w then upper_byte (w ! j) else 0"]
      by (simp add: m_def)
  qed
  ultimately show "Option.bind (upper_loop buffer path 0 s) (\<lambda>s. Some (put_byte (path + of_nat (length w)) 0 s)) =
      Some (s\<lparr>vmem := m\<rparr>)" by (simp add: put_byte_def)
  have "c_text m path (map upper_byte w)"
    unfolding c_text_nth
  proof (intro conjI allI impI)
    fix j assume j: "j < length (map upper_byte w)"
    then have "unat (of_nat j :: u32) = j" using n(1) by (simp add: unat_of_nat_u32)
    then show "m (path + of_nat j) = map upper_byte w ! j" using j by (simp add: m_def filled_def)
    have "w ! j \<noteq> 0" using assms(1) j by (auto simp: c_text_nth)
    then show "map upper_byte w ! j \<noteq> 0" using upper_byte_nonzero j by simp
  next
    show "m (path + of_nat (length (map upper_byte w))) = 0" using n(2) by (simp add: m_def filled_def)
  qed
  then show "c_string m path = Some (map (\<lambda>b. char_of (unat (upper_byte b))) w)"
    using c_string_text by (fastforce simp: comp_def)
  show "m a = vmem s a" if "128 \<le> unat (a - path)" using that assms(2) by (simp add: m_def filled_def)
qed

text \<open>
  C20: A line that is not one of the shell's own words is run as a program: for a buffer with a command of 1 to
  127 characters, \<open>run_command\<close> comes to the system call \<open>SYS_EXEC\<close>, and the kernel behind it calls
  \<open>elf_exec\<close> with the command in upper case. Only the 128 bytes of \<open>path\<close> have been written before
  that. When the call returns a negative value, the shell reports the command as not found.
\<close>

theorem shell_runs_program:
  fixes s :: "'a fat_state_scheme"
  assumes "c_text (vmem s) buffer w" "w \<noteq> []" "length w < 128" "words_at (vmem s) lit"
    and "w \<notin> map of_char ` {''help'', ''clear'', ''cls'', ''exit''}"
    and "\<forall>j < 128. 128 \<le> unat (buffer + of_nat j - path)"
  shows "\<exists>m. run_command (syscall_handler dev hlt hp) regs lit buffer path (of_nat (length w)) k s =
      after (map_option (set_eax (regs\<lparr>r_eax := SYS_EXEC, r_ebx := path\<rparr>))
          (elf_exec dev hp (map (\<lambda>b. char_of (unat (upper_byte b))) w) (sti (s\<lparr>vmem := m\<rparr>))))
        (\<lambda>ret t. if sint ret < 0
           then writes [lit ''Command not found: '', buffer, lit [NEWLINE]] (syscall_handler dev hlt hp) regs k t
           else k t) \<and>
    (\<forall>a. 128 \<le> unat (a - path) \<longrightarrow> m a = vmem s a)"
proof -
  define m where "m = filled (vmem s) path (\<lambda>j. if j < length w then upper_byte (w ! j) else 0) (Suc (length w))"
  note path = program_path [OF assms(1,3,6), folded m_def]
  have differs: "\<exists>r. shell_strcmp (vmem s) buffer (lit l) = Some r \<and> r \<noteq> 0" if "l \<in> {''help'', ''clear'', ''cls'', ''exit''}" for l
    by (rule compare_word [OF assms(4,1) that]) (use assms(5) that in blast)
  obtain h c l x where r: "shell_strcmp (vmem s) buffer (lit ''help'') = Some h" "h \<noteq> 0"
    "shell_strcmp (vmem s) buffer (lit ''clear'') = Some c" "c \<noteq> 0"
    "shell_strcmp (vmem s) buffer (lit ''cls'') = Some l" "l \<noteq> 0"
    "shell_strcmp (vmem s) buffer (lit ''exit'') = Some x" "x \<noteq> 0"
    using differs [of "''help''"] differs [of "''clear''"] differs [of "''cls''"] differs [of "''exit''"] by blast
  have "sint (of_nat (length w) :: u32) = int (length w)"
    using assms(3) by (simp add: signed_of_nat signed_take_bit_int_eq_self)
  then have "0 < sint (of_nat (length w) :: u32)" using assms(2) by simp
  then have "run_command (syscall_handler dev hlt hp) regs lit buffer path (of_nat (length w)) k s =
      run_program (syscall_handler dev hlt hp) regs lit buffer path (of_nat (length w)) k s"
    using r by (simp add: run_command_def)
  also have "\<dots> = after (syscall_handler dev hlt hp (regs\<lparr>r_eax := SYS_EXEC, r_ebx := path\<rparr>) (s\<lparr>vmem := m\<rparr>))
      (\<lambda>ret t. if sint ret < 0
         then writes [lit ''Command not found: '', buffer, lit [NEWLINE]] (syscall_handler dev hlt hp) regs k t else k t)"
    using path(1) by (auto simp: run_program_def shell_exec_def syscall1_def bind_eq_Some_conv)
  also have "syscall_handler dev hlt hp (regs\<lparr>r_eax := SYS_EXEC, r_ebx := path\<rparr>) (s\<lparr>vmem := m\<rparr>) =
      map_option (set_eax (regs\<lparr>r_eax := SYS_EXEC, r_ebx := path\<rparr>))
        (elf_exec dev hp (map (\<lambda>b. char_of (unat (upper_byte b))) w) (sti (s\<lparr>vmem := m\<rparr>)))"
    using path(2) by (simp add: syscall_handler_def sys_exec_def sti_def c_consts)
  finally show ?thesis using path(3) by blast
qed

text \<open>
  C21: The word \<open>exit\<close> ends the shell: when the buffer holds it, \<open>run_command\<close> sends its farewell and the
  kernel halts in \<open>SYS_EXIT\<close> for good, whatever the rest of the loop would do. Memory, the heap and the
  process table are left as they are: the process is not removed.
\<close>

theorem shell_exit_halts:
  fixes s :: "'a fat_state_scheme"
  assumes "uart_ready dev" "c_text (vmem s) buffer (map of_char ''exit'')" "words_at (vmem s) lit"
    and "c_text (vmem s) (lit (''Goodbye!'' @ [NEWLINE])) g"
  shows "\<exists>t. run_command (syscall_handler dev hlt hp) regs lit buffer path count k s = Some (Halted t) \<and>
    console_only (s\<lparr>if_flag := True\<rparr>) t"
proof -
  have cmp: "\<exists>r. shell_strcmp (vmem s) buffer (lit l) = Some r \<and> (r = 0 \<longleftrightarrow> l = ''exit'')"
    if l: "l \<in> {''help'', ''clear'', ''cls'', ''exit''}" for l
  proof -
    have e: "map of_char ''exit'' = (map of_char l :: u8 list) \<longleftrightarrow> l = ''exit''" using l by auto
    show ?thesis by (rule compare_word [OF assms(3,2) l]) (use e in blast)
  qed
  obtain h c d where r: "shell_strcmp (vmem s) buffer (lit ''help'') = Some h" "h \<noteq> 0"
    "shell_strcmp (vmem s) buffer (lit ''clear'') = Some c" "c \<noteq> 0"
    "shell_strcmp (vmem s) buffer (lit ''cls'') = Some d" "d \<noteq> 0" "shell_strcmp (vmem s) buffer (lit ''exit'') = Some 0"
    using cmp [of "''help''"] cmp [of "''clear''"] cmp [of "''cls''"] cmp [of "''exit''"] by auto
  let ?msg = "map (\<lambda>b. char_of (unat b)) g"
  have g: "c_string (vmem (sti s)) (lit (''Goodbye!'' @ [NEWLINE])) = Some ?msg"
    using c_string_text [OF assms(4)] by (simp add: sti_def)
  obtain u where u: "log_info dev ?msg (sti s) = Some u" "console_only (sti s) u" by (rule log_info_frame [OF assms(1)])
  obtain t where t: "log_info dev ''Process exited'' (sti u) = Some t" "console_only (sti u) t" by (rule log_info_frame [OF assms(1)])
  have w: "syscall_handler dev hlt hp (regs\<lparr>r_eax := SYS_WRITE, r_ebx := lit (''Goodbye!'' @ [NEWLINE])\<rparr>) s =
      Some (Returned (regs\<lparr>r_eax := 0, r_ebx := lit (''Goodbye!'' @ [NEWLINE])\<rparr>) u)"
    unfolding syscall_handler_def sys_write_def Let_def using g u(1) by (simp add: set_eax_def c_consts)
  have e: "syscall_handler dev hlt hp (regs\<lparr>r_eax := SYS_EXIT, r_ebx := 0\<rparr>) u = Some (Halted t)"
    unfolding syscall_handler_def sys_exit_def Let_def using t(1) by (simp add: set_eax_def c_consts)
  have "run_command (syscall_handler dev hlt hp) regs lit buffer path count k s = Some (Halted t)"
    using r w e by (simp add: run_command_def after_def shell_exit_def syscall1_def)
  moreover have "console_only (s\<lparr>if_flag := True\<rparr>) t"
    using u(2) t(2) by (cases s; cases u; cases t) (simp add: console_only_def sti_def)
  ultimately show ?thesis by blast
qed

text \<open>A memory with the words of the shell, a command at \<open>0x6000\<close> and room for a path at \<open>0x5800\<close>.\<close>

definition shell_lit :: "string \<Rightarrow> u32" where
  "shell_lit w = (if w = ''help'' then 0x8000 else if w = ''clear'' then 0x8010 else if w = ''cls'' then 0x8020
     else if w = ''exit'' then 0x8030 else 0x8040)"

definition shell_text :: "u8 list \<Rightarrow> fat_state" where
  "shell_text w = elf_start\<lparr>vmem := (\<lambda>a. if unat (a - 0x6000) < length w then w ! unat (a - 0x6000) else 0)
     (0x8000 := 0x68, 0x8001 := 0x65, 0x8002 := 0x6C, 0x8003 := 0x70,
      0x8010 := 0x63, 0x8011 := 0x6C, 0x8012 := 0x65, 0x8013 := 0x61, 0x8014 := 0x72,
      0x8020 := 0x63, 0x8021 := 0x6C, 0x8022 := 0x73, 0x8030 := 0x65, 0x8031 := 0x78, 0x8032 := 0x69, 0x8033 := 0x74)\<rparr>"

lemma shell_text_words: "length w \<le> 8 \<Longrightarrow> words_at (vmem (shell_text w)) shell_lit"
  by (simp add: words_at_def shell_lit_def shell_text_def)

theorem shell_runs_program_witness:
  "\<exists>m. run_command (syscall_handler vol_dev Some 0x5000) demo_regs shell_lit 0x6000 0x5800 4 (\<lambda>s. Some (Returned () s))
        (shell_text [0x74, 0x65, 0x73, 0x74]) =
      after (map_option (set_eax (demo_regs\<lparr>r_eax := SYS_EXEC, r_ebx := 0x5800\<rparr>))
          (elf_exec vol_dev 0x5000 ''TEST'' (sti ((shell_text [0x74, 0x65, 0x73, 0x74])\<lparr>vmem := m\<rparr>))))
        (\<lambda>ret t. if sint ret < 0
           then writes [shell_lit ''Command not found: '', 0x6000, shell_lit [NEWLINE]] (syscall_handler vol_dev Some 0x5000)
             demo_regs (\<lambda>s. Some (Returned () s)) t
           else Some (Returned () t))"
proof -
  let ?w = "[0x74, 0x65, 0x73, 0x74] :: u8 list"
  have t: "c_text (vmem (shell_text ?w)) 0x6000 ?w" by (simp add: shell_text_def)
  have w: "words_at (vmem (shell_text ?w)) shell_lit" by (rule shell_text_words) simp
  have d: "\<forall>j < 128. 128 \<le> unat (0x6000 + of_nat j - (0x5800 :: u32))"
    by (simp add: unat_add_no_wrap unat_of_nat_u32)
  have o: "?w \<notin> map of_char ` {''help'', ''clear'', ''cls'', ''exit''}" by simp
  have u: "map (\<lambda>b. char_of (unat (upper_byte b))) ?w = ''TEST''" by (simp add: upper_byte_def char_of_def bit_numeral_rec bit_Suc_0_iff)
  from shell_runs_program [OF t _ _ w o d, where dev = vol_dev and hlt = Some and hp = "0x5000" and regs = demo_regs and k = "\<lambda>s. Some (Returned () s)"]
  show ?thesis unfolding u by auto
qed

theorem shell_exit_halts_witness:
  "\<exists>t. run_command (syscall_handler vol_dev Some 0x5000) demo_regs shell_lit 0x6000 0x5800 4 (\<lambda>s. Some (Returned () s))
     (shell_text [0x65, 0x78, 0x69, 0x74]) = Some (Halted t)"
proof -
  let ?w = "[0x65, 0x78, 0x69, 0x74] :: u8 list"
  have t: "c_text (vmem (shell_text ?w)) 0x6000 (map of_char ''exit'')" by (simp add: shell_text_def)
  have w: "words_at (vmem (shell_text ?w)) shell_lit" by (rule shell_text_words) simp
  have g: "c_text (vmem (shell_text ?w)) (shell_lit (''Goodbye!'' @ [NEWLINE])) []" by (simp add: shell_text_def shell_lit_def)
  from shell_exit_halts [OF elf_ready(4) t w g] show ?thesis by blast
qed

end
