(* ===== verification/Spec2Isabelle.thy ===== *)
theory Spec2Isabelle
  imports Shell
begin

text \<open>
  \<^bold>\<open>FlowOS, a 32-bit x86 kernel in C.\<close> The program is the kernel under \<^verbatim>\<open>src/src\<close> and a shell under
  \<^verbatim>\<open>src/userspace\<close>. \<open>kmain\<close> sets up the descriptor tables, the interrupt controller, physical memory,
  paging, the kernel heap, the disk, the FAT32 volume, timer, keyboard, processes and system calls,
  asks for a login and loads the shell as an ELF file into user mode.

  \<^bold>\<open>State.\<close> Every component keeps its static variables in a record; each record extends the one of
  the component below it, so an operation of a component has the type \<open>'a r_scheme \<Rightarrow> 'a r_scheme\<close> and
  by its type cannot touch the state of the components above. The order is \<open>io_state\<close>,
  \<open>console_state\<close>, \<open>gdt_state\<close>, \<open>idt_state\<close>, \<open>pmm_state\<close>, \<open>paging_state\<close>, \<open>heap_state\<close>, \<open>timer_state\<close>,
  \<open>keyboard_state\<close>, \<open>proc_state\<close>, \<open>ata_state\<close>, \<open>vfs_state\<close>, \<open>fat_state\<close>, \<open>boot_state\<close>.

  \<^bold>\<open>Conventions.\<close> C integers are words of their width (\<open>u8\<close>, \<open>u16\<close>, \<open>u32\<close>); \<open>int\<close> variables are
  mathematical integers where the code keeps them small. A result \<^const>\<open>None\<close> of type
  option means that the call does not return: an endless loop (\<open>partial_function\<close>) or a processor
  exception. Undefined behaviour that the code can reach is the value \<open>c_fault\<close>; handlers end as an
  \<open>outcome\<close> (returned, halted, entered user mode, faulted). Hardware is a parameter: \<open>dev\<close> gives
  the value of a port read as a function of the history of port accesses, \<open>hlt\<close> is the state after
  the interrupt that ends a halt. Addresses chosen by the linker are the record \<open>link_map\<close>.
  Claims that a loop ends are proved as such, with the result written out.

  \<^bold>\<open>The theories\<close>, in the order of the source.
  \<^item> \<open>Flow_Prelude\<close>: integer types, outcomes, the collections \<open>c_consts\<close> (numeric macros) and
    \<open>no_wrap\<close> (word arithmetic without wrap-around), lemmas on single bits.
  \<^item> \<open>Port_IO\<close> (\<^verbatim>\<open>types.h\<close>): port accesses and the interrupt flag over a history of events.
  \<^item> \<open>Console\<close> (\<^verbatim>\<open>kernel.c\<close>): text driver, number formatting, boxes, serial port, \<open>log_info\<close>; nothing
    outside of the 4000 bytes of the screen is written, and the log reaches the serial line.
  \<^item> \<open>Pic\<close>, \<open>Gdt\<close>, \<open>Idt\<close>: the interrupt controllers, fed as an abstract machine with the port
    writes; segment and gate descriptors read back as the processor does; dispatch of interrupts.
  \<^item> \<open>Pmm\<close> (\<^verbatim>\<open>pmm.c\<close>): the frame bitmap. The memory map walk ends and frees exactly the usable frames,
    allocation is lowest-first and first-fit, the counters agree with the bitmap in every run
    (\<open>pmm_step\<close>). Locale \<open>frame_source\<close>, interpreted as \<open>pmm_frames\<close>.
  \<^item> \<open>Paging\<close> (\<^verbatim>\<open>paging.c\<close>): directories and tables in physical memory, with the processor's page walk
    as the reference. Locale \<open>page_mapper\<close>, interpreted as \<open>pages\<close>.
  \<^item> \<open>Kheap\<close> (\<^verbatim>\<open>heap.c\<close>): the block list, refined to a list of abstract blocks that tile the heap.
    Locale \<open>allocator\<close>, interpreted as \<open>kheap\<close>.
  \<^item> \<open>Timer\<close>, \<open>Keyboard\<close>: the tick counter and the waiting loops; the ring of keys as a queue. Locale
    \<open>fifo\<close>, interpreted as \<open>keys\<close> on the ring and as \<open>ready\<close> on the ready queue.
  \<^item> \<open>Process\<close>, \<open>Scheduler\<close> (\<^verbatim>\<open>process.c\<close>, \<^verbatim>\<open>switch.asm\<close>, \<open>timer_callback\<close> of \<^verbatim>\<open>timer.c\<close>): the process table
    with its linked ready queue, sleeping, preemption and the switch of stacks. The interleavings of
    process calls and timer interrupts are an inductive step relation with an invariant by rule
    induction.
  \<^item> \<open>Ata\<close> (\<^verbatim>\<open>ata.c\<close>): programmed input and output; the drive is a protocol machine over the history
    of port accesses, and a read or write moves exactly the addressed sectors.
  \<^item> \<open>Vfs\<close>, \<open>Fat32\<close> (\<^verbatim>\<open>vfs.c\<close>, \<^verbatim>\<open>fat32.c\<close>): dispatch through nodes, mounting, cluster chains, reading
    files, listing and searching directories. \<open>Fat32_Files\<close> states what a file on the medium is (the
    chain of its clusters in the allocation table and their bytes) and proves that \<open>fat32_read\<close>
    delivers it, including that its temporary heap buffers are given back; \<open>Fat32_Dirs\<close> does the
    same for \<open>fat32_finddir\<close> and for the boot sector in \<open>fat32_init\<close>.
  \<^item> \<open>Elf\<close> (\<^verbatim>\<open>elf.c\<close>): loading an executable and entering user mode. \<open>Elf_Exec\<close> proves what \<open>elf_exec\<close>
    does from the directory on the medium to the jump: which files it refuses without mapping
    anything, and that a valid program is entered with its segments and its stack on fresh frames
    and the bytes of the file in place. It rests on all of the memory management and the file system.
  \<^item> \<open>Syscalls\<close> (\<^verbatim>\<open>syscalls.c\<close>): the four calls and their gate.
  \<^item> \<open>Kernel_Main\<close> (\<^verbatim>\<open>kernel.c\<close>): the boot sequence in the order of the source, the login dialogue.
    \<open>Boot_Memory\<close> proves what its memory section leaves behind, the state that the theorems on heap,
    files and programs start from, and that page tables stay well formed from then on (\<open>vm_step\<close>).
  \<^item> \<open>Shell\<close> (\<^verbatim>\<open>shell.c\<close>): the command loop over the system call interface; commands are compared,
    put in upper case and handed to \<open>elf_exec\<close> through the kernel's own handler. The test program (\<^verbatim>\<open>test.c\<close>) is here too.

  \<^bold>\<open>Bounds.\<close> No fuel is used: loops are structural, have a termination proof or are
  \<open>partial_function\<close>s. The shell's endless loop is followed for any given number of rounds.

  \<^bold>\<open>Not modelled.\<close> The assembly of \<^verbatim>\<open>boot.asm\<close> and \<^verbatim>\<open>isr.asm\<close> (entry, interrupt stubs).
  Page tables and the contents of memory are separate
  stores: contents are addressed virtually, so two virtual pages on one frame are not modelled as
  aliases, and heap headers are a store of their own, which only the heap operations write.
  Interrupts are taken where the code halts and between process operations, not between any two
  instructions.
\<close>

end
